(* ===== verification/Prelude.thy ===== *)
theory Prelude
  imports Main "HOL-Library.Word"
begin

text \<open>
  Shared vocabulary of the development: the machine integers of the riscv64 target, the
  ways a kernel path can stop, byte-addressed memory with the raw-pointer primitives of
  Rust's \<^verbatim>\<open>core::ptr\<close>, little-endian encodings, and the word lemmas the components
  share.  The release profile of the kernel has no overflow checks, so \<open>+\<close>, \<open>-\<close> and
  \<open>*\<close> on \<^verbatim>\<open>usize\<close> wrap: this is exactly the arithmetic of \<open>64 word\<close>.
\<close>

unbundle bit_operations_syntax

section \<open>Machine integers, outcomes, collections of lemmas\<close>

type_synonym u8 = "8 word"
type_synonym u16 = "16 word"
type_synonym u32 = "32 word"
type_synonym u64 = "64 word"
type_synonym usize = "64 word"
type_synonym isize = "64 word"

text \<open>
  A kernel path that does not return normally: a Rust panic (the panic handler loops), a
  memory access without a translation (the trap handler loops on the fault), an endless
  loop, undefined behaviour of Rust, or the machine being powered off.
\<close>

datatype kerror = Panic string | PageFault usize | Hang | Undefined string | PowerOff

type_synonym 'a res = "kerror + 'a"

definition res_bind :: "'a res \<Rightarrow> ('a \<Rightarrow> 'b res) \<Rightarrow> 'b res" where
  "res_bind r f = (case r of Inl e \<Rightarrow> Inl e | Inr x \<Rightarrow> f x)"

lemma res_bind_simps [simp]:
  "res_bind (Inl e) f = Inl e"
  "res_bind (Inr x) f = f x"
  by (simp_all add: res_bind_def)

lemma res_bind_Inr_iff: "res_bind r f = Inr y \<longleftrightarrow> (\<exists>x. r = Inr x \<and> f x = Inr y)"
  by (cases r) simp_all

text \<open>A \<^verbatim>\<open>for\<close> loop whose body may panic, and one whose body may also return early.\<close>

fun res_fold :: "('s \<Rightarrow> 'x \<Rightarrow> 's res) \<Rightarrow> 's \<Rightarrow> 'x list \<Rightarrow> 's res" where
  "res_fold f s [] = Inr s"
| "res_fold f s (x # xs) = (case f s x of Inl e \<Rightarrow> Inl e | Inr s' \<Rightarrow> res_fold f s' xs)"

datatype 's flow = Next 's | Return 's

fun flow_fold :: "('s \<Rightarrow> 'x \<Rightarrow> 's flow res) \<Rightarrow> 's \<Rightarrow> 'x list \<Rightarrow> 's flow res" where
  "flow_fold f s [] = Inr (Next s)"
| "flow_fold f s (x # xs) =
     (case f s x of
        Inl e \<Rightarrow> Inl e
      | Inr (Return s') \<Rightarrow> Inr (Return s')
      | Inr (Next s') \<Rightarrow> flow_fold f s' xs)"

lemma res_fold_append:
  "res_fold f s (xs @ ys) = res_bind (res_fold f s xs) (\<lambda>s'. res_fold f s' ys)"
  by (induction xs arbitrary: s) (auto split: sum.splits)

text \<open>
  A loop invariant that records which elements are done, for bodies that either go on or
  stop for a reason \<open>R\<close>.
\<close>

lemma flow_fold_cases:
  assumes "P s ys"
    and "\<And>t x zs rest. ys @ xs = zs @ x # rest \<Longrightarrow> P t zs \<Longrightarrow>
      (\<exists>t'. f t x = Inr (Next t') \<and> P t' (zs @ [x])) \<or> (\<forall>t'. f t x \<noteq> Inr (Next t')) \<and> R"
  shows "(\<exists>s'. flow_fold f s xs = Inr (Next s') \<and> P s' (ys @ xs)) \<or>
    (\<forall>s'. flow_fold f s xs \<noteq> Inr (Next s')) \<and> R"
  using assms
proof (induction xs arbitrary: s ys)
  case Nil
  then show ?case by simp
next
  case (Cons x xs)
  note step = Cons.prems(2)
  consider t where "f s x = Inr (Next t)" "P t (ys @ [x])" | "\<forall>t'. f s x \<noteq> Inr (Next t')" R
    using step [OF refl Cons.prems(1)] by blast
  then show ?case
  proof cases
    case 1
    have "(\<exists>s'. flow_fold f t xs = Inr (Next s') \<and> P s' ((ys @ [x]) @ xs)) \<or>
        (\<forall>s'. flow_fold f t xs \<noteq> Inr (Next s')) \<and> R"
      by (rule Cons.IH [OF 1(2)], rule step) (simp_all only: append.assoc append.simps)
    then show ?thesis by (simp add: 1(1))
  next
    case 2
    then have "flow_fold f s (x # xs) \<noteq> Inr (Next s')" for s'
      by (auto split: sum.splits flow.splits)
    with 2(2) show ?thesis by blast
  qed
qed

named_theorems mem_simps \<open>reads after writes of byte memory\<close>
named_theorems layout_simps \<open>page and slot arithmetic\<close>

section \<open>Word lemmas\<close>

lemma unat_add_noov:
  "unat (a::usize) + unat b < 2 ^ 64 \<Longrightarrow> unat (a + b) = unat a + unat b"
  by (simp add: unat_word_ariths)

lemma unat_succ: "n < (m::usize) \<Longrightarrow> unat (n + 1) = unat n + 1"
  using unsigned_less [where ?'a = nat and w = m] by (simp add: unat_word_ariths word_less_nat_alt)

lemma unat_sub_noov: "b \<le> (a::usize) \<Longrightarrow> unat (a - b) = unat a - unat b"
  by (rule unat_sub)

lemma unat_push_bit_12:
  assumes "unat (p::usize) < 2 ^ 52"
  shows "unat (push_bit 12 p) = 4096 * unat p"
  using assms by (simp add: push_bit_eq_mult unat_word_ariths mult.commute)

lemma unat_drop_bit_12: "unat (drop_bit 12 (a::usize)) = unat a div 4096"
  by (simp add: unat_drop_bit_eq drop_bit_nat_def)

lemma unat_lt_2_64: "unat (a::usize) < 18446744073709551616"
  using unsigned_less [of a] by simp

lemma word_eq_unatI: "unat (a::'a::len word) = unat b \<Longrightarrow> a = b"
  by (simp add: word_unat_eq_iff)

lemma unat_two_power: "k < 64 \<Longrightarrow> unat ((2::usize) ^ k) = 2 ^ k"
proof -
  assume "k < 64"
  then have "(2::nat) ^ k < 2 ^ 64"
    by (intro power_strict_increasing) simp_all
  moreover have "(2::usize) ^ k = of_nat (2 ^ k)"
    by simp
  ultimately show ?thesis
    by (simp only: unat_of_nat) simp
qed

lemma not_bit_less_two_power:
  assumes "(w::usize) < 2 ^ k" "k \<le> n" "k < 64"
  shows "\<not> bit w n"
proof -
  have "w AND mask k = w"
    using assms(1) by (rule less_mask_eq)
  then have "bit w n \<longleftrightarrow> bit (w AND mask k) n"
    by simp
  then show ?thesis
    using assms(2) by (simp add: bit_simps)
qed

lemma mod_sum_eq:
  assumes "(x + y) mod N = 0" "x < N" "y < N" "0 < x"
  shows "x + y = (N::nat)"
proof -
  from assms(1) obtain k where k: "x + y = N * k"
    by (auto elim: dvdE)
  with assms(4) have "k \<noteq> 0" by (cases k) auto
  moreover from k assms(2,3) have "N * k < N * 2" by linarith
  then have "k < 2" by simp
  ultimately have "k = 1" by simp
  with k show ?thesis by simp
qed

lemma unat_diff_sum:
  assumes "a \<noteq> (b::usize)"
  shows "unat (b - a) + unat (a - b) = 2 ^ 64"
proof (rule mod_sum_eq)
  have "(unat (b - a) + unat (a - b)) mod 2 ^ LENGTH(64) = unat ((b - a) + (a - b))"
    by (simp only: unat_word_ariths)
  then show "(unat (b - a) + unat (a - b)) mod 2 ^ 64 = 0"
    by simp
  show "0 < unat (b - a)"
    using assms by (simp add: unat_gt_0)
qed (use unat_lt_2_64 in simp_all)

text \<open>The values of \<^verbatim>\<open>(a..b).step_by(d)\<close>.\<close>

definition range_step :: "usize \<Rightarrow> usize \<Rightarrow> usize \<Rightarrow> usize list" where
  "range_step a b d = map (\<lambda>i. a + of_nat i * d) [0..<(unat b - unat a + unat d - 1) div unat d]"

text \<open>The idiom \<open>(x + n - 1) & !(n - 1)\<close> for a page: rounding up to a multiple of 4096.\<close>

definition page_align_up :: "usize \<Rightarrow> usize" where
  "page_align_up x = (x + 4096 - 1) AND NOT (4096 - 1)"

definition page_align_down :: "usize \<Rightarrow> usize" where
  "page_align_down x = x AND NOT (4096 - 1)"

lemma and_not_mask: "(x::usize) AND NOT (mask k) = push_bit k (drop_bit k x)"
  by (simp add: bit_eq_iff bit_simps) (auto simp: not_less)

lemma unat_and_not_mask: "unat ((x::usize) AND NOT (mask k)) = unat x div 2 ^ k * 2 ^ k"
proof -
  have "unat x div 2 ^ k * 2 ^ k \<le> unat x"
    by simp
  also have "\<dots> < 2 ^ 64"
    using unat_lt_2_64 [of x] by simp
  finally show ?thesis
    by (simp add: and_not_mask unsigned_push_bit_eq unat_drop_bit_eq drop_bit_nat_def
        push_bit_nat_def take_bit_nat_eq_self)
qed

lemma unat_and_minus_4096: "unat ((x::usize) AND - 4096) = unat x div 4096 * 4096"
proof -
  have "(- 4096 :: usize) = NOT (mask 12)"
    by (simp add: mask_eq_exp_minus_1)
  then show ?thesis
    using unat_and_not_mask [of x 12] by simp
qed

lemma unat_page_align_down: "unat (page_align_down x) = unat x div 4096 * 4096"
  by (simp add: page_align_down_def unat_and_minus_4096)

lemma unat_page_align_up:
  assumes "unat x + 4095 < 2 ^ 64"
  shows "unat (page_align_up x) = (unat x + 4095) div 4096 * 4096"
proof -
  have "unat (4095 + x) = unat x + 4095"
    using assms by (subst unat_add_noov) simp_all
  then show ?thesis
    by (simp add: page_align_up_def unat_and_minus_4096)
qed

section \<open>Byte memory and raw pointers\<close>

text \<open>
  Memory is a function from addresses to bytes.  \<open>write_bytes\<close>, \<open>copy_nonoverlapping\<close>
  and the typed loads and stores are the raw-pointer operations the kernel uses; an address
  offset wraps like the hart's address adder.
\<close>

type_synonym memory = "usize \<Rightarrow> u8"

definition write_bytes :: "memory \<Rightarrow> usize \<Rightarrow> u8 \<Rightarrow> usize \<Rightarrow> memory" where
  "write_bytes m p v n = (\<lambda>a. if a - p < n then v else m a)"

definition copy_nonoverlapping :: "memory \<Rightarrow> usize \<Rightarrow> usize \<Rightarrow> usize \<Rightarrow> memory" where
  "copy_nonoverlapping m src dst n = (\<lambda>a. if a - dst < n then m (src + (a - dst)) else m a)"

definition store_bytes :: "memory \<Rightarrow> usize \<Rightarrow> u8 list \<Rightarrow> memory" where
  "store_bytes m p xs = (\<lambda>a. if unat (a - p) < length xs then xs ! unat (a - p) else m a)"

definition load_bytes :: "memory \<Rightarrow> usize \<Rightarrow> nat \<Rightarrow> u8 list" where
  "load_bytes m p n = map (\<lambda>i. m (p + of_nat i)) [0..<n]"

text \<open>Little-endian encodings (\<^verbatim>\<open>to_ne_bytes\<close> on riscv64) of any word width.\<close>

definition le_bytes :: "nat \<Rightarrow> 'a::len word \<Rightarrow> u8 list" where
  "le_bytes n w = map (\<lambda>i. ucast (drop_bit (8 * i) w)) [0..<n]"

fun le_word :: "u8 list \<Rightarrow> 'a::len word" where
  "le_word [] = 0"
| "le_word (b # bs) = ucast b OR push_bit 8 (le_word bs)"

lemma length_le_bytes [simp]: "length (le_bytes n w) = n"
  by (simp add: le_bytes_def)

lemma length_load_bytes [simp]: "length (load_bytes m p n) = n"
  by (simp add: load_bytes_def)

lemma nth_load_bytes [simp]: "i < n \<Longrightarrow> load_bytes m p n ! i = m (p + of_nat i)"
  by (simp add: load_bytes_def)

lemma bit_le_word:
  "bit (le_word bs :: 'a::len word) i \<longleftrightarrow>
     i < LENGTH('a) \<and> i div 8 < length bs \<and> bit (bs ! (i div 8)) (i mod 8)"
proof (induction bs arbitrary: i)
  case Nil
  then show ?case by simp
next
  case (Cons b bs)
  show ?case
  proof (cases "i < 8")
    case True
    then show ?thesis by (auto simp: bit_simps)
  next
    case False
    then have "i div 8 = Suc ((i - 8) div 8)" "i mod 8 = (i - 8) mod 8"
      by (simp_all add: le_div_geq le_mod_geq)
    moreover have "\<not> bit b i"
      using False by (auto dest: bit_imp_le_length)
    ultimately show ?thesis
      using False Cons.IH [of "i - 8"] by (auto simp: bit_simps)
  qed
qed

lemma le_word_le_bytes:
  assumes "LENGTH('a) \<le> 8 * n"
  shows "le_word (le_bytes n w) = (w :: 'a::len word)"
proof (rule bit_word_eqI)
  fix i assume i: "i < LENGTH('a)"
  then have "i div 8 < n" using assms by auto
  moreover have "8 * (i div 8) + i mod 8 = i" by simp
  ultimately show "bit (le_word (le_bytes n w) :: 'a word) i = bit w i"
    using i by (simp add: bit_le_word le_bytes_def bit_simps)
qed

subsection \<open>Typed loads and stores\<close>

definition load_u64 :: "memory \<Rightarrow> usize \<Rightarrow> u64" where
  "load_u64 m a = le_word (load_bytes m a 8)"

definition store_u64 :: "memory \<Rightarrow> usize \<Rightarrow> u64 \<Rightarrow> memory" where
  "store_u64 m a v = store_bytes m a (le_bytes 8 v)"

definition store_u32 :: "memory \<Rightarrow> usize \<Rightarrow> u32 \<Rightarrow> memory" where
  "store_u32 m a v = store_bytes m a (le_bytes 4 v)"

lemma store_bytes_in [mem_simps]:
  "unat (a - p) < length xs \<Longrightarrow> store_bytes m p xs a = xs ! unat (a - p)"
  by (simp add: store_bytes_def)

lemma store_bytes_out [mem_simps]:
  "length xs \<le> unat (a - p) \<Longrightarrow> store_bytes m p xs a = m a"
  by (simp add: store_bytes_def)

lemma load_store_bytes [mem_simps]:
  assumes "length xs \<le> 2 ^ 64"
  shows "load_bytes (store_bytes m p xs) p (length xs) = xs"
proof (rule nth_equalityI)
  fix i assume "i < length (load_bytes (store_bytes m p xs) p (length xs))"
  then have i: "i < length xs" by simp
  then have "unat (of_nat i :: usize) = i"
    using assms by (simp add: unat_of_nat)
  then show "load_bytes (store_bytes m p xs) p (length xs) ! i = xs ! i"
    using i by (simp add: store_bytes_def)
qed simp

lemma load_u64_store_same [mem_simps, simp]: "load_u64 (store_u64 m a v) a = v"
proof -
  have "load_bytes (store_u64 m a v) a 8 = le_bytes 8 v"
    using load_store_bytes [of "le_bytes 8 v" m a] by (simp add: store_u64_def)
  then show ?thesis
    by (simp add: load_u64_def le_word_le_bytes)
qed

lemma load_bytes_cong:
  "(\<And>i. i < n \<Longrightarrow> m (p + of_nat i) = m' (p + of_nat i)) \<Longrightarrow> load_bytes m p n = load_bytes m' p n"
  by (simp add: load_bytes_def)

lemma load_u64_cong:
  "(\<And>i. i < 8 \<Longrightarrow> m (a + of_nat i) = m' (a + of_nat i)) \<Longrightarrow> load_u64 m a = load_u64 m' a"
  by (simp add: load_u64_def cong: load_bytes_cong)

text \<open>Two eight-byte cells are disjoint when their distance is at least eight both ways round.\<close>

lemma load_u64_store_other [mem_simps]:
  assumes "8 \<le> b - a" "8 \<le> a - b"
  shows "load_u64 (store_u64 m a v) b = load_u64 m b"
proof (rule load_u64_cong)
  fix i :: nat assume i: "i < 8"
  have "8 \<le> unat (b - a)" "8 \<le> unat (a - b)"
    using assms by (simp_all add: word_le_nat_alt)
  moreover have "unat (b - a) + unat (a - b) = 2 ^ 64"
    using calculation by (intro unat_diff_sum) auto
  ultimately have "8 \<le> unat (b - a)" "unat (b - a) + 8 \<le> 2 ^ 64"
    by simp_all
  moreover have "unat (of_nat i :: usize) = i"
    using i by (simp add: unat_of_nat)
  ultimately have "unat (b - a + of_nat i) = unat (b - a) + i"
    using i by (subst unat_add_noov) auto
  then have "8 \<le> unat (b + of_nat i - a)"
    using \<open>8 \<le> unat (b - a)\<close> by (simp add: diff_add_eq)
  then show "store_u64 m a v (b + of_nat i) = m (b + of_nat i)"
    by (simp add: store_u64_def store_bytes_def)
qed

section \<open>Page frames\<close>

text \<open>
  The page with frame number \<open>p\<close> starts at \<open>p << 12\<close>; a page table's entry \<open>i\<close> is the
  eight-byte cell at \<open>(p << 12) + 8 * i\<close>.  Frame numbers below \<open>2 ^ 52\<close> are those whose
  page has an address at all.
\<close>

definition frame_ok :: "usize \<Rightarrow> bool" where
  "frame_ok p \<longleftrightarrow> unat p < 2 ^ 52"

definition slot :: "usize \<Rightarrow> usize \<Rightarrow> usize" where
  "slot p i = push_bit 12 p + i * 8"

lemma unat_page_offset:
  assumes "frame_ok p" "n < 4096"
  shows "unat (push_bit 12 p + of_nat n) = 4096 * unat p + n"
proof -
  have "unat (of_nat n :: usize) = n"
    using assms(2) by (simp add: unat_of_nat)
  then show ?thesis
    using assms by (subst unat_add_noov) (simp_all add: frame_ok_def unat_push_bit_12)
qed

lemma drop_bit_page_offset:
  assumes "frame_ok p" "n < 4096"
  shows "drop_bit 12 (push_bit 12 p + of_nat n) = p"
  by (rule word_eq_unatI) (simp add: unat_drop_bit_12 unat_page_offset [OF assms] assms(2))

lemma slot_byte:
  assumes "i < 512" "k < 8"
  shows "slot p i + of_nat k = push_bit 12 p + of_nat (8 * unat i + k)"
    and "8 * unat i + k < 4096"
proof -
  have "of_nat (8 * unat i + k) = 8 * i + of_nat k"
    by simp
  then show "slot p i + of_nat k = push_bit 12 p + of_nat (8 * unat i + k)"
    by (simp add: slot_def mult.commute)
  show "8 * unat i + k < 4096"
    using assms by (simp add: word_less_nat_alt)
qed

text \<open>Membership of an address in a page, as the frame number of the address.\<close>

lemma in_page_iff:
  assumes "frame_ok p"
  shows "a - push_bit 12 p < 4096 \<longleftrightarrow> drop_bit 12 a = p"
proof
  assume "a - push_bit 12 p < 4096"
  then have n: "unat (a - push_bit 12 p) < 4096"
    by (simp add: word_less_nat_alt)
  have "push_bit 12 p + of_nat (unat (a - push_bit 12 p)) = a"
    by simp
  then show "drop_bit 12 a = p"
    using drop_bit_page_offset [OF assms n] by simp
next
  assume p: "drop_bit 12 a = p"
  then have "unat a div 4096 = unat p"
    using unat_drop_bit_12 [of a] by simp
  moreover have "unat (push_bit 12 p) = 4096 * unat p"
    using assms by (simp add: frame_ok_def unat_push_bit_12)
  ultimately have "unat (push_bit 12 p) = unat a div 4096 * 4096"
    by simp
  then have "push_bit 12 p \<le> a" and "unat a - unat (push_bit 12 p) < 4096"
    by (simp_all add: word_le_nat_alt)
  then show "a - push_bit 12 p < 4096"
    by (simp add: word_less_nat_alt unat_sub)
qed

lemma load_u64_slot_cong:
  assumes "frame_ok q" "j < 512" "\<And>a. drop_bit 12 a = q \<Longrightarrow> m a = m' a"
  shows "load_u64 m (slot q j) = load_u64 m' (slot q j)"
proof (rule load_u64_cong)
  fix k :: nat assume "k < 8"
  with assms(2) have "slot q j + of_nat k = push_bit 12 q + of_nat (8 * unat j + k)"
    and "8 * unat j + k < 4096"
    by (rule slot_byte)+
  then show "m (slot q j + of_nat k) = m' (slot q j + of_nat k)"
    using assms by (simp only: drop_bit_page_offset)
qed

lemma store_u64_slot_outside:
  assumes "frame_ok p" "i < 512" "drop_bit 12 a \<noteq> p"
  shows "store_u64 m (slot p i) v a = m a"
proof -
  have "8 \<le> unat (a - slot p i)"
  proof (rule ccontr)
    assume "\<not> 8 \<le> unat (a - slot p i)"
    then have k: "unat (a - slot p i) < 8" by simp
    have a: "slot p i + of_nat (unat (a - slot p i)) = a"
      by simp
    have "drop_bit 12 (slot p i + of_nat (unat (a - slot p i))) = p"
      by (simp only: slot_byte(1) [OF assms(2) k]
          drop_bit_page_offset [OF assms(1) slot_byte(2) [OF assms(2) k]])
    then have "drop_bit 12 a = p"
      by (simp only: a)
    with assms(3) show False ..
  qed
  then show ?thesis
    by (simp add: store_u64_def store_bytes_def)
qed

lemma load_u64_store_slot [mem_simps]:
  assumes "frame_ok p" "frame_ok q" "i < 512" "j < 512"
  shows "load_u64 (store_u64 m (slot p i) v) (slot q j) =
           (if p = q \<and> i = j then v else load_u64 m (slot q j))"
proof (cases "p = q")
  case True
  show ?thesis
  proof (cases "i = j")
    case False
    have u: "unat i < 512" "unat j < 512"
      using assms by (simp_all add: word_less_nat_alt)
    have "unat i \<noteq> unat j"
      using False by (simp add: word_unat_eq_iff)
    have off: "unat (slot p i) = 4096 * unat p + 8 * unat i"
      if "i < 512" for i
      using slot_byte(1) [OF that, of 0 p]
        unat_page_offset [OF assms(1) slot_byte(2) [OF that, of 0]] by simp
    have "8 \<le> slot p j - slot p i \<and> 8 \<le> slot p i - slot p j"
    proof (cases "unat i < unat j")
      case True
      then have "slot p i \<le> slot p j"
        using assms by (simp add: word_le_nat_alt off)
      then have "unat (slot p j - slot p i) = 8 * (unat j - unat i)"
        using assms by (simp add: unat_sub off)
      moreover have "slot p i \<noteq> slot p j"
        using \<open>unat i \<noteq> unat j\<close> off [of i] off [of j] assms by auto
      ultimately show ?thesis
        using unat_diff_sum [of "slot p i" "slot p j"] True u
        by (simp add: word_le_nat_alt) linarith
    next
      case ji: False
      then have "slot p j \<le> slot p i"
        using assms by (simp add: word_le_nat_alt off)
      then have "unat (slot p i - slot p j) = 8 * (unat i - unat j)"
        using assms by (simp add: unat_sub off)
      moreover have "slot p j \<noteq> slot p i"
        using \<open>unat i \<noteq> unat j\<close> off [of i] off [of j] assms by auto
      ultimately show ?thesis
        using unat_diff_sum [of "slot p j" "slot p i"] ji u \<open>unat i \<noteq> unat j\<close>
        by (simp add: word_le_nat_alt) linarith
    qed
    then show ?thesis
      using True False by (simp add: load_u64_store_other)
  qed (use True in simp)
next
  case False
  have "load_u64 (store_u64 m (slot p i) v) (slot q j) = load_u64 m (slot q j)"
    using assms False by (intro load_u64_slot_cong store_u64_slot_outside) auto
  with False show ?thesis by simp
qed

lemma write_bytes_page:
  "frame_ok p \<Longrightarrow> write_bytes m (push_bit 12 p) v 4096 a = (if drop_bit 12 a = p then v else m a)"
  by (simp add: write_bytes_def in_page_iff)

lemma le_word_zero: "le_word (replicate n 0) = 0"
  by (induction n) simp_all

lemma load_u64_zero_page [mem_simps]:
  assumes "frame_ok p" "frame_ok q" "j < 512"
  shows "load_u64 (write_bytes m (push_bit 12 p) 0 4096) (slot q j) =
           (if p = q then 0 else load_u64 m (slot q j))"
proof (cases "p = q")
  case True
  have "load_u64 (write_bytes m (push_bit 12 p) 0 4096) (slot q j) = load_u64 (\<lambda>_. 0) (slot q j)"
    using assms True by (intro load_u64_slot_cong) (auto simp: write_bytes_page)
  also have "\<dots> = 0"
    using le_word_zero [of 8] by (simp add: load_u64_def load_bytes_def map_replicate_const)
  finally show ?thesis using True by simp
next
  case False
  have "load_u64 (write_bytes m (push_bit 12 p) 0 4096) (slot q j) = load_u64 m (slot q j)"
    using assms False by (intro load_u64_slot_cong) (auto simp: write_bytes_page)
  with False show ?thesis by simp
qed

lemma copy_page:
  assumes "frame_ok p"
  shows "copy_nonoverlapping m src (push_bit 12 p) 4096 a =
           (if drop_bit 12 a = p then m (src + (a - push_bit 12 p)) else m a)"
  using assms by (simp add: copy_nonoverlapping_def in_page_iff)

end
