(* ===== verification/Frame_Alloc.thy ===== *)
theory Frame_Alloc
  imports Prelude
begin

text \<open>
  The two bump allocators of \<^verbatim>\<open>src/src/mm.rs\<close>: the kernel heap behind Rust's global
  allocator and the page-frame allocator.  Both only ever move a pointer upwards; the
  contract they share (granted blocks are disjoint, in range and never reused) is the locale
  \<open>bump_allocator\<close>.
\<close>

section \<open>State\<close>

record heap_allocator =
  hp_current :: usize
  hp_end :: usize

record page_allocator =
  pg_current :: usize
  pg_end :: usize

record mm_state =
  ram :: memory
  heap_alloc :: heap_allocator
  page_alloc :: page_allocator
  kernel_page_table :: "usize option"

definition heap_allocator_new :: heap_allocator where
  "heap_allocator_new = \<lparr>hp_current = 0, hp_end = 0\<rparr>"

definition page_allocator_new :: page_allocator where
  "page_allocator_new = \<lparr>pg_current = 0, pg_end = 0\<rparr>"

section \<open>Kernel heap\<close>

record layout =
  lay_size :: usize
  lay_align :: usize

definition init_heap :: "mm_state \<Rightarrow> mm_state" where
  "init_heap s = s\<lparr>heap_alloc := \<lparr>hp_current = 0x86000000, hp_end = 0x87000000\<rparr>\<rparr>"

text \<open>\<^verbatim>\<open>BumpAlloc::alloc\<close>: the null pointer 0 reports failure.\<close>

definition bump_alloc :: "heap_allocator \<Rightarrow> layout \<Rightarrow> usize \<times> heap_allocator" where
  "bump_alloc h l =
     (let addr = (hp_current h + lay_align l - 1) AND NOT (lay_align l - 1)
      in if addr + lay_size l \<le> hp_end h
         then (addr, h\<lparr>hp_current := addr + lay_size l\<rparr>)
         else (0, h))"

definition bump_dealloc :: "heap_allocator \<Rightarrow> usize \<Rightarrow> layout \<Rightarrow> heap_allocator" where
  "bump_dealloc h ptr l = h"

section \<open>Page frames\<close>

definition mm_init :: "usize \<Rightarrow> mm_state \<Rightarrow> mm_state" where
  "mm_init kernel_end s =
     s\<lparr>page_alloc := \<lparr>pg_current = page_align_up kernel_end, pg_end = 0x88000000\<rparr>\<rparr>"

definition alloc_page :: "mm_state \<Rightarrow> usize option \<times> mm_state" where
  "alloc_page s =
     (let a = page_alloc s in
      if pg_current a + 4096 \<le> pg_end a
      then (let page = pg_current a in
            (Some page,
             s\<lparr>page_alloc := a\<lparr>pg_current := pg_current a + 4096\<rparr>,
               ram := write_bytes (ram s) page 0 4096\<rparr>))
      else (None, s))"

definition alloc_pages :: "mm_state \<Rightarrow> usize \<Rightarrow> usize option \<times> mm_state" where
  "alloc_pages s n =
     (let a = page_alloc s; size = n * 4096 in
      if pg_current a + size \<le> pg_end a
      then (let page = pg_current a in
            (Some page,
             s\<lparr>page_alloc := a\<lparr>pg_current := pg_current a + size\<rparr>,
               ram := write_bytes (ram s) page 0 size\<rparr>))
      else (None, s))"

definition dealloc_page :: "mm_state \<Rightarrow> usize \<Rightarrow> mm_state" where
  "dealloc_page s addr = s"

section \<open>The allocation contract\<close>

text \<open>
  A run of requests: the blocks granted, oldest first, as pairs of start address and size in
  bytes, and the final state.
\<close>

fun alloc_run :: "('s \<Rightarrow> 'r \<Rightarrow> usize option \<times> 's) \<Rightarrow> ('r \<Rightarrow> nat) \<Rightarrow> 's \<Rightarrow> 'r list \<Rightarrow> (nat \<times> nat) list \<times> 's"
where
  "alloc_run al sz s [] = ([], s)"
| "alloc_run al sz s (r # rs) =
     (case al s r of
        (None, s') \<Rightarrow> alloc_run al sz s' rs
      | (Some a, s') \<Rightarrow> (let (bs, s'') = alloc_run al sz s' rs in ((unat a, sz r) # bs, s'')))"

definition disjoint_blocks :: "nat \<times> nat \<Rightarrow> nat \<times> nat \<Rightarrow> bool" where
  "disjoint_blocks b c \<longleftrightarrow> fst b + snd b \<le> fst c \<or> fst c + snd c \<le> fst b"

locale bump_allocator =
  fixes alloc :: "'s \<Rightarrow> 'r \<Rightarrow> usize option \<times> 's"
    and req_ok :: "'r \<Rightarrow> bool"
    and bytes :: "'r \<Rightarrow> nat"
    and frontier :: "'s \<Rightarrow> nat"
    and limit :: "'s \<Rightarrow> nat"
    and inv :: "'s \<Rightarrow> bool"
  assumes alloc_grants:
      "inv s \<Longrightarrow> req_ok r \<Longrightarrow> alloc s r = (Some a, s') \<Longrightarrow>
         frontier s \<le> unat a \<and> unat a + bytes r = frontier s' \<and> frontier s' \<le> limit s"
    and alloc_refuses: "inv s \<Longrightarrow> req_ok r \<Longrightarrow> alloc s r = (None, s') \<Longrightarrow> s' = s"
    and alloc_limit: "alloc s r = (x, s') \<Longrightarrow> limit s' = limit s"
    and alloc_inv: "inv s \<Longrightarrow> req_ok r \<Longrightarrow> alloc s r = (x, s') \<Longrightarrow> inv s'"
begin

lemma frontier_mono: "inv s \<Longrightarrow> req_ok r \<Longrightarrow> alloc s r = (x, s') \<Longrightarrow> frontier s \<le> frontier s'"
  by (cases x) (auto dest: alloc_grants alloc_refuses)

lemma run_blocks:
  assumes "inv s" "list_all req_ok rs" "alloc_run alloc bytes s rs = (bs, s')"
  shows "sorted_wrt (\<lambda>b c. fst b + snd b \<le> fst c) bs \<and>
    (\<forall>b \<in> set bs. frontier s \<le> fst b \<and> fst b + snd b \<le> limit s)"
  using assms
proof (induction rs arbitrary: s bs)
  case Nil
  then show ?case by simp
next
  case (Cons r rs)
  obtain x t where al: "alloc s r = (x, t)" by fastforce
  from Cons.prems al have t: "inv t" "limit t = limit s" "frontier s \<le> frontier t"
    by (auto intro: alloc_inv alloc_limit frontier_mono)
  show ?case
  proof (cases x)
    case None
    with Cons.prems al t Cons.IH [of t bs] show ?thesis by fastforce
  next
    case (Some a)
    from Cons.prems al Some obtain bs' where
      run: "alloc_run alloc bytes t rs = (bs', s')" and bs: "bs = (unat a, bytes r) # bs'"
      by (auto split: prod.splits)
    from Cons.prems al Some have
      "frontier s \<le> unat a \<and> unat a + bytes r = frontier t \<and> frontier t \<le> limit s"
      by (auto dest: alloc_grants)
    with Cons.IH [OF t(1) _ run] Cons.prems t bs show ?thesis by fastforce
  qed
qed

lemma run_disjoint:
  assumes "inv s" "list_all req_ok rs" "alloc_run alloc bytes s rs = (bs, s')"
    and "i < length bs" "j < length bs" "i \<noteq> j"
  shows "disjoint_blocks (bs ! i) (bs ! j)"
proof -
  have s: "sorted_wrt (\<lambda>b c. fst b + snd b \<le> fst c) bs"
    using run_blocks [OF assms(1-3)] ..
  consider "i < j" | "j < i" using assms(6) by linarith
  then show ?thesis
    by cases (use assms(4,5) sorted_wrt_nth_less [OF s] in \<open>auto simp: disjoint_blocks_def\<close>)
qed

end

section \<open>The heap allocator meets the contract\<close>

text \<open>What Rust guarantees of every \<^verbatim>\<open>Layout\<close>: a power-of-two alignment and no overflow.\<close>

definition layout_ok :: "layout \<Rightarrow> bool" where
  "layout_ok l \<longleftrightarrow> (\<exists>k < 63. lay_align l = 2 ^ k) \<and> unat (lay_size l) + unat (lay_align l) \<le> 2 ^ 63"

definition heap_ok :: "heap_allocator \<Rightarrow> bool" where
  "heap_ok h \<longleftrightarrow> 0 < hp_current h \<and> hp_current h \<le> hp_end h \<and> unat (hp_end h) < 2 ^ 63"

lemma bump_align:
  assumes "heap_ok h" "layout_ok l"
  defines "addr \<equiv> (hp_current h + lay_align l - 1) AND NOT (lay_align l - 1)"
  shows "unat (hp_current h) \<le> unat addr" "unat addr + unat (lay_size l) < 2 ^ 64"
    "unat addr mod unat (lay_align l) = 0"
proof -
  from assms(2) obtain k where k: "k < 63" "lay_align l = 2 ^ k"
    and sz: "unat (lay_size l) + unat (lay_align l) \<le> 2 ^ 63"
    by (auto simp: layout_ok_def)
  have al: "unat (lay_align l) = 2 ^ k"
    using k by (simp add: unat_two_power)
  have m: "lay_align l - 1 = mask k"
    by (simp add: k(2) mask_eq_exp_minus_1)
  have lt: "unat (hp_current h) + 2 ^ k < 2 ^ 64"
    using assms(1) sz al by (simp add: heap_ok_def word_le_nat_alt)
  have "unat (mask k :: usize) = 2 ^ k - 1"
    using k(1) by (simp add: mask_eq_exp_minus_1 unat_sub word_le_nat_alt unat_two_power)
  then have "unat (hp_current h + mask k) = unat (hp_current h) + (2 ^ k - 1)"
    using lt by (subst unat_add_noov) auto
  moreover have "hp_current h + lay_align l - 1 = hp_current h + mask k"
    by (simp add: m [symmetric])
  then have "addr = (hp_current h + mask k) AND NOT (mask k)"
    by (simp only: addr_def m)
  ultimately have addr: "unat addr = (unat (hp_current h) + (2 ^ k - 1)) div 2 ^ k * 2 ^ k"
    by (simp add: unat_and_not_mask)
  let ?x = "unat (hp_current h) + (2 ^ k - 1)"
  have "?x div 2 ^ k * 2 ^ k + ?x mod 2 ^ k = ?x"
    by (rule div_mult_mod_eq)
  moreover have "?x mod 2 ^ k < 2 ^ k"
    by simp
  ultimately show "unat (hp_current h) \<le> unat addr"
    unfolding addr by linarith
  have "unat addr \<le> ?x" unfolding addr by simp
  then show "unat addr + unat (lay_size l) < 2 ^ 64"
    using assms(1) sz al by (simp add: heap_ok_def word_le_nat_alt) linarith
  show "unat addr mod unat (lay_align l) = 0"
    by (simp add: addr al)
qed

definition heap_grant :: "heap_allocator \<Rightarrow> layout \<Rightarrow> usize option \<times> heap_allocator" where
  "heap_grant h l = (let (p, h') = bump_alloc h l in (if p = 0 then None else Some p, h'))"

lemma bump_alloc_cases:
  assumes "heap_ok h" "layout_ok l" "bump_alloc h l = (p, h')"
  obtains (fail) "p = 0" "h' = h"
  | (grant) "0 < p" "unat (hp_current h) \<le> unat p" "unat p mod unat (lay_align l) = 0"
      "hp_end h' = hp_end h" "unat p + unat (lay_size l) = unat (hp_current h')"
      "hp_current h' \<le> hp_end h"
proof -
  let ?addr = "(hp_current h + lay_align l - 1) AND NOT (lay_align l - 1)"
  note b = bump_align [OF assms(1,2)]
  show thesis
  proof (cases "?addr + lay_size l \<le> hp_end h")
    case True
    with assms(3) have p: "p = ?addr" and h': "h' = h\<lparr>hp_current := ?addr + lay_size l\<rparr>"
      by (auto simp: bump_alloc_def Let_def)
    have "unat (?addr + lay_size l) = unat ?addr + unat (lay_size l)"
      using b(2) by (rule unat_add_noov)
    moreover have "0 < p"
      using b(1) assms(1) p by (simp add: heap_ok_def word_less_nat_alt)
    ultimately show thesis
      using True b p h' by (intro grant) auto
  next
    case False
    with assms(3) show thesis
      by (intro fail) (auto simp: bump_alloc_def Let_def)
  qed
qed

interpretation heap: bump_allocator heap_grant layout_ok "\<lambda>l. unat (lay_size l)"
  "\<lambda>h. unat (hp_current h)" "\<lambda>h. unat (hp_end h)" heap_ok
proof unfold_locales
  fix s s' r a x
  assume ok: "heap_ok s" "layout_ok r"
  note cases = bump_alloc_cases [OF ok]
  show "unat (hp_current s) \<le> unat a \<and> unat a + unat (lay_size r) = unat (hp_current s') \<and>
      unat (hp_current s') \<le> unat (hp_end s)" if "heap_grant s r = (Some a, s')"
    using that by (auto simp: heap_grant_def word_le_nat_alt elim!: cases
        split: prod.splits if_splits)
  show "s' = s" if "heap_grant s r = (None, s')"
    using that by (auto simp: heap_grant_def elim!: cases split: prod.splits if_splits)
  show "heap_ok s'" if "heap_grant s r = (x, s')"
    using that ok(1) by (auto simp: heap_grant_def heap_ok_def word_less_nat_alt elim!: cases
        split: prod.splits)
next
  fix s s' r x
  show "unat (hp_end s') = unat (hp_end s)" if "heap_grant s r = (x, s')"
    using that by (auto simp: heap_grant_def bump_alloc_def Let_def split: if_splits)
qed

section \<open>The page-frame allocator meets the contract\<close>

definition frames_ok :: "mm_state \<Rightarrow> bool" where
  "frames_ok s \<longleftrightarrow> pg_current (page_alloc s) \<le> pg_end (page_alloc s) \<and>
     unat (pg_current (page_alloc s)) mod 4096 = 0 \<and> unat (pg_end (page_alloc s)) < 2 ^ 63"

definition pages_ok :: "usize \<Rightarrow> bool" where
  "pages_ok n \<longleftrightarrow> unat n \<le> 2 ^ 51"

lemma alloc_pages_cases:
  assumes "frames_ok s" "pages_ok n" "alloc_pages s n = (x, s')"
  obtains (fail) "x = None" "s' = s"
      "unat (pg_end (page_alloc s)) < unat (pg_current (page_alloc s)) + 4096 * unat n"
  | (grant) "x = Some (pg_current (page_alloc s))"
      "s' = s\<lparr>page_alloc := page_alloc s\<lparr>pg_current := pg_current (page_alloc s) + n * 4096\<rparr>,
              ram := write_bytes (ram s) (pg_current (page_alloc s)) 0 (n * 4096)\<rparr>"
      "unat (pg_current (page_alloc s')) = unat (pg_current (page_alloc s)) + 4096 * unat n"
      "pg_current (page_alloc s') \<le> pg_end (page_alloc s)" "frames_ok s'"
proof -
  have sz: "unat (n * 4096) = 4096 * unat n"
    using assms(2) by (simp add: pages_ok_def unat_word_ariths)
  have sum: "unat (pg_current (page_alloc s) + n * 4096) = unat (pg_current (page_alloc s)) + 4096 * unat n"
    using assms(1,2) sz
    by (subst unat_add_noov) (auto simp: frames_ok_def pages_ok_def word_le_nat_alt)
  show thesis
  proof (cases "pg_current (page_alloc s) + n * 4096 \<le> pg_end (page_alloc s)")
    case True
    then show thesis
      using assms sum
      by (intro grant) (auto simp: alloc_pages_def Let_def frames_ok_def mod_add_eq)
  next
    case False
    then show thesis
      using assms sum by (intro fail) (auto simp: alloc_pages_def Let_def word_le_nat_alt)
  qed
qed

lemma alloc_page_eq: "alloc_page s = alloc_pages s 1"
  by (simp add: alloc_page_def alloc_pages_def Let_def)

lemma alloc_page_cases:
  assumes "frames_ok s" "alloc_page s = (x, s')"
  obtains (fail) "x = None" "s' = s"
      "unat (pg_end (page_alloc s)) < unat (pg_current (page_alloc s)) + 4096"
  | (grant) "x = Some (pg_current (page_alloc s))"
      "s' = s\<lparr>page_alloc := page_alloc s\<lparr>pg_current := pg_current (page_alloc s) + 4096\<rparr>,
              ram := write_bytes (ram s) (pg_current (page_alloc s)) 0 4096\<rparr>"
      "unat (pg_current (page_alloc s')) = unat (pg_current (page_alloc s)) + 4096"
      "pg_current (page_alloc s') \<le> pg_end (page_alloc s)" "frames_ok s'"
proof -
  have "pages_ok 1" and "alloc_pages s 1 = (x, s')"
    using assms(2) by (simp_all add: pages_ok_def alloc_page_eq)
  then show thesis
    by (cases rule: alloc_pages_cases [OF assms(1)]) (auto intro: fail grant)
qed

interpretation frames: bump_allocator alloc_pages pages_ok "\<lambda>n. 4096 * unat n"
  "\<lambda>s. unat (pg_current (page_alloc s))" "\<lambda>s. unat (pg_end (page_alloc s))" frames_ok
proof unfold_locales
  fix s s' r a x
  assume ok: "frames_ok s" "pages_ok r"
  note cases = alloc_pages_cases [OF ok]
  show "unat (pg_current (page_alloc s)) \<le> unat a \<and>
      unat a + 4096 * unat r = unat (pg_current (page_alloc s')) \<and>
      unat (pg_current (page_alloc s')) \<le> unat (pg_end (page_alloc s))"
    if "alloc_pages s r = (Some a, s')"
    using that by (auto simp: word_le_nat_alt elim: cases)
  show "s' = s" if "alloc_pages s r = (None, s')"
    using that by (auto elim: cases)
  show "frames_ok s'" if "alloc_pages s r = (x, s')"
    using that ok(1) by (auto elim: cases)
next
  fix s s' r x
  show "unat (pg_end (page_alloc s')) = unat (pg_end (page_alloc s))" if "alloc_pages s r = (x, s')"
    using that by (auto simp: alloc_pages_def Let_def split: if_splits)
qed

section \<open>Properties\<close>

text \<open>
  C33.  Whatever sequence of layouts the kernel requests, the blocks its heap allocator
  grants are pairwise disjoint and lie between the frontier at the start and the heap's end.
\<close>

theorem heap_blocks_disjoint:
  assumes "heap_ok h" "list_all layout_ok ls"
    and "alloc_run heap_grant (\<lambda>l. unat (lay_size l)) h ls = (bs, h')"
  shows "(\<forall>i j. i < length bs \<longrightarrow> j < length bs \<longrightarrow> i \<noteq> j \<longrightarrow> disjoint_blocks (bs ! i) (bs ! j)) \<and>
    (\<forall>b \<in> set bs. unat (hp_current h) \<le> fst b \<and> fst b + snd b \<le> unat (hp_end h))"
  using heap.run_disjoint [OF assms] heap.run_blocks [OF assms] by blast

theorem heap_blocks_disjoint_witness:
  "\<exists>bs h'. alloc_run heap_grant (\<lambda>l. unat (lay_size l)) \<lparr>hp_current = 0x86000000, hp_end = 0x87000000\<rparr>
       [\<lparr>lay_size = 5, lay_align = 1\<rparr>, \<lparr>lay_size = 64, lay_align = 16\<rparr>] = (bs, h') \<and>
     length bs = 2 \<and> disjoint_blocks (bs ! 0) (bs ! 1)"
proof -
  let ?h = "\<lparr>hp_current = 0x86000000, hp_end = 0x87000000\<rparr> :: heap_allocator"
  let ?ls = "[\<lparr>lay_size = 5, lay_align = 1\<rparr>, \<lparr>lay_size = 64, lay_align = 16\<rparr>] :: layout list"
  have h: "heap_ok ?h"
    by (simp add: heap_ok_def)
  have ls: "list_all layout_ok ?ls"
    by (auto simp: layout_ok_def intro: exI [of _ 0] exI [of _ 4])
  have run: "alloc_run heap_grant (\<lambda>l. unat (lay_size l)) ?h ?ls =
      ([(0x86000000, 5), (0x86000010, 64)], \<lparr>hp_current = 0x86000050, hp_end = 0x87000000\<rparr>)"
    by (simp add: heap_grant_def bump_alloc_def)
  have "disjoint_blocks ([(0x86000000, 5), (0x86000010, 64)] ! 0) ([(0x86000000, 5), (0x86000010, 64)] ! 1)"
    by (rule heap_blocks_disjoint [OF h ls run, THEN conjunct1, rule_format]) simp_all
  with run show ?thesis
    by (metis length_Cons list.size(3) numeral_2_eq_2)
qed

text \<open>
  C34.  A page handed out by \<open>alloc_page\<close> is page aligned, starts at the frontier, is
  all zero, and no byte outside it changed; on exhaustion nothing changes.
\<close>

theorem alloc_page_fresh_zeroed:
  assumes "frames_ok s" "alloc_page s = (x, s')"
  shows "case x of
     None \<Rightarrow> s' = s
   | Some page \<Rightarrow>
       unat page mod 4096 = 0 \<and> page = pg_current (page_alloc s) \<and>
       unat (pg_current (page_alloc s')) = unat page + 4096 \<and>
       pg_current (page_alloc s') \<le> pg_end (page_alloc s') \<and>
       (\<forall>a. ram s' a = (if a - page < 4096 then 0 else ram s a))"
  using assms
  by (cases rule: alloc_page_cases [OF assms]) (auto simp: frames_ok_def write_bytes_def)

definition demo_mm :: mm_state where
  "demo_mm = \<lparr>ram = (\<lambda>_. 7), heap_alloc = heap_allocator_new,
     page_alloc = \<lparr>pg_current = 0x80400000, pg_end = 0x88000000\<rparr>, kernel_page_table = None\<rparr>"

theorem alloc_page_fresh_zeroed_witness:
  "frames_ok demo_mm \<and> fst (alloc_page demo_mm) = Some 0x80400000 \<and>
   ram (snd (alloc_page demo_mm)) 0x80400FFF = 0 \<and> ram (snd (alloc_page demo_mm)) 0x80401000 = 7"
proof -
  have ok: "frames_ok demo_mm"
    by (simp add: frames_ok_def demo_mm_def)
  have page: "fst (alloc_page demo_mm) = Some 0x80400000"
    by (simp add: alloc_page_def demo_mm_def)
  then have "alloc_page demo_mm = (Some 0x80400000, snd (alloc_page demo_mm))"
    by (simp add: prod_eq_iff)
  from alloc_page_fresh_zeroed [OF ok this]
  have "ram (snd (alloc_page demo_mm)) a = (if a - 0x80400000 < 4096 then 0 else ram demo_mm a)" for a
    by simp
  with ok page show ?thesis
    by (simp add: demo_mm_def)
qed

fun alloc_page_n :: "nat \<Rightarrow> mm_state \<Rightarrow> mm_state" where
  "alloc_page_n 0 s = s"
| "alloc_page_n (Suc n) s = alloc_page_n n (snd (alloc_page s))"

lemma alloc_page_n_frontier:
  assumes "frames_ok s"
    "unat (pg_current (page_alloc s)) + 4096 * n \<le> unat (pg_end (page_alloc s))"
  shows "frames_ok (alloc_page_n n s) \<and> heap_alloc (alloc_page_n n s) = heap_alloc s \<and>
    pg_end (page_alloc (alloc_page_n n s)) = pg_end (page_alloc s) \<and>
    unat (pg_current (page_alloc (alloc_page_n n s))) = unat (pg_current (page_alloc s)) + 4096 * n"
  using assms
proof (induction n arbitrary: s)
  case (Suc n)
  obtain x t where al: "alloc_page s = (x, t)" by fastforce
  show ?case
  proof (cases rule: alloc_page_cases [OF Suc.prems(1) al])
    case 1
    with Suc.prems show ?thesis by simp
  next
    case 2
    with Suc.prems Suc.IH [of t] al show ?thesis by simp
  qed
qed simp

text \<open>
  The page-frame range contains the kernel heap: started below the heap's base, the
  frame allocator reaches it, and after exactly the frames below it the next \<open>alloc_page\<close>
  returns the first page of the heap that \<open>init_heap\<close> reserves for Rust's allocator.
\<close>

theorem page_frames_overlap_heap:
  assumes "unat (page_align_up kernel_end) \<le> 0x86000000" "unat kernel_end + 4095 < 2 ^ 64"
  shows "\<exists>n. let s = alloc_page_n n (init_heap (mm_init kernel_end s0)) in
     fst (alloc_page s) = Some (hp_current (heap_alloc s)) \<and>
     hp_current (heap_alloc s) + 4096 \<le> hp_end (heap_alloc s)"
proof -
  let ?s = "init_heap (mm_init kernel_end s0)"
  define n where "n = (0x86000000 - unat (page_align_up kernel_end)) div 4096"
  have al: "unat (page_align_up kernel_end) = (unat kernel_end + 4095) div 4096 * 4096"
    by (rule unat_page_align_up [OF assms(2)])
  have n: "unat (page_align_up kernel_end) + 4096 * n = 0x86000000"
  proof -
    have "4096 dvd (0x86000000 - unat (page_align_up kernel_end))"
      unfolding al by (intro dvd_diff_nat) simp_all
    with assms(1) show ?thesis
      by (simp add: n_def)
  qed
  have ok: "frames_ok ?s"
    using assms(1) al
    by (simp add: frames_ok_def init_heap_def mm_init_def word_le_nat_alt)
  let ?t = "alloc_page_n n ?s"
  have t: "heap_alloc ?t = heap_alloc ?s" "pg_end (page_alloc ?t) = 0x88000000"
    "unat (pg_current (page_alloc ?t)) = 0x86000000"
    using alloc_page_n_frontier [OF ok, of n] n by (simp_all add: init_heap_def mm_init_def)
  then have "pg_current (page_alloc ?t) = 0x86000000"
    by (intro word_eq_unatI) simp
  with t show ?thesis
    by (intro exI [of _ n]) (simp add: alloc_page_def init_heap_def Let_def)
qed

theorem page_frames_overlap_heap_witness:
  "\<exists>n. let s = alloc_page_n n (init_heap (mm_init 0x80345678 demo_mm)) in
     fst (alloc_page s) = Some (hp_current (heap_alloc s)) \<and>
     hp_current (heap_alloc s) + 4096 \<le> hp_end (heap_alloc s)"
  by (rule page_frames_overlap_heap) (simp_all add: page_align_up_def)

text \<open>
  The size of a request is computed modulo \<open>2 ^ 64\<close>: asked for \<open>2 ^ 52\<close> pages, more than there is
  memory, the allocator answers with an address and reserves nothing.
\<close>

theorem alloc_pages_wraps:
  assumes "frames_ok s"
  shows "alloc_pages s 0x10000000000000 = (Some (pg_current (page_alloc s)), s)"
proof -
  have "0x10000000000000 * 4096 = (0 :: usize)"
    by (rule word_eq_unatI) (simp only: unat_word_ariths, simp)
  then show ?thesis
    using assms unfolding alloc_pages_def Let_def by (simp only:) (simp add: frames_ok_def write_bytes_def)
qed

end
