(* ===== verification/Page_Table.thy ===== *)
theory Page_Table
  imports Frame_Alloc
begin

text \<open>
  SV39 page tables of \<^verbatim>\<open>src/src/mm.rs\<close>: page-table entries, the three-level walk, \<open>map\<close>,
  \<open>unmap\<close> and \<open>translate\<close>.  Tables live in byte memory, so the model reads and writes
  entries with the same address arithmetic as the code.  The abstraction is the function
  \<open>pt_lookup\<close> from the three index digits of a virtual page to its leaf entry; the
  invariant \<open>pt_inv\<close> says that the tables reached from the root form a tree of allocated
  frames.
\<close>

section \<open>Entries and flags\<close>

type_synonym pte_flags = usize

definition PTE_V :: pte_flags where "PTE_V = push_bit 0 1"
definition PTE_R :: pte_flags where "PTE_R = push_bit 1 1"
definition PTE_W :: pte_flags where "PTE_W = push_bit 2 1"
definition PTE_X :: pte_flags where "PTE_X = push_bit 3 1"
definition PTE_U :: pte_flags where "PTE_U = push_bit 4 1"
definition PTE_G :: pte_flags where "PTE_G = push_bit 5 1"
definition PTE_A :: pte_flags where "PTE_A = push_bit 6 1"
definition PTE_D :: pte_flags where "PTE_D = push_bit 7 1"

lemmas pte_flag_defs = PTE_V_def PTE_R_def PTE_W_def PTE_X_def PTE_U_def PTE_G_def PTE_A_def PTE_D_def

definition all_pte_flags :: pte_flags where
  "all_pte_flags = PTE_V OR PTE_R OR PTE_W OR PTE_X OR PTE_U OR PTE_G OR PTE_A OR PTE_D"

definition flags_contain :: "pte_flags \<Rightarrow> pte_flags \<Rightarrow> bool" where
  "flags_contain f g \<longleftrightarrow> f AND g = g"

definition pte_new :: "usize \<Rightarrow> pte_flags \<Rightarrow> usize" where
  "pte_new ppn flags = push_bit 10 ppn OR flags"

definition pte_empty :: usize where
  "pte_empty = 0"

definition pte_ppn :: "usize \<Rightarrow> usize" where
  "pte_ppn bits = drop_bit 10 bits"

definition pte_flags_of :: "usize \<Rightarrow> pte_flags" where
  "pte_flags_of bits = bits AND all_pte_flags"

definition pte_is_valid :: "usize \<Rightarrow> bool" where
  "pte_is_valid bits \<longleftrightarrow> flags_contain (pte_flags_of bits) PTE_V"

section \<open>Tables and walks\<close>

record page_table =
  root_ppn :: usize

definition pt_from_ppn :: "usize \<Rightarrow> page_table" where
  "pt_from_ppn ppn = \<lparr>root_ppn = ppn\<rparr>"

definition page_table_new :: "mm_state \<Rightarrow> page_table option \<times> mm_state" where
  "page_table_new s =
     (case alloc_page s of
        (None, s') \<Rightarrow> (None, s')
      | (Some root, s') \<Rightarrow>
          (Some \<lparr>root_ppn = drop_bit 12 root\<rparr>, s'\<lparr>ram := write_bytes (ram s') root 0 4096\<rparr>))"

definition vpn_indices :: "usize \<Rightarrow> usize list" where
  "vpn_indices vpn = [drop_bit 18 vpn AND 0x1ff, drop_bit 9 vpn AND 0x1ff, vpn AND 0x1ff]"

text \<open>One round of the loop of \<^verbatim>\<open>find_pte_create\<close> above the last level.\<close>

definition pte_descend :: "mm_state \<Rightarrow> usize \<Rightarrow> usize \<Rightarrow> usize option \<times> mm_state" where
  "pte_descend s ppn i =
     (let pte = slot ppn i in
      if \<not> pte_is_valid (load_u64 (ram s) pte) then
        (case alloc_page s of
           (None, s') \<Rightarrow> (None, s')
         | (Some page, s') \<Rightarrow>
             (let m = write_bytes (ram s') page 0 4096;
                  m = store_u64 m pte (pte_new (drop_bit 12 page) PTE_V)
              in (Some (pte_ppn (load_u64 m pte)), s'\<lparr>ram := m\<rparr>)))
      else (Some (pte_ppn (load_u64 (ram s) pte)), s))"

fun walk_create :: "mm_state \<Rightarrow> usize \<Rightarrow> usize list \<Rightarrow> usize option \<times> mm_state" where
  "walk_create s ppn [] = (None, s)"
| "walk_create s ppn [i] = (Some (slot ppn i), s)"
| "walk_create s ppn (i # is) =
     (case pte_descend s ppn i of
        (None, s') \<Rightarrow> (None, s')
      | (Some ppn', s') \<Rightarrow> walk_create s' ppn' is)"

definition find_pte_create :: "mm_state \<Rightarrow> page_table \<Rightarrow> usize \<Rightarrow> usize option \<times> mm_state" where
  "find_pte_create s pt vpn = walk_create s (root_ppn pt) (vpn_indices vpn)"

definition pt_map :: "mm_state \<Rightarrow> page_table \<Rightarrow> usize \<Rightarrow> usize \<Rightarrow> pte_flags \<Rightarrow> mm_state res" where
  "pt_map s pt va pa flags =
     (let vpn = drop_bit 12 va; ppn = drop_bit 12 pa in
      case find_pte_create s pt vpn of
        (None, s') \<Rightarrow> Inl (Panic ''out of memory mapping page'')
      | (Some pte, s') \<Rightarrow>
          if pte_is_valid (load_u64 (ram s') pte) then Inl (Panic ''remap'')
          else Inr (s'\<lparr>ram := store_u64 (ram s') pte
                          (pte_new ppn (flags OR PTE_V OR PTE_A OR PTE_D))\<rparr>))"

fun walk_find :: "memory \<Rightarrow> usize \<Rightarrow> usize list \<Rightarrow> usize option" where
  "walk_find m ppn [] = None"
| "walk_find m ppn [i] = (if pte_is_valid (load_u64 m (slot ppn i)) then Some (slot ppn i) else None)"
| "walk_find m ppn (i # is) =
     (if \<not> pte_is_valid (load_u64 m (slot ppn i)) then None
      else walk_find m (pte_ppn (load_u64 m (slot ppn i))) is)"

definition find_pte :: "memory \<Rightarrow> page_table \<Rightarrow> usize \<Rightarrow> usize option" where
  "find_pte m pt vpn = walk_find m (root_ppn pt) (vpn_indices vpn)"

definition pt_unmap :: "mm_state \<Rightarrow> page_table \<Rightarrow> usize \<Rightarrow> mm_state" where
  "pt_unmap s pt va =
     (case find_pte (ram s) pt (drop_bit 12 va) of
        None \<Rightarrow> s
      | Some pte \<Rightarrow> s\<lparr>ram := store_u64 (ram s) pte pte_empty\<rparr>)"

definition pt_translate :: "memory \<Rightarrow> page_table \<Rightarrow> usize \<Rightarrow> usize option" where
  "pt_translate m pt va =
     (let vpn = drop_bit 12 va; offset = va AND (4096 - 1) in
      map_option (\<lambda>pte. push_bit 12 (pte_ppn (load_u64 m pte)) OR offset) (find_pte m pt vpn))"

text \<open>The lines that \<^verbatim>\<open>dump_pte\<close> logs: one for each entry on the way, up to the first invalid one.\<close>

record pte_line =
  dl_level :: nat
  dl_idx :: usize
  dl_addr :: usize
  dl_bits :: usize
  dl_valid :: bool

fun dump_walk :: "memory \<Rightarrow> usize \<Rightarrow> nat \<Rightarrow> usize list \<Rightarrow> pte_line list" where
  "dump_walk m ppn level [] = []"
| "dump_walk m ppn level (i # is) =
     (let pte_addr = push_bit 12 ppn + i * 8; bits = load_u64 m pte_addr;
          line = \<lparr>dl_level = level, dl_idx = i, dl_addr = pte_addr, dl_bits = bits, dl_valid = pte_is_valid bits\<rparr>
      in if level = 2 \<or> \<not> pte_is_valid bits then [line] else line # dump_walk m (pte_ppn bits) (level + 1) is)"

definition dump_pte :: "memory \<Rightarrow> page_table \<Rightarrow> usize \<Rightarrow> pte_line list" where
  "dump_pte m pt va = dump_walk m (root_ppn pt) 0 (vpn_indices (drop_bit 12 va))"

text \<open>The dump ends in a valid entry of the last level exactly for addresses that are translated.\<close>

lemma dump_pte_translate:
  "pt_translate m pt va \<noteq> None \<longleftrightarrow> dl_level (last (dump_pte m pt va)) = 2 \<and> dl_valid (last (dump_pte m pt va))"
  by (simp add: pt_translate_def find_pte_def dump_pte_def vpn_indices_def slot_def Let_def)

section \<open>The tree of tables\<close>

definition pt_child :: "memory \<Rightarrow> usize \<Rightarrow> usize \<Rightarrow> usize option" where
  "pt_child m p i =
     (if pte_is_valid (load_u64 m (slot p i)) then Some (pte_ppn (load_u64 m (slot p i))) else None)"

fun pt_node :: "memory \<Rightarrow> usize \<Rightarrow> usize list \<Rightarrow> usize option" where
  "pt_node m p [] = Some p"
| "pt_node m p (i # is) = (case pt_child m p i of None \<Rightarrow> None | Some q \<Rightarrow> pt_node m q is)"

definition pt_paths :: "usize list set" where
  "pt_paths = {is. length is \<le> 2 \<and> (\<forall>i \<in> set is. i < 512)}"

definition pt_tables :: "memory \<Rightarrow> usize \<Rightarrow> usize set" where
  "pt_tables m r = {p. \<exists>is \<in> pt_paths. pt_node m r is = Some p}"

definition tree_wf :: "memory \<Rightarrow> usize \<Rightarrow> bool" where
  "tree_wf m r \<longleftrightarrow>
     (\<forall>p \<in> pt_tables m r. frame_ok p) \<and>
     (\<forall>is \<in> pt_paths. \<forall>js \<in> pt_paths. \<forall>p. pt_node m r is = Some p \<longrightarrow> pt_node m r js = Some p \<longrightarrow> is = js)"

definition allocated :: "mm_state \<Rightarrow> usize \<Rightarrow> bool" where
  "allocated s p \<longleftrightarrow> unat p < unat (pg_current (page_alloc s)) div 4096"

definition pt_inv :: "mm_state \<Rightarrow> usize \<Rightarrow> bool" where
  "pt_inv s r \<longleftrightarrow> frames_ok s \<and> tree_wf (ram s) r \<and> (\<forall>p \<in> pt_tables (ram s) r. allocated s p)"

definition pt_lookup :: "memory \<Rightarrow> usize \<Rightarrow> usize list \<Rightarrow> usize option" where
  "pt_lookup m r is = map_option (load_u64 m) (walk_find m r is)"

lemma pte_is_valid_bit: "pte_is_valid e \<longleftrightarrow> bit e 0"
proof -
  have "pte_is_valid e \<longleftrightarrow> e AND 1 = 1"
    by (simp add: pte_is_valid_def flags_contain_def pte_flags_of_def all_pte_flags_def
        pte_flag_defs and.assoc)
  also have "\<dots> \<longleftrightarrow> bit e 0"
    by (simp add: and_one_eq odd_iff_mod_2_eq_one bit_0 flip: mod2_eq_if)
  finally show ?thesis .
qed

lemma pte_ppn_new:
  assumes "unat ppn < 2 ^ 54" "flags < 1024"
  shows "pte_ppn (pte_new ppn flags) = ppn"
proof (rule bit_word_eqI)
  fix n assume n: "n < LENGTH(64)"
  have "\<not> bit flags (n + 10)"
    using assms(2) by (intro not_bit_less_two_power [where k = 10]) simp_all
  moreover have "ppn < 2 ^ 54"
    using assms(1) by (simp add: word_less_nat_alt)
  then have "bit ppn n \<longrightarrow> n < 54"
    using not_bit_less_two_power [of ppn 54 n] by force
  ultimately show "bit (pte_ppn (pte_new ppn flags)) n = bit ppn n"
    using n by (auto simp: pte_ppn_def pte_new_def bit_simps add.commute)
qed

lemma pte_valid_new:
  "pte_is_valid (pte_new ppn flags) \<longleftrightarrow> bit flags 0"
  by (simp add: pte_is_valid_bit pte_new_def bit_simps)

lemma pte_valid_zero [simp]: "\<not> pte_is_valid 0"
  by (simp add: pte_is_valid_bit)

section \<open>Walks and the tree\<close>

lemma pt_node_snoc:
  "pt_node m r (is @ [i]) = (case pt_node m r is of None \<Rightarrow> None | Some p \<Rightarrow> pt_child m p i)"
  by (induction "is" arbitrary: r) (auto split: option.splits)

lemma pt_paths_snoc: "is @ [i] \<in> pt_paths \<Longrightarrow> is \<in> pt_paths"
  by (auto simp: pt_paths_def)

lemma pt_tablesI: "pt_node m r is = Some p \<Longrightarrow> is \<in> pt_paths \<Longrightarrow> p \<in> pt_tables m r"
  by (auto simp: pt_tables_def)

lemma root_in_tables: "r \<in> pt_tables m r"
  by (rule pt_tablesI [of _ _ "[]"]) (simp_all add: pt_paths_def)

lemma tree_wf_inj:
  "tree_wf m r \<Longrightarrow> is \<in> pt_paths \<Longrightarrow> js \<in> pt_paths \<Longrightarrow>
   pt_node m r is = Some p \<Longrightarrow> pt_node m r js = Some p \<Longrightarrow> is = js"
  unfolding tree_wf_def by blast

lemma tree_wf_frame: "tree_wf m r \<Longrightarrow> p \<in> pt_tables m r \<Longrightarrow> frame_ok p"
  unfolding tree_wf_def by blast

lemma walk_find_node:
  "walk_find m r [i, j, k] =
     (case pt_node m r [i, j] of
        None \<Rightarrow> None
      | Some q \<Rightarrow> if pte_is_valid (load_u64 m (slot q k)) then Some (slot q k) else None)"
  by (auto simp: pt_child_def)

declare pt_node.simps(2) [simp del]

lemma pt_lookup_node:
  "pt_lookup m r [i, j, k] =
     (case pt_node m r [i, j] of
        None \<Rightarrow> None
      | Some q \<Rightarrow> if pte_is_valid (load_u64 m (slot q k)) then Some (load_u64 m (slot q k)) else None)"
  by (simp only: pt_lookup_def walk_find_node) (simp split: option.splits)

text \<open>The three index digits of a virtual page number.\<close>

lemma and_511_less: "(x::usize) AND 0x1ff < 512"
proof -
  have "x AND mask 9 < 2 ^ 9"
    by (rule and_mask_less_size) (simp add: word_size)
  then show ?thesis
    by (simp add: mask_eq_exp_minus_1)
qed

lemma vpn_indices_less: "i \<in> set (vpn_indices vpn) \<Longrightarrow> i < 512"
  by (auto simp: vpn_indices_def and_511_less)

lemma vpn_indices_cases:
  obtains i j k where "vpn_indices vpn = [i, j, k]" "i < 512" "j < 512" "k < 512"
  using and_511_less by (auto simp: vpn_indices_def)

text \<open>Memory that agrees on the tables has the same tree and the same mappings.\<close>

lemma pt_child_cong:
  assumes "frame_ok p" "i < 512" "\<And>a. drop_bit 12 a = p \<Longrightarrow> m' a = m a"
  shows "pt_child m' p i = pt_child m p i"
  using load_u64_slot_cong [of p i m' m] assms by (simp add: pt_child_def)

lemma pt_node_cong:
  assumes "tree_wf m r" "\<And>a. drop_bit 12 a \<in> pt_tables m r \<Longrightarrow> m' a = m a" "is \<in> pt_paths"
  shows "pt_node m' r is = pt_node m r is"
  using assms(3)
proof (induction "is" rule: rev_induct)
  case (snoc i "is")
  then have IH: "pt_node m' r is = pt_node m r is" and i: "i < 512"
    by (auto dest: pt_paths_snoc simp: pt_paths_def)
  show ?case
  proof (cases "pt_node m r is")
    case (Some p)
    then have p: "p \<in> pt_tables m r"
      using snoc.prems by (auto dest: pt_paths_snoc intro: pt_tablesI)
    then show ?thesis
      using IH Some pt_child_cong [of p i m' m] i tree_wf_frame [OF assms(1) p] assms(2)
      by (simp add: pt_node_snoc)
  qed (simp add: IH pt_node_snoc)
qed simp

lemma pt_tables_cong:
  assumes "tree_wf m r" "\<And>a. drop_bit 12 a \<in> pt_tables m r \<Longrightarrow> m' a = m a"
  shows "pt_tables m' r = pt_tables m r"
  using pt_node_cong [OF assms] by (auto simp: pt_tables_def)

lemma tree_wf_cong:
  assumes "tree_wf m r" "\<And>a. drop_bit 12 a \<in> pt_tables m r \<Longrightarrow> m' a = m a"
  shows "tree_wf m' r"
  using assms(1) pt_node_cong [OF assms] pt_tables_cong [OF assms] by (simp add: tree_wf_def)

lemma pt_lookup_cong:
  assumes "tree_wf m r" "\<And>a. drop_bit 12 a \<in> pt_tables m r \<Longrightarrow> m' a = m a"
    "i < 512" "j < 512" "k < 512"
  shows "pt_lookup m' r [i, j, k] = pt_lookup m r [i, j, k]"
proof -
  have path: "[i, j] \<in> pt_paths"
    using assms by (simp add: pt_paths_def)
  then have node: "pt_node m' r [i, j] = pt_node m r [i, j]"
    using pt_node_cong [of m r m' "[i, j]"] assms(1,2) by blast
  show ?thesis
  proof (cases "pt_node m r [i, j]")
    case (Some q)
    then have "q \<in> pt_tables m r"
      using path by (rule pt_tablesI)
    then have "load_u64 m' (slot q k) = load_u64 m (slot q k)"
      using assms tree_wf_frame [OF assms(1)] by (intro load_u64_slot_cong) auto
    with node Some show ?thesis
      by (simp only: pt_lookup_node) simp
  qed (simp only: pt_lookup_node node, simp)
qed

section \<open>Growing the tree\<close>

definition grow_table :: "memory \<Rightarrow> usize \<Rightarrow> usize \<Rightarrow> usize \<Rightarrow> memory" where
  "grow_table m p i f = store_u64 (write_bytes m (push_bit 12 f) 0 4096) (slot p i) (pte_new f PTE_V)"

lemma frame_ok_54: "frame_ok f \<Longrightarrow> unat f < 2 ^ 54"
  by (simp add: frame_ok_def)

lemma pt_child_grow:
  assumes "frame_ok p" "frame_ok f" "frame_ok q" "i < 512" "j < 512" "p \<noteq> f"
  shows "pt_child (grow_table m p i f) q j =
     (if q = p \<and> j = i then Some f else if q = f then None else pt_child m q j)"
proof -
  have "pte_is_valid (pte_new f PTE_V)" "pte_ppn (pte_new f PTE_V) = f"
    using frame_ok_54 [OF assms(2)] by (simp_all add: pte_valid_new pte_ppn_new PTE_V_def)
  then show ?thesis
    using assms by (auto simp: pt_child_def grow_table_def mem_simps)
qed

lemma grow_outside:
  assumes "frame_ok p" "frame_ok f" "i < 512" "drop_bit 12 a \<noteq> p" "drop_bit 12 a \<noteq> f"
  shows "grow_table m p i f a = m a"
  using assms by (simp add: grow_table_def store_u64_slot_outside write_bytes_page)

lemma pt_node_grow:
  assumes wf: "tree_wf m r" and pth: "is \<in> pt_paths" "length is \<le> 1" "pt_node m r is = Some p"
    and i: "i < 512" "pt_child m p i = None"
    and f: "frame_ok f" "f \<notin> pt_tables m r"
    and js: "js \<in> pt_paths"
  shows "pt_node (grow_table m p i f) r js = (if js = is @ [i] then Some f else pt_node m r js)"
  using js
proof (induction js rule: rev_induct)
  case Nil
  then show ?case by simp
next
  case (snoc j js)
  have p: "p \<in> pt_tables m r" "frame_ok p"
    using pth wf by (auto intro: pt_tablesI tree_wf_frame)
  then have pf: "p \<noteq> f" using f by auto
  have js: "js \<in> pt_paths" and j: "j < 512"
    using snoc.prems by (auto dest: pt_paths_snoc simp: pt_paths_def)
  note IH = snoc.IH [OF js]
  show ?case
  proof (cases "js = is @ [i]")
    case True
    have "pt_child (grow_table m p i f) f j = None"
      using pt_child_grow [of p f f i j m] p f i j pf by simp
    moreover have "pt_node m r (js @ [j]) = None"
      using pth(3) i(2) True by (simp add: pt_node_snoc del: append_assoc)
    ultimately show ?thesis
      using True IH by (simp add: pt_node_snoc del: append_assoc)
  next
    case False
    show ?thesis
    proof (cases "pt_node m r js")
      case None
      moreover have "js \<noteq> is" using None pth(3) by auto
      ultimately show ?thesis
        using False IH by (simp add: pt_node_snoc)
    next
      case (Some q)
      then have q: "q \<in> pt_tables m r" "frame_ok q" "q \<noteq> f"
        using js wf f by (auto intro: pt_tablesI tree_wf_frame)
      have "q = p \<longleftrightarrow> js = is"
        using tree_wf_inj [OF wf js pth(1)] Some pth(3) by auto
      then show ?thesis
        using False IH Some pt_child_grow [of p f q i j m] p q f i j pf by (simp add: pt_node_snoc)
    qed
  qed
qed

lemma tables_grow:
  assumes "tree_wf m r" "is \<in> pt_paths" "length is \<le> 1" "pt_node m r is = Some p"
    "i < 512" "pt_child m p i = None" "frame_ok f" "f \<notin> pt_tables m r"
  shows "pt_tables (grow_table m p i f) r = insert f (pt_tables m r)"
proof -
  note node = pt_node_grow [OF assms]
  have new: "is @ [i] \<in> pt_paths"
    using assms by (auto simp: pt_paths_def)
  have old: "pt_node m r (is @ [i]) = None"
    using assms by (simp add: pt_node_snoc)
  show ?thesis
  proof (intro equalityI subsetI)
    fix q assume "q \<in> pt_tables (grow_table m p i f) r"
    then show "q \<in> insert f (pt_tables m r)"
      using node by (auto simp: pt_tables_def split: if_splits)
  next
    fix q assume "q \<in> insert f (pt_tables m r)"
    then consider "q = f" | js where "js \<in> pt_paths" "pt_node m r js = Some q"
      by (auto simp: pt_tables_def)
    then show "q \<in> pt_tables (grow_table m p i f) r"
    proof cases
      case 1
      with node [OF new] new show ?thesis by (auto intro: pt_tablesI)
    next
      case 2
      with old have "js \<noteq> is @ [i]" by auto
      with 2 node [OF 2(1)] show ?thesis by (auto intro: pt_tablesI)
    qed
  qed
qed

lemma tree_wf_grow:
  assumes "tree_wf m r" "is \<in> pt_paths" "length is \<le> 1" "pt_node m r is = Some p"
    "i < 512" "pt_child m p i = None" "frame_ok f" "f \<notin> pt_tables m r"
  shows "tree_wf (grow_table m p i f) r"
proof -
  note node = pt_node_grow [OF assms]
  have "frame_ok q" if "q \<in> pt_tables (grow_table m p i f) r" for q
    using that assms tree_wf_frame [OF assms(1)] by (auto simp: tables_grow [OF assms])
  moreover have "js = ks" if "js \<in> pt_paths" "ks \<in> pt_paths"
    "pt_node (grow_table m p i f) r js = Some q" "pt_node (grow_table m p i f) r ks = Some q"
    for js ks q
    using that node [of js] node [of ks] assms(8) tree_wf_inj [OF assms(1), of js ks q]
    by (auto split: if_splits intro: pt_tablesI)
  ultimately show ?thesis
    unfolding tree_wf_def by blast
qed

lemma pt_lookup_grow:
  assumes "tree_wf m r" "is \<in> pt_paths" "length is \<le> 1" "pt_node m r is = Some p"
    "i < 512" "pt_child m p i = None" "frame_ok f" "f \<notin> pt_tables m r"
    "a < 512" "b < 512" "c < 512"
  shows "pt_lookup (grow_table m p i f) r [a, b, c] = pt_lookup m r [a, b, c]"
proof -
  note node = pt_node_grow [OF assms(1-8)]
  have ab: "[a, b] \<in> pt_paths" using assms by (simp add: pt_paths_def)
  have p: "p \<in> pt_tables m r" "frame_ok p" "p \<noteq> f"
    using assms by (auto intro: pt_tablesI tree_wf_frame)
  show ?thesis
  proof (cases "[a, b] = is @ [i]")
    case True
    have "load_u64 (grow_table m p i f) (slot f c) = 0"
      using p assms by (simp add: grow_table_def mem_simps)
    moreover have "pt_node m r [a, b] = None"
      using assms(4,6) unfolding True by (simp add: pt_node_snoc)
    ultimately show ?thesis
      using node [OF ab] True by (simp only: pt_lookup_node) simp
  next
    case False
    show ?thesis
    proof (cases "pt_node m r [a, b]")
      case None
      then show ?thesis
        using node [OF ab] False by (simp only: pt_lookup_node) simp
    next
      case (Some q)
      then have q: "q \<in> pt_tables m r" "frame_ok q" "q \<noteq> f"
        using ab assms by (auto intro: pt_tablesI tree_wf_frame)
      have "q \<noteq> p"
        using tree_wf_inj [OF assms(1) ab assms(2)] Some assms(3,4) by auto
      then have "load_u64 (grow_table m p i f) (slot q c) = load_u64 m (slot q c)"
        using p q assms by (simp add: grow_table_def mem_simps)
      then show ?thesis
        using node [OF ab] False Some by (simp only: pt_lookup_node) simp
    qed
  qed
qed

section \<open>The frontier frame\<close>

definition frontier_frame :: "mm_state \<Rightarrow> usize" where
  "frontier_frame s = drop_bit 12 (pg_current (page_alloc s))"

lemma frontier_frame:
  assumes "frames_ok s"
  shows "push_bit 12 (frontier_frame s) = pg_current (page_alloc s)"
    "frame_ok (frontier_frame s)" "\<not> allocated s (frontier_frame s)"
    "4096 * unat (frontier_frame s) = unat (pg_current (page_alloc s))"
proof -
  let ?c = "pg_current (page_alloc s)"
  have u: "unat (frontier_frame s) = unat ?c div 4096"
    by (simp add: frontier_frame_def unat_drop_bit_12)
  show ok: "frame_ok (frontier_frame s)"
    using unat_lt_2_64 [of ?c] by (simp add: frame_ok_def u)
  have "unat ?c mod 4096 = 0"
    using assms by (simp add: frames_ok_def)
  then show c: "4096 * unat (frontier_frame s) = unat ?c"
    unfolding u by (metis add.right_neutral mult_div_mod_eq)
  then show "push_bit 12 (frontier_frame s) = ?c"
    using ok by (intro word_eq_unatI) (simp add: unat_push_bit_12 frame_ok_def)
  show "\<not> allocated s (frontier_frame s)"
    by (simp add: allocated_def u)
qed

lemma allocated_iff: "frames_ok s \<Longrightarrow> allocated s p \<longleftrightarrow> unat p < unat (frontier_frame s)"
  by (simp add: allocated_def frontier_frame_def unat_drop_bit_12)

lemma allocated_frame_ok: "allocated s p \<Longrightarrow> frame_ok p"
  using unat_lt_2_64 [of "pg_current (page_alloc s)"] by (simp add: allocated_def frame_ok_def)

text \<open>
  What building a page table may change: nodes are only added, at fresh frames, and no
  allocated byte outside the tables is written.  \<open>pt_extends\<close> adds that no mapping
  changed.
\<close>

definition pt_evolves :: "usize \<Rightarrow> mm_state \<Rightarrow> mm_state \<Rightarrow> bool" where
  "pt_evolves r s s' \<longleftrightarrow>
     pt_inv s' r \<and>
     (\<forall>is \<in> pt_paths. \<forall>p. pt_node (ram s) r is = Some p \<longrightarrow> pt_node (ram s') r is = Some p) \<and>
     pg_current (page_alloc s) \<le> pg_current (page_alloc s') \<and>
     heap_alloc s' = heap_alloc s \<and> kernel_page_table s' = kernel_page_table s \<and>
     pg_end (page_alloc s') = pg_end (page_alloc s) \<and>
     (\<forall>a. allocated s (drop_bit 12 a) \<longrightarrow> drop_bit 12 a \<notin> pt_tables (ram s) r \<longrightarrow> ram s' a = ram s a) \<and>
     (\<forall>p \<in> pt_tables (ram s') r. p \<in> pt_tables (ram s) r \<or> \<not> allocated s p) \<and>
     (\<forall>a. \<not> allocated s' (drop_bit 12 a) \<longrightarrow> ram s' a = ram s a)"

definition pt_extends :: "usize \<Rightarrow> mm_state \<Rightarrow> mm_state \<Rightarrow> bool" where
  "pt_extends r s s' \<longleftrightarrow> pt_evolves r s s' \<and>
     (\<forall>i j k. i < 512 \<longrightarrow> j < 512 \<longrightarrow> k < 512 \<longrightarrow>
        pt_lookup (ram s') r [i, j, k] = pt_lookup (ram s) r [i, j, k])"

lemma pt_evolves_inv: "pt_evolves r s s' \<Longrightarrow> pt_inv s' r"
  by (simp add: pt_evolves_def)

lemma pt_evolves_refl: "pt_inv s r \<Longrightarrow> pt_evolves r s s"
  by (simp add: pt_evolves_def)

lemma pt_extends_refl: "pt_inv s r \<Longrightarrow> pt_extends r s s"
  by (simp add: pt_extends_def pt_evolves_refl)

lemma allocated_mono:
  "pg_current (page_alloc s) \<le> pg_current (page_alloc s') \<Longrightarrow> allocated s p \<Longrightarrow> allocated s' p"
  by (auto simp: allocated_def word_le_nat_alt intro: less_le_trans div_le_mono)

lemma pt_evolves_allocated: "pt_evolves r s s' \<Longrightarrow> allocated s p \<Longrightarrow> allocated s' p"
  by (auto simp: pt_evolves_def intro: allocated_mono)

lemma pt_evolves_frame:
  "pt_evolves r s s' \<Longrightarrow> allocated s (drop_bit 12 a) \<Longrightarrow> drop_bit 12 a \<notin> pt_tables (ram s) r \<Longrightarrow>
   ram s' a = ram s a"
  by (simp add: pt_evolves_def)

lemma pt_evolves_tables:
  "pt_evolves r s s' \<Longrightarrow> p \<in> pt_tables (ram s') r \<Longrightarrow> allocated s p \<Longrightarrow> p \<in> pt_tables (ram s) r"
  by (auto simp: pt_evolves_def)

lemma pt_evolves_beyond:
  "pt_evolves r s s' \<Longrightarrow> \<not> allocated s' (drop_bit 12 a) \<Longrightarrow> ram s' a = ram s a"
  by (simp add: pt_evolves_def)

lemma pt_evolves_trans:
  assumes "pt_evolves r s t" "pt_evolves r t u"
  shows "pt_evolves r s u"
proof -
  have "ram u a = ram s a"
    if "allocated s (drop_bit 12 a)" "drop_bit 12 a \<notin> pt_tables (ram s) r" for a
    using that pt_evolves_frame [OF assms(1)] pt_evolves_frame [OF assms(2)]
      pt_evolves_tables [OF assms(1)] pt_evolves_allocated [OF assms(1)] by metis
  moreover have "p \<in> pt_tables (ram s) r" if "p \<in> pt_tables (ram u) r" "allocated s p" for p
    using that assms by (meson pt_evolves_tables pt_evolves_allocated)
  moreover have "ram u a = ram s a" if "\<not> allocated u (drop_bit 12 a)" for a
    using that pt_evolves_beyond [OF assms(1)] pt_evolves_beyond [OF assms(2)]
      pt_evolves_allocated [OF assms(2)] by metis
  ultimately show ?thesis
    using assms unfolding pt_evolves_def by (auto intro: order.trans)
qed

lemma pt_extends_trans: "pt_extends r s t \<Longrightarrow> pt_extends r t u \<Longrightarrow> pt_extends r s u"
  by (auto simp: pt_extends_def intro: pt_evolves_trans)

text \<open>Another page table, on other frames, does not notice.\<close>

lemma pt_evolves_other:
  assumes ev: "pt_evolves r s s'" and inv: "pt_inv s r'"
    and disj: "pt_tables (ram s) r' \<inter> pt_tables (ram s) r = {}"
  shows "pt_inv s' r'" "pt_tables (ram s') r' = pt_tables (ram s) r'"
    "pt_tables (ram s') r' \<inter> pt_tables (ram s') r = {}"
    "i < 512 \<Longrightarrow> j < 512 \<Longrightarrow> k < 512 \<Longrightarrow> pt_lookup (ram s') r' [i, j, k] = pt_lookup (ram s) r' [i, j, k]"
proof -
  have wf: "tree_wf (ram s) r'" and al: "\<And>p. p \<in> pt_tables (ram s) r' \<Longrightarrow> allocated s p"
    using inv by (auto simp: pt_inv_def)
  have agree: "\<And>a. drop_bit 12 a \<in> pt_tables (ram s) r' \<Longrightarrow> ram s' a = ram s a"
    using pt_evolves_frame [OF ev al] disj by blast
  show tabs: "pt_tables (ram s') r' = pt_tables (ram s) r'"
    by (rule pt_tables_cong [OF wf agree])
  show "pt_inv s' r'"
    using tree_wf_cong [OF wf agree] pt_evolves_inv [OF ev] al pt_evolves_allocated [OF ev]
    by (auto simp: pt_inv_def tabs)
  show "pt_tables (ram s') r' \<inter> pt_tables (ram s') r = {}"
    using tabs disj al pt_evolves_tables [OF ev] by auto
  show "i < 512 \<Longrightarrow> j < 512 \<Longrightarrow> k < 512 \<Longrightarrow>
      pt_lookup (ram s') r' [i, j, k] = pt_lookup (ram s) r' [i, j, k]"
    by (rule pt_lookup_cong [OF wf agree])
qed

lemma write_bytes_twice [simp]: "write_bytes (write_bytes m p v n) p v n = write_bytes m p v n"
  by (auto simp: write_bytes_def)

section \<open>Walks that create tables\<close>

definition missing :: "'a option \<Rightarrow> nat" where
  "missing x = (case x of None \<Rightarrow> 1 | Some _ \<Rightarrow> 0)"

lemma missing_simps [simp]: "missing None = 1" "missing (Some x) = 0"
  by (simp_all add: missing_def)

lemma pt_extends_grow:
  assumes inv: "pt_inv s r" and pth: "is \<in> pt_paths" "length is \<le> 1" "pt_node (ram s) r is = Some p"
    and i: "i < 512" "pt_child (ram s) p i = None"
    and s': "s' = s\<lparr>page_alloc := page_alloc s\<lparr>pg_current := pg_current (page_alloc s) + 4096\<rparr>,
              ram := grow_table (ram s) p i (frontier_frame s)\<rparr>"
    and cur: "unat (pg_current (page_alloc s')) = unat (pg_current (page_alloc s)) + 4096"
    and ok: "frames_ok s'"
  shows "pt_extends r s s'"
proof -
  from inv have wf: "tree_wf (ram s) r" and fok: "frames_ok s"
    and alloc: "\<And>q. q \<in> pt_tables (ram s) r \<Longrightarrow> allocated s q"
    by (auto simp: pt_inv_def)
  note f = frontier_frame [OF fok]
  have fresh: "frontier_frame s \<notin> pt_tables (ram s) r"
    using f(3) alloc by blast
  note grow = wf pth i f(2) fresh
  have p: "frame_ok p" "p \<in> pt_tables (ram s) r"
    using pth wf by (auto intro: pt_tablesI tree_wf_frame)
  have le: "pg_current (page_alloc s) \<le> pg_current (page_alloc s')"
    using cur by (simp add: word_le_nat_alt)
  have new: "allocated s' (frontier_frame s)"
    using cur f(4) by (simp add: allocated_def)
  then have "pt_inv s' r"
    using tree_wf_grow [OF grow] tables_grow [OF grow] alloc ok allocated_mono [OF le]
    by (auto simp: pt_inv_def s')
  moreover have "pt_node (ram s') r js = Some q" if "js \<in> pt_paths" "pt_node (ram s) r js = Some q" for js q
    using pt_node_grow [OF grow that(1)] that(2) pth(3) i(2) by (auto simp: s' pt_node_snoc)
  moreover have "ram s' a = ram s a"
    if "allocated s (drop_bit 12 a)" "drop_bit 12 a \<notin> pt_tables (ram s) r" for a
  proof -
    have "drop_bit 12 a \<noteq> p" "drop_bit 12 a \<noteq> frontier_frame s"
      using that p f(3) by auto
    then show ?thesis
      using grow_outside p(1) f(2) i(1) by (simp add: s')
  qed
  moreover have "ram s' a = ram s a" if "\<not> allocated s' (drop_bit 12 a)" for a
  proof -
    have "drop_bit 12 a \<noteq> p" "drop_bit 12 a \<noteq> frontier_frame s"
      using that new alloc p(2) allocated_mono [OF le] by auto
    then show ?thesis
      using grow_outside p(1) f(2) i(1) by (simp add: s')
  qed
  ultimately show ?thesis
    using pt_lookup_grow [OF grow] tables_grow [OF grow] f(3) le
    by (auto simp: pt_extends_def pt_evolves_def s')
qed

lemma pte_descend_cases:
  assumes inv: "pt_inv s r" and pth: "is \<in> pt_paths" "length is \<le> 1" "pt_node (ram s) r is = Some p"
    and i: "i < 512" and run: "pte_descend s p i = (x, s')"
  obtains (fail) "x = None" "s' = s" "pt_child (ram s) p i = None"
      "unat (pg_end (page_alloc s)) < unat (pg_current (page_alloc s)) + 4096"
  | (ok) q where "x = Some q" "pt_extends r s s'" "pt_node (ram s') r (is @ [i]) = Some q"
      "\<And>js. js \<in> pt_paths \<Longrightarrow> js \<noteq> is @ [i] \<Longrightarrow> pt_node (ram s') r js = pt_node (ram s) r js"
      "unat (pg_current (page_alloc s')) =
         unat (pg_current (page_alloc s)) + 4096 * missing (pt_node (ram s) r (is @ [i]))"
proof (cases "pt_child (ram s) p i")
  case (Some q)
  then have "x = Some q" "s' = s"
    using run by (auto simp: pte_descend_def pt_child_def Let_def split: if_splits)
  with Some inv pth show ?thesis
    by (intro ok [of q]) (auto simp: pt_extends_refl pt_node_snoc)
next
  case None
  then have inval: "\<not> pte_is_valid (load_u64 (ram s) (slot p i))"
    by (auto simp: pt_child_def split: if_splits)
  from inv have wf: "tree_wf (ram s) r" and fok: "frames_ok s"
    and alloc: "\<And>q. q \<in> pt_tables (ram s) r \<Longrightarrow> allocated s q"
    by (auto simp: pt_inv_def)
  note f = frontier_frame [OF fok]
  obtain y t where al: "alloc_page s = (y, t)" by fastforce
  show ?thesis
  proof (cases rule: alloc_page_cases [OF fok al])
    case 1
    with run inval al None show ?thesis
      by (intro fail) (auto simp: pte_descend_def Let_def)
  next
    case 2
    let ?f = "frontier_frame s"
    let ?s' = "s\<lparr>page_alloc := page_alloc s\<lparr>pg_current := pg_current (page_alloc s) + 4096\<rparr>,
              ram := grow_table (ram s) p i ?f\<rparr>"
    have fresh: "?f \<notin> pt_tables (ram s) r"
      using f(3) alloc by blast
    have ppn: "pte_ppn (pte_new ?f PTE_V) = ?f"
      using frame_ok_54 [OF f(2)] by (simp add: pte_ppn_new PTE_V_def)
    have x: "x = Some ?f" and s': "s' = ?s'"
      using run inval al 2 f(1) ppn
      by (auto simp: pte_descend_def Let_def grow_table_def frontier_frame_def)
    have "pt_extends r s s'"
      using pt_extends_grow [OF inv pth i None s'] 2 by (simp add: s' frames_ok_def)
    moreover have "is @ [i] \<in> pt_paths"
      using pth i by (auto simp: pt_paths_def)
    moreover have "pt_node (ram s) r (is @ [i]) = None"
      using pth None by (simp add: pt_node_snoc)
    ultimately show ?thesis
      using x 2(3) pt_node_grow [OF wf pth i None f(2) fresh]
      by (intro ok [of ?f]) (simp_all add: s' 2(2))
  qed
qed

lemma walk_create_cases:
  assumes inv: "pt_inv s r" and idx: "i < 512" "j < 512" "k < 512"
    and run: "walk_create s r [i, j, k] = (x, s')"
  obtains (fail) "x = None"
      "unat (pg_end (page_alloc s)) < unat (pg_current (page_alloc s)) +
         4096 * (missing (pt_node (ram s) r [i]) + missing (pt_node (ram s) r [i, j]))"
  | (ok) q where "x = Some (slot q k)" "pt_extends r s s'" "pt_node (ram s') r [i, j] = Some q"
      "\<And>js. js \<in> pt_paths \<Longrightarrow> js \<noteq> [i] \<Longrightarrow> js \<noteq> [i, j] \<Longrightarrow>
         pt_node (ram s') r js = pt_node (ram s) r js"
      "unat (pg_current (page_alloc s')) = unat (pg_current (page_alloc s)) +
         4096 * (missing (pt_node (ram s) r [i]) + missing (pt_node (ram s) r [i, j]))"
proof -
  have paths: "[] \<in> pt_paths" "[i] \<in> pt_paths" "[i, j] \<in> pt_paths"
    using idx by (simp_all add: pt_paths_def)
  have node1: "pt_node m r [i] = pt_child m r i" for m
    using pt_node_snoc [of m r "[]" i] by simp
  obtain y t where d1: "pte_descend s r i = (y, t)" by fastforce
  have root: "pt_node (ram s) r [] = Some r" by simp
  show ?thesis
  proof (cases rule: pte_descend_cases [OF inv paths(1) _ root idx(1) d1])
    case 1 then show ?case by simp
  next
    case 2
    with run d1 node1 show ?thesis
      by (intro fail) (auto simp: missing_def split: option.splits)
  next
    case (3 q1)
    then have n1: "pt_node (ram t) r [i] = Some q1" and ext1: "pt_extends r s t" by simp_all
    have inv1: "pt_inv t r" using ext1 by (simp add: pt_extends_def pt_evolves_def)
    obtain z u where d2: "pte_descend t q1 j = (z, u)" by fastforce
    have same: "pt_node (ram t) r [i, j] = pt_node (ram s) r [i, j]"
      using 3(4) [OF paths(3)] by simp
    have len: "length [i] \<le> 1" by simp
    show ?thesis
    proof (cases rule: pte_descend_cases [OF inv1 paths(2) len n1 idx(2) d2])
      case 1
      have "pt_node (ram t) r [i, j] = None"
        using pt_node_snoc [of "ram t" r "[i]" j] n1 1(3) by simp
      with 1 run d1 d2 3 same ext1 show ?thesis
        by (intro fail) (auto simp: pt_extends_def pt_evolves_def)
    next
      case (2 q)
      then have n2: "pt_node (ram u) r [i, j] = Some q" by simp
      have "x = Some (slot q k)" "s' = u"
        using run d1 d2 3 2 by auto
      moreover have "pt_extends r s u"
        using ext1 2(2) by (rule pt_extends_trans)
      moreover have "pt_node (ram u) r js = pt_node (ram s) r js"
        if "js \<in> pt_paths" "js \<noteq> [i]" "js \<noteq> [i, j]" for js
        using 2(4) [OF that(1)] 3(4) [OF that(1)] that by simp
      ultimately show ?thesis
        using n2 2(5) 3(5) same by (intro ok [of q]) simp_all
    qed
  qed
qed

lemma store_leaf:
  assumes wf: "tree_wf m r" and idx: "i < 512" "j < 512" "k < 512"
    and node: "pt_node m r [i, j] = Some q"
    and m': "m' = store_u64 m (slot q k) v"
  shows "is \<in> pt_paths \<Longrightarrow> pt_node m' r is = pt_node m r is"
    and "tree_wf m' r" "pt_tables m' r = pt_tables m r"
    and "a < 512 \<Longrightarrow> b < 512 \<Longrightarrow> c < 512 \<Longrightarrow> pt_lookup m' r [a, b, c] =
      (if [a, b, c] = [i, j, k] then (if pte_is_valid v then Some v else None)
       else pt_lookup m r [a, b, c])"
    and "drop_bit 12 x \<noteq> q \<Longrightarrow> m' x = m x"
proof -
  have ij: "[i, j] \<in> pt_paths" using idx by (simp add: pt_paths_def)
  have q: "q \<in> pt_tables m r" "frame_ok q"
    using node ij wf by (auto intro: pt_tablesI tree_wf_frame)
  show out: "m' x = m x" if "drop_bit 12 x \<noteq> q" for x
    using that q idx unfolding m' by (intro store_u64_slot_outside)
  show nodes: "pt_node m' r is = pt_node m r is" if "is \<in> pt_paths" for "is"
    using that
  proof (induction "is" rule: rev_induct)
    case (snoc l ls)
    then have ls: "ls \<in> pt_paths" "l < 512" "length ls \<le> 1"
      by (auto dest: pt_paths_snoc simp: pt_paths_def)
    show ?case
    proof (cases "pt_node m r ls")
      case None
      with snoc ls show ?thesis by (simp add: pt_node_snoc)
    next
      case (Some p)
      then have p: "frame_ok p" using ls wf by (auto intro: pt_tablesI tree_wf_frame)
      have "p \<noteq> q"
        using tree_wf_inj [OF wf ls(1) ij] Some node ls(3) by auto
      then have "pt_child m' p l = pt_child m p l"
        using p ls out by (intro pt_child_cong) auto
      with Some snoc ls show ?thesis by (simp add: pt_node_snoc)
    qed
  qed simp
  show tabs: "pt_tables m' r = pt_tables m r"
    using nodes by (auto simp: pt_tables_def)
  show "tree_wf m' r"
    using wf nodes tabs by (simp add: tree_wf_def)
  show "pt_lookup m' r [a, b, c] =
      (if [a, b, c] = [i, j, k] then (if pte_is_valid v then Some v else None)
       else pt_lookup m r [a, b, c])" if abc: "a < 512" "b < 512" "c < 512" for a b c
  proof -
    have ab: "[a, b] \<in> pt_paths" using abc by (simp add: pt_paths_def)
    show ?thesis
    proof (cases "pt_node m r [a, b]")
      case None
      with node nodes [OF ab] show ?thesis
        by (simp only: pt_lookup_node) auto
    next
      case (Some p)
      then have p: "frame_ok p" using ab wf by (auto intro: pt_tablesI tree_wf_frame)
      have "p = q \<longleftrightarrow> [a, b] = [i, j]"
        using tree_wf_inj [OF wf ab ij] Some node by auto
      moreover have "load_u64 m' (slot p c) = (if q = p \<and> k = c then v else load_u64 m (slot p c))"
        unfolding m' using p q idx abc by (simp add: mem_simps)
      ultimately show ?thesis
        using Some node nodes [OF ab] by (simp only: pt_lookup_node) auto
    qed
  qed
qed

section \<open>Mapping and unmapping\<close>

lemma pt_map_cases:
  assumes inv: "pt_inv s r" and root: "root_ppn pt = r"
    and idx: "vpn_indices (drop_bit 12 va) = [i, j, k]"
    and run: "pt_map s pt va pa flags = res"
  obtains (oom) "res = Inl (Panic ''out of memory mapping page'')"
      "unat (pg_end (page_alloc s)) < unat (pg_current (page_alloc s)) +
         4096 * (missing (pt_node (ram s) r [i]) + missing (pt_node (ram s) r [i, j]))"
  | (remap) "res = Inl (Panic ''remap'')" "pt_lookup (ram s) r [i, j, k] \<noteq> None"
  | (ok) s' where "res = Inr s'" "pt_lookup (ram s) r [i, j, k] = None" "pt_evolves r s s'"
      "\<And>a b c. a < 512 \<Longrightarrow> b < 512 \<Longrightarrow> c < 512 \<Longrightarrow> pt_lookup (ram s') r [a, b, c] =
         (if [a, b, c] = [i, j, k]
          then Some (pte_new (drop_bit 12 pa) (flags OR PTE_V OR PTE_A OR PTE_D))
          else pt_lookup (ram s) r [a, b, c])"
      "\<And>js. js \<in> pt_paths \<Longrightarrow> js \<noteq> [i] \<Longrightarrow> js \<noteq> [i, j] \<Longrightarrow>
         pt_node (ram s') r js = pt_node (ram s) r js"
      "pt_node (ram s') r [i] \<noteq> None" "pt_node (ram s') r [i, j] \<noteq> None"
      "unat (pg_current (page_alloc s')) = unat (pg_current (page_alloc s)) +
         4096 * (missing (pt_node (ram s) r [i]) + missing (pt_node (ram s) r [i, j]))"
proof -
  have lt: "i < 512" "j < 512" "k < 512"
    using vpn_indices_less [of _ "drop_bit 12 va"] idx by auto
  obtain x t where wc: "walk_create s r [i, j, k] = (x, t)" by fastforce
  show ?thesis
  proof (cases rule: walk_create_cases [OF inv lt wc])
    case 1
    with run wc idx root show ?thesis
      by (intro oom) (auto simp: pt_map_def find_pte_create_def Let_def)
  next
    case (2 q)
    then have ext: "pt_extends r s t" and node: "pt_node (ram t) r [i, j] = Some q" by simp_all
    have same: "pt_lookup (ram t) r [a, b, c] = pt_lookup (ram s) r [a, b, c]"
      if "a < 512" "b < 512" "c < 512" for a b c
      using ext that by (simp add: pt_extends_def)
    let ?e = "pte_new (drop_bit 12 pa) (flags OR PTE_V OR PTE_A OR PTE_D)"
    let ?m = "store_u64 (ram t) (slot q k) ?e"
    have res: "res = (if pte_is_valid (load_u64 (ram t) (slot q k)) then Inl (Panic ''remap'')
        else Inr (t\<lparr>ram := ?m\<rparr>))"
      using run wc idx root 2 by (auto simp: pt_map_def find_pte_create_def Let_def)
    have val: "pte_is_valid (load_u64 (ram t) (slot q k)) \<longleftrightarrow> pt_lookup (ram s) r [i, j, k] \<noteq> None"
      using node unfolding same [OF lt, symmetric] by (simp only: pt_lookup_node) simp
    show ?thesis
    proof (cases "pte_is_valid (load_u64 (ram t) (slot q k))")
      case True
      with res val show ?thesis by (intro remap) auto
    next
      case False
      have ev: "pt_evolves r s t" using ext by (simp add: pt_extends_def)
      then have wf: "tree_wf (ram t) r" and invt: "pt_inv t r"
        by (simp_all add: pt_evolves_def pt_inv_def)
      note leaf = store_leaf [OF wf lt node refl]
      have q: "q \<in> pt_tables (ram t) r"
        using node lt by (auto intro!: pt_tablesI simp: pt_paths_def)
      have "pt_inv (t\<lparr>ram := ?m\<rparr>) r"
        using invt leaf(2,3) by (simp add: pt_inv_def frames_ok_def allocated_def)
      moreover have "?m a = ram t a" if "drop_bit 12 a \<notin> pt_tables (ram t) r" for a
        using that q by (intro leaf(5)) auto
      moreover from this have "?m a = ram t a" if "\<not> allocated (t\<lparr>ram := ?m\<rparr>) (drop_bit 12 a)" for a
        using that invt by (auto simp: pt_inv_def allocated_def)
      ultimately have "pt_evolves r t (t\<lparr>ram := ?m\<rparr>)"
        using leaf(1,3) by (auto simp: pt_evolves_def)
      with ev have evo: "pt_evolves r s (t\<lparr>ram := ?m\<rparr>)"
        by (rule pt_evolves_trans)
      have valid: "pte_is_valid ?e"
        by (simp add: pte_valid_new bit_simps PTE_V_def)
      have paths: "[i] \<in> pt_paths" "[i, j] \<in> pt_paths"
        using lt by (simp_all add: pt_paths_def)
      have "pt_node (ram t) r [i] \<noteq> None"
        using node pt_node_snoc [of "ram t" r "[i]" j] by (cases "pt_node (ram t) r [i]") auto
      with False res val evo valid same lt leaf(1) leaf(4) 2 node paths show ?thesis
        by (intro ok [of "t\<lparr>ram := ?m\<rparr>"]) simp_all
    qed
  qed
qed

lemma pt_map_root: "pt_map s pt = pt_map s \<lparr>root_ppn = root_ppn pt\<rparr>"
  by (simp add: pt_map_def find_pte_create_def fun_eq_iff)

lemma pt_translate_lookup:
  "pt_translate m pt va =
     map_option (\<lambda>e. push_bit 12 (pte_ppn e) OR (va AND 4095))
       (pt_lookup m (root_ppn pt) (vpn_indices (drop_bit 12 va)))"
  by (simp add: pt_translate_def pt_lookup_def find_pte_def option.map_comp o_def)

text \<open>Two addresses lie in the same virtual page when SV39 uses the same index digits.\<close>

definition same_vpage :: "usize \<Rightarrow> usize \<Rightarrow> bool" where
  "same_vpage va va' \<longleftrightarrow> vpn_indices (drop_bit 12 va) = vpn_indices (drop_bit 12 va')"

lemma take_bit_eq_iff_bits:
  fixes x y :: usize
  assumes "n \<le> 64"
  shows "take_bit n x = take_bit n y \<longleftrightarrow> (\<forall>i < n. bit x i = bit y i)"
proof
  assume eq: "take_bit n x = take_bit n y"
  show "\<forall>i < n. bit x i = bit y i"
  proof (intro allI impI)
    fix i :: nat assume "i < n"
    then show "bit x i = bit y i"
      using arg_cong [OF eq, of "\<lambda>w. bit w i"] by (simp add: bit_simps)
  qed
qed (auto simp: bit_eq_iff bit_simps)

lemma and_511_eq_iff: "x AND 511 = y AND 511 \<longleftrightarrow> (\<forall>i < 9. bit x i = bit y i)" for x y :: usize
  using take_bit_eq_iff_bits [of 9 x y] by (simp add: take_bit_eq_mask mask_eq_exp_minus_1)

lemma vpn_indices_take_bit:
  "vpn_indices v = vpn_indices v' \<longleftrightarrow> take_bit 27 v = take_bit 27 (v' :: usize)"
proof -
  have "vpn_indices v = vpn_indices v' \<longleftrightarrow>
      (\<forall>n < 9. bit v (18 + n) = bit v' (18 + n)) \<and> (\<forall>n < 9. bit v (9 + n) = bit v' (9 + n)) \<and>
      (\<forall>n < 9. bit v n = bit v' n)"
    by (simp add: vpn_indices_def and_511_eq_iff bit_simps)
  also have "\<dots> \<longleftrightarrow> (\<forall>n < 27. bit v n = bit v' n)"
  proof (rule iffI, intro allI impI)
    fix n :: nat assume *: "(\<forall>n < 9. bit v (18 + n) = bit v' (18 + n)) \<and>
      (\<forall>n < 9. bit v (9 + n) = bit v' (9 + n)) \<and> (\<forall>n < 9. bit v n = bit v' n)" and "n < 27"
    then consider "n < 9" | "9 \<le> n" "n - 9 < 9" | "18 \<le> n" "n - 18 < 9" by linarith
    then show "bit v n = bit v' n"
      using * by cases (auto dest: spec [of _ "n - 9"] spec [of _ "n - 18"])
  qed auto
  also have "\<dots> \<longleftrightarrow> take_bit 27 v = take_bit 27 v'"
    by (simp add: take_bit_eq_iff_bits)
  finally show ?thesis .
qed

lemma same_vpage_39:
  "same_vpage va va' \<longleftrightarrow> take_bit 27 (drop_bit 12 va) = take_bit 27 (drop_bit 12 va')"
  by (simp add: same_vpage_def vpn_indices_take_bit)

lemma pte_flags_new:
  assumes "flags < 256"
  shows "pte_flags_of (pte_new ppn flags) = flags"
proof -
  have "all_pte_flags = mask 8"
    by (simp add: all_pte_flags_def pte_flag_defs mask_eq_exp_minus_1)
  moreover have "\<not> bit flags n" if "8 \<le> n" for n
    using assms that by (intro not_bit_less_two_power [where k = 8]) simp_all
  ultimately show ?thesis
    by (auto simp: bit_eq_iff bit_simps pte_flags_of_def pte_new_def not_le)
qed

lemma map_flags_less:
  assumes "flags < 256"
  shows "flags OR PTE_V OR PTE_A OR PTE_D < 256"
proof -
  have *: "PTE_V OR PTE_A OR PTE_D = 193"
    by (simp add: PTE_V_def PTE_A_def PTE_D_def)
  have "flags AND 255 = flags"
    using less_mask_eq [of flags 8] assms by (simp add: mask_eq_exp_minus_1)
  then have "(flags OR 193) AND 255 = flags OR 193"
    by (simp add: bit.conj_disj_distrib2)
  then have "flags OR 193 \<le> 255"
    by (metis word_and_le1)
  then show ?thesis
    by (simp only: or.assoc * ) (simp add: word_less_nat_alt word_le_nat_alt)
qed

lemma drop_bit_12_frame: "unat (drop_bit 12 (pa::usize)) < 2 ^ 54"
  using unat_lt_2_64 [of pa] by (simp add: unat_drop_bit_12)

lemma pt_unmap_lookup:
  assumes inv: "pt_inv s r" and root: "root_ppn pt = r"
    and idx: "vpn_indices (drop_bit 12 va) = [i, j, k]"
  shows "pt_evolves r s (pt_unmap s pt va)"
    "a < 512 \<Longrightarrow> b < 512 \<Longrightarrow> c < 512 \<Longrightarrow> pt_lookup (ram (pt_unmap s pt va)) r [a, b, c] =
       (if [a, b, c] = [i, j, k] then None else pt_lookup (ram s) r [a, b, c])"
    "page_alloc (pt_unmap s pt va) = page_alloc s"
proof -
  have lt: "i < 512" "j < 512" "k < 512"
    using vpn_indices_less [of _ "drop_bit 12 va"] idx by auto
  have wf: "tree_wf (ram s) r" using inv by (simp add: pt_inv_def)
  have "pt_evolves r s (pt_unmap s pt va) \<and> page_alloc (pt_unmap s pt va) = page_alloc s \<and>
    (\<forall>a b c. a < 512 \<longrightarrow> b < 512 \<longrightarrow> c < 512 \<longrightarrow> pt_lookup (ram (pt_unmap s pt va)) r [a, b, c] =
       (if [a, b, c] = [i, j, k] then None else pt_lookup (ram s) r [a, b, c]))"
  proof (cases "walk_find (ram s) r [i, j, k]")
    case None
    then have "pt_unmap s pt va = s" "pt_lookup (ram s) r [i, j, k] = None"
      using idx root by (simp_all add: pt_unmap_def find_pte_def pt_lookup_def del: walk_find.simps)
    then show ?thesis using inv by (auto simp: pt_evolves_refl)
  next
    case (Some pte)
    then obtain q where node: "pt_node (ram s) r [i, j] = Some q" and pte: "pte = slot q k"
      by (auto simp only: walk_find_node split: option.splits if_splits)
    let ?m = "store_u64 (ram s) (slot q k) 0"
    note leaf = store_leaf [OF wf lt node refl, where v = 0]
    have un: "pt_unmap s pt va = s\<lparr>ram := ?m\<rparr>"
      using Some pte idx root by (simp add: pt_unmap_def find_pte_def pte_empty_def del: walk_find.simps)
    have q: "q \<in> pt_tables (ram s) r"
      using node lt by (auto intro!: pt_tablesI simp: pt_paths_def)
    have "pt_inv (s\<lparr>ram := ?m\<rparr>) r"
      using inv leaf(2,3) by (simp add: pt_inv_def frames_ok_def allocated_def)
    moreover have "?m a = ram s a" if "drop_bit 12 a \<notin> pt_tables (ram s) r" for a
      using that q by (intro leaf(5)) auto
    moreover from this have "?m a = ram s a" if "\<not> allocated (s\<lparr>ram := ?m\<rparr>) (drop_bit 12 a)" for a
      using that inv by (auto simp: pt_inv_def allocated_def)
    ultimately have "pt_evolves r s (s\<lparr>ram := ?m\<rparr>)"
      using leaf(1,3) by (auto simp: pt_evolves_def)
    then show ?thesis
      using leaf(4) un by simp
  qed
  then show "pt_evolves r s (pt_unmap s pt va)" "page_alloc (pt_unmap s pt va) = page_alloc s"
    "a < 512 \<Longrightarrow> b < 512 \<Longrightarrow> c < 512 \<Longrightarrow> pt_lookup (ram (pt_unmap s pt va)) r [a, b, c] =
       (if [a, b, c] = [i, j, k] then None else pt_lookup (ram s) r [a, b, c])"
    by simp_all
qed

end
