(* ===== verification/Address_Space.thy ===== *)
theory Address_Space
  imports Page_Table
begin

text \<open>
  Whole address spaces of \<^verbatim>\<open>src/src/mm.rs\<close>: the view of a page table as a map from virtual
  pages to leaf entries, the loops that map a list of pages, and the kernel's identity
  mapping, which \<^verbatim>\<open>init_kernel_page_table\<close> builds at boot and \<^verbatim>\<open>clone_user_space\<close>,
  \<^verbatim>\<open>Process::new\<close> and \<^verbatim>\<open>exec_process\<close> build for every process.  What a client of
  \<open>pt_map\<close> may rely on is the locale \<open>page_map\<close>: the map law and an exact
  account of the frames consumed.
\<close>

section \<open>Operations\<close>

type_synonym mapping_req = "usize \<times> usize \<times> pte_flags"

definition pt_map_entry :: "page_table \<Rightarrow> mm_state \<Rightarrow> mapping_req \<Rightarrow> mm_state res" where
  "pt_map_entry pt s x = (case x of (va, pa, flags) \<Rightarrow> pt_map s pt va pa flags)"

definition pt_map_all :: "mm_state \<Rightarrow> page_table \<Rightarrow> mapping_req list \<Rightarrow> mm_state res" where
  "pt_map_all s pt xs = res_fold (pt_map_entry pt) s xs"

definition identity :: "pte_flags \<Rightarrow> usize list \<Rightarrow> mapping_req list" where
  "identity flags addrs = map (\<lambda>addr. (addr, addr, flags)) addrs"

text \<open>RAM, the UART, the virtio windows and the PLIC, in the order of the loops.\<close>

definition kernel_regions :: "mapping_req list" where
  "kernel_regions =
     identity (PTE_R OR PTE_W OR PTE_X) (range_step 0x80000000 0x88000000 4096) @
     identity (PTE_R OR PTE_W) [0x10000000] @
     identity (PTE_R OR PTE_W) (range_step 0x10001000 0x10009000 4096) @
     identity (PTE_R OR PTE_W) (range_step 0x0c000000 0x0c200000 4096)"

definition map_kernel_regions :: "mm_state \<Rightarrow> page_table \<Rightarrow> mm_state res" where
  "map_kernel_regions s pt = pt_map_all s pt kernel_regions"

text \<open>The value written to the \<^verbatim>\<open>satp\<close> register selects SV39 and the root frame.\<close>

definition satp_of :: "page_table \<Rightarrow> usize" where
  "satp_of pt = push_bit 60 8 OR root_ppn pt"

definition init_kernel_page_table :: "mm_state \<Rightarrow> (usize \<times> mm_state) res" where
  "init_kernel_page_table s =
     (case page_table_new s of
        (None, s) \<Rightarrow> Inl (Panic ''called `Option::unwrap()` on a `None` value'')
      | (Some pt, s) \<Rightarrow>
          res_bind (map_kernel_regions s pt) (\<lambda>s.
          res_bind (pt_map s pt 0x100000 0x100000 (PTE_R OR PTE_W)) (\<lambda>s.
          Inr (satp_of pt, s\<lparr>kernel_page_table := Some (root_ppn pt)\<rparr>))))"

section \<open>The contract of mapping\<close>

definition pt_view :: "usize \<Rightarrow> mm_state \<Rightarrow> usize list \<Rightarrow> usize option" where
  "pt_view r s ks = (if ks \<in> range vpn_indices then pt_lookup (ram s) r ks else None)"

definition table_paths :: "usize \<Rightarrow> mm_state \<Rightarrow> usize list set" where
  "table_paths r s = {js \<in> pt_paths. pt_node (ram s) r js \<noteq> None}"

definition req_key :: "mapping_req \<Rightarrow> usize list" where
  "req_key x = vpn_indices (drop_bit 12 (fst x))"

definition req_entry :: "mapping_req \<Rightarrow> usize" where
  "req_entry x = pte_new (drop_bit 12 (fst (snd x))) (snd (snd x) OR PTE_V OR PTE_A OR PTE_D)"

definition req_tables :: "mapping_req \<Rightarrow> usize list set" where
  "req_tables x = {take 1 (req_key x), take 2 (req_key x)}"

definition frames_used :: "mm_state \<Rightarrow> nat" where
  "frames_used s = unat (pg_current (page_alloc s)) div 4096"

definition frames_limit :: "mm_state \<Rightarrow> nat" where
  "frames_limit s = unat (pg_end (page_alloc s)) div 4096"

locale page_map =
  fixes mp :: "'s \<Rightarrow> 'x \<Rightarrow> 's res"
    and key :: "'x \<Rightarrow> 'k"
    and entry :: "'x \<Rightarrow> 'e"
    and needs :: "'x \<Rightarrow> 't set"
    and view :: "'s \<Rightarrow> 'k \<Rightarrow> 'e option"
    and tables :: "'s \<Rightarrow> 't set"
    and used :: "'s \<Rightarrow> nat"
    and limit :: "'s \<Rightarrow> nat"
    and inv :: "'s \<Rightarrow> bool"
  assumes mp_inv: "inv s \<Longrightarrow> mp s x = Inr s' \<Longrightarrow> inv s' \<and> limit s' = limit s \<and> used s' \<le> limit s'"
    and mp_fresh: "inv s \<Longrightarrow> mp s x = Inr s' \<Longrightarrow> view s (key x) = None"
    and mp_view: "inv s \<Longrightarrow> mp s x = Inr s' \<Longrightarrow> view s' k = (if k = key x then Some (entry x) else view s k)"
    and mp_tables: "inv s \<Longrightarrow> mp s x = Inr s' \<Longrightarrow> tables s' = tables s \<union> needs x"
    and mp_used: "inv s \<Longrightarrow> mp s x = Inr s' \<Longrightarrow> used s' = used s + card (needs x - tables s)"
    and mp_progress: "inv s \<Longrightarrow> view s (key x) = None \<Longrightarrow> used s + card (needs x - tables s) \<le> limit s \<Longrightarrow>
       \<exists>s'. mp s x = Inr s'"
    and needs_finite: "finite (needs x)"
begin

text \<open>A successful loop adds exactly its requests, which had distinct fresh keys.\<close>

lemma map_all_view:
  assumes "inv s" "res_fold mp s xs = Inr s'"
  shows "inv s' \<and> limit s' = limit s \<and>
    view s' k = (case map_of (map (\<lambda>x. (key x, entry x)) xs) k of Some e \<Rightarrow> Some e | None \<Rightarrow> view s k)"
    and "distinct (map key xs) \<and> (\<forall>x \<in> set xs. view s (key x) = None)"
proof -
  have "(inv s' \<and> limit s' = limit s \<and> (\<forall>k. view s' k =
      (case map_of (map (\<lambda>x. (key x, entry x)) xs) k of Some e \<Rightarrow> Some e | None \<Rightarrow> view s k))) \<and>
    distinct (map key xs) \<and> (\<forall>x \<in> set xs. view s (key x) = None)"
    using assms
  proof (induction xs arbitrary: s)
    case (Cons x xs)
    from Cons.prems(2) obtain t where t: "mp s x = Inr t" "res_fold mp t xs = Inr s'"
      by (auto split: sum.splits)
    note x = mp_inv [OF Cons.prems(1) t(1)] mp_fresh [OF Cons.prems(1) t(1)]
      mp_view [OF Cons.prems(1) t(1)]
    note IH = Cons.IH [OF x(1) [THEN conjunct1] t(2)]
    have fresh: "\<forall>y \<in> set xs. key y \<noteq> key x \<and> view s (key y) = None"
      using IH by (auto simp: x(3) split: if_splits)
    then have "map_of (map (\<lambda>x. (key x, entry x)) xs) (key x) = None"
      by (auto simp: map_of_eq_None_iff image_iff)
    then show ?case
      using IH x fresh by (auto simp: image_iff split: option.split)
  qed simp
  then show "inv s' \<and> limit s' = limit s \<and>
    view s' k = (case map_of (map (\<lambda>x. (key x, entry x)) xs) k of Some e \<Rightarrow> Some e | None \<Rightarrow> view s k)"
    "distinct (map key xs) \<and> (\<forall>x \<in> set xs. view s (key x) = None)"
    by blast+
qed

lemma card_step:
  assumes "finite A" "finite B"
  shows "card (A - T) + card (B - (T \<union> A)) = card ((A \<union> B) - T)"
proof -
  have "(A \<union> B) - T = (A - T) \<union> (B - (T \<union> A))" by blast
  moreover have "(A - T) \<inter> (B - (T \<union> A)) = {}" by blast
  ultimately show ?thesis
    using assms by (simp add: card_Un_disjoint)
qed

text \<open>The loop consumes exactly the table frames that were missing.\<close>

lemma map_all_used:
  assumes "inv s" "res_fold mp s xs = Inr s'" "used s \<le> limit s"
  shows "tables s' = tables s \<union> \<Union> (needs ` set xs) \<and>
    used s' = used s + card (\<Union> (needs ` set xs) - tables s) \<and> used s' \<le> limit s"
  using assms
proof (induction xs arbitrary: s)
  case (Cons x xs)
  from Cons.prems(2) obtain t where t: "mp s x = Inr t" "res_fold mp t xs = Inr s'"
    by (auto split: sum.splits)
  note x = mp_inv [OF Cons.prems(1) t(1)] mp_tables [OF Cons.prems(1) t(1)]
    mp_used [OF Cons.prems(1) t(1)]
  have "used t \<le> limit t" using x(1) by blast
  note IH = Cons.IH [OF x(1) [THEN conjunct1] t(2) this]
  have "card (needs x - tables s) + card (\<Union> (needs ` set xs) - (tables s \<union> needs x)) =
      card ((needs x \<union> \<Union> (needs ` set xs)) - tables s)"
    by (rule card_step) (auto simp: needs_finite)
  then show ?case
    using IH x by auto
qed simp

lemma map_all_progress:
  assumes "inv s" "distinct (map key xs)" "\<forall>x \<in> set xs. view s (key x) = None"
    and "used s + card (\<Union> (needs ` set xs) - tables s) \<le> limit s"
  shows "\<exists>s'. res_fold mp s xs = Inr s'"
  using assms
proof (induction xs arbitrary: s)
  case (Cons x xs)
  have c: "card (needs x - tables s) + card (\<Union> (needs ` set xs) - (tables s \<union> needs x)) =
      card ((needs x \<union> \<Union> (needs ` set xs)) - tables s)"
    by (rule card_step) (auto simp: needs_finite)
  then have "used s + card (needs x - tables s) \<le> limit s"
    using Cons.prems(4) by simp
  with Cons.prems(1,3) obtain t where t: "mp s x = Inr t"
    using mp_progress [of s x] by auto
  note x = mp_inv [OF Cons.prems(1) t] mp_tables [OF Cons.prems(1) t] mp_used [OF Cons.prems(1) t]
    mp_view [OF Cons.prems(1) t]
  have "\<exists>s'. res_fold mp t xs = Inr s'"
  proof (rule Cons.IH)
    show "inv t" using x(1) by blast
    show "distinct (map key xs)" using Cons.prems(2) by simp
    show "\<forall>y \<in> set xs. view t (key y) = None"
      using Cons.prems(2,3) by (auto simp: x(4) image_iff)
    show "used t + card (\<Union> (needs ` set xs) - tables t) \<le> limit t"
      using Cons.prems(4) c x by simp
  qed
  then show ?case by (simp add: t)
qed simp

end

section \<open>Page tables meet the contract\<close>

lemma finite_pt_paths: "finite pt_paths"
proof -
  have "pt_paths \<subseteq> {xs. set xs \<subseteq> UNIV \<and> length xs \<le> 2}"
    by (auto simp: pt_paths_def)
  then show ?thesis
    by (rule finite_subset) (rule finite_lists_length_le, simp)
qed

text \<open>The virtual page number that \<^verbatim>\<open>clone_user_space\<close> puts together from three digits.\<close>

definition vpn_join :: "usize \<Rightarrow> usize \<Rightarrow> usize \<Rightarrow> usize" where
  "vpn_join i j k = push_bit 18 i OR push_bit 9 j OR k"

lemma vpn_indices_join:
  assumes "i < 512" "j < 512" "k < 512"
  shows "vpn_indices (drop_bit 12 (push_bit 12 (vpn_join i j k))) = [i, j, k]"
proof -
  have b: "bit i n \<Longrightarrow> n < 9" "bit j n \<Longrightarrow> n < 9" "bit k n \<Longrightarrow> n < 9" for n
    using not_bit_less_two_power [of _ 9 n] assms by force+
  have m: "(511 :: usize) = mask 9"
    by (simp add: mask_eq_exp_minus_1)
  have "drop_bit 12 (push_bit 12 (vpn_join i j k)) = vpn_join i j k"
    by (auto simp: vpn_join_def bit_eq_iff bit_simps dest: b)
  moreover have "drop_bit 18 (vpn_join i j k) AND 511 = i"
    by (auto simp: m vpn_join_def bit_eq_iff bit_simps dest: b)
  moreover have "drop_bit 9 (vpn_join i j k) AND 511 = j"
    by (auto simp: m vpn_join_def bit_eq_iff bit_simps dest: b)
  moreover have "vpn_join i j k AND 511 = k"
    by (auto simp: m vpn_join_def bit_eq_iff bit_simps dest: b)
  ultimately show ?thesis
    by (simp add: vpn_indices_def)
qed

lemma range_vpn_indices:
  "ks \<in> range vpn_indices \<longleftrightarrow> (\<exists>i j k. ks = [i, j, k] \<and> i < 512 \<and> j < 512 \<and> k < 512)"
proof
  assume "ks \<in> range vpn_indices"
  then show "\<exists>i j k. ks = [i, j, k] \<and> i < 512 \<and> j < 512 \<and> k < 512"
    by (metis rangeE vpn_indices_cases)
next
  assume "\<exists>i j k. ks = [i, j, k] \<and> i < 512 \<and> j < 512 \<and> k < 512"
  then obtain i j k where "ks = [i, j, k]" "i < 512" "j < 512" "k < 512" by blast
  with vpn_indices_join [of i j k] show "ks \<in> range vpn_indices" by (metis rangeI)
qed

lemma req_key_cases:
  obtains i j k where "req_key x = [i, j, k]" "i < 512" "j < 512" "k < 512"
    "req_tables x = {[i], [i, j]}"
  by (rule vpn_indices_cases [of "drop_bit 12 (fst x)"])
    (simp add: req_key_def req_tables_def numeral_2_eq_2)

lemma frames_ok_used: "frames_ok s \<Longrightarrow> frames_used s \<le> frames_limit s"
  by (auto simp: frames_ok_def frames_used_def frames_limit_def word_le_nat_alt intro: div_le_mono)

lemma frames_room:
  assumes "frames_ok s"
  shows "unat (pg_current (page_alloc s)) + 4096 * n \<le> unat (pg_end (page_alloc s)) \<longleftrightarrow>
    frames_used s + n \<le> frames_limit s"
proof -
  let ?c = "unat (pg_current (page_alloc s))" and ?e = "unat (pg_end (page_alloc s))"
  have "?c = 4096 * (?c div 4096)"
    using assms by (auto simp: frames_ok_def)
  then have "?c + 4096 * n = (?c div 4096 + n) * 4096"
    by simp
  then have "?c + 4096 * n \<le> ?e \<longleftrightarrow> ?c div 4096 + n \<le> ?e div 4096"
    by (metis less_eq_div_iff_mult_less_eq zero_less_numeral)
  then show ?thesis
    by (simp add: frames_used_def frames_limit_def)
qed

lemma missing_card:
  assumes "i < 512" "j < 512"
  shows "missing (pt_node (ram s) r [i]) + missing (pt_node (ram s) r [i, j]) =
    card ({[i], [i, j]} - table_paths r s)"
proof -
  have "[i] \<in> table_paths r s \<longleftrightarrow> pt_node (ram s) r [i] \<noteq> None"
    "[i, j] \<in> table_paths r s \<longleftrightarrow> pt_node (ram s) r [i, j] \<noteq> None"
    using assms by (auto simp: table_paths_def pt_paths_def)
  then show ?thesis
    by (cases "pt_node (ram s) r [i]"; cases "pt_node (ram s) r [i, j]")
      (auto simp: insert_Diff_if)
qed

lemma view_tables:
  assumes "pt_view r s (req_key x) \<noteq> None"
  shows "req_tables x \<subseteq> table_paths r s"
proof -
  obtain i j k where key: "req_key x = [i, j, k]" "i < 512" "j < 512"
    and tabs: "req_tables x = {[i], [i, j]}" by (rule req_key_cases)
  have "pt_node (ram s) r [i, j] \<noteq> None"
    using assms by (auto simp: pt_view_def key(1) pt_lookup_node split: option.splits if_splits)
  then have "pt_node (ram s) r [i] \<noteq> None"
    by (auto simp: pt_node.simps split: option.splits)
  with \<open>pt_node (ram s) r [i, j] \<noteq> None\<close> show ?thesis
    using key(2,3) by (auto simp: tabs table_paths_def pt_paths_def)
qed

text \<open>The cases of \<open>pt_map\<close>, in the vocabulary of the contract.\<close>

lemma pt_map_entry_cases:
  assumes inv: "pt_inv s (root_ppn pt)"
  obtains (oom) "pt_map_entry pt s x = Inl (Panic ''out of memory mapping page'')"
      "frames_limit s < frames_used s + card (req_tables x - table_paths (root_ppn pt) s)"
  | (remap) "pt_map_entry pt s x = Inl (Panic ''remap'')" "pt_view (root_ppn pt) s (req_key x) \<noteq> None"
  | (ok) s' where "pt_map_entry pt s x = Inr s'" "pt_view (root_ppn pt) s (req_key x) = None"
      "pt_evolves (root_ppn pt) s s'"
      "\<And>k. pt_view (root_ppn pt) s' k =
         (if k = req_key x then Some (req_entry x) else pt_view (root_ppn pt) s k)"
      "table_paths (root_ppn pt) s' = table_paths (root_ppn pt) s \<union> req_tables x"
      "frames_used s' = frames_used s + card (req_tables x - table_paths (root_ppn pt) s)"
proof -
  obtain va pa fl where x: "x = (va, pa, fl)" by (cases x)
  obtain i j k where key: "req_key x = [i, j, k]" and lt: "i < 512" "j < 512" "k < 512"
    and tabs: "req_tables x = {[i], [i, j]}" by (rule req_key_cases)
  have rng: "req_key x \<in> range vpn_indices" by (simp add: req_key_def)
  have idx: "vpn_indices (drop_bit 12 va) = [i, j, k]"
    using key by (simp add: req_key_def x)
  have fok: "frames_ok s" using inv by (simp add: pt_inv_def)
  note mc = missing_card [OF lt(1,2), of s "root_ppn pt", folded tabs]
  show thesis
  proof (cases rule: pt_map_cases [OF inv refl idx refl, of pa fl])
    case 1
    then show thesis
      using frames_room [OF fok, of "card (req_tables x - table_paths (root_ppn pt) s)"]
      by (intro oom) (simp_all add: pt_map_entry_def x mc)
  next
    case 2
    then show thesis
      using rng key by (intro remap) (simp_all add: pt_map_entry_def x pt_view_def)
  next
    case (3 s')
    have node: "pt_node (ram s) (root_ppn pt) js \<noteq> None \<Longrightarrow> js \<in> pt_paths \<Longrightarrow>
        pt_node (ram s') (root_ppn pt) js \<noteq> None" for js
      using 3(3) by (auto simp: pt_evolves_def)
    have "table_paths (root_ppn pt) s' = table_paths (root_ppn pt) s \<union> req_tables x"
      using node 3(5-7) lt by (auto simp: table_paths_def tabs) (auto simp: pt_paths_def)
    moreover have "frames_used s' = frames_used s + card (req_tables x - table_paths (root_ppn pt) s)"
      using 3(8) by (simp add: frames_used_def mc)
    moreover have "pt_view (root_ppn pt) s' k =
        (if k = req_key x then Some (req_entry x) else pt_view (root_ppn pt) s k)" for k
    proof (cases "k \<in> range vpn_indices")
      case True
      then obtain a b c where "k = [a, b, c]" "a < 512" "b < 512" "c < 512"
        by (auto simp: range_vpn_indices)
      with True 3(4) show ?thesis
        by (simp add: pt_view_def key [unfolded x] req_entry_def x)
    qed (use rng in \<open>auto simp: pt_view_def\<close>)
    ultimately show thesis
      using 3(1-3) rng key by (intro ok [of s']) (simp_all add: pt_map_entry_def x pt_view_def)
  qed
qed

interpretation ptm: page_map "pt_map_entry pt" req_key req_entry req_tables
  "pt_view (root_ppn pt)" "table_paths (root_ppn pt)" frames_used frames_limit
  "\<lambda>s. pt_inv s (root_ppn pt)" for pt
proof unfold_locales
  fix s s' :: mm_state and x k
  assume inv: "pt_inv s (root_ppn pt)"
  note cases = pt_map_entry_cases [OF inv, of x]
  show "\<exists>s'. pt_map_entry pt s x = Inr s'"
    if "pt_view (root_ppn pt) s (req_key x) = None"
      "frames_used s + card (req_tables x - table_paths (root_ppn pt) s) \<le> frames_limit s"
    using that by (cases rule: cases) auto
  assume run: "pt_map_entry pt s x = Inr s'"
  show "pt_inv s' (root_ppn pt) \<and> frames_limit s' = frames_limit s \<and> frames_used s' \<le> frames_limit s'"
    using run by (cases rule: cases) (auto simp: pt_evolves_def pt_inv_def frames_limit_def
        dest: frames_ok_used)
  show "pt_view (root_ppn pt) s (req_key x) = None"
    using run by (cases rule: cases) auto
  show "pt_view (root_ppn pt) s' k =
      (if k = req_key x then Some (req_entry x) else pt_view (root_ppn pt) s k)"
    using run by (cases rule: cases) auto
  show "table_paths (root_ppn pt) s' = table_paths (root_ppn pt) s \<union> req_tables x"
    using run by (cases rule: cases) auto
  show "frames_used s' = frames_used s + card (req_tables x - table_paths (root_ppn pt) s)"
    using run by (cases rule: cases) auto
next
  show "finite (req_tables x)" for x by (simp add: req_tables_def)
qed

lemma pt_map_all_evolves:
  assumes "pt_inv s (root_ppn pt)" "pt_map_all s pt xs = Inr s'"
  shows "pt_evolves (root_ppn pt) s s'"
  using assms unfolding pt_map_all_def
proof (induction xs arbitrary: s)
  case (Cons x xs)
  from Cons.prems(2) obtain t where t: "pt_map_entry pt s x = Inr t"
    "res_fold (pt_map_entry pt) t xs = Inr s'" by (auto split: sum.splits)
  have "pt_evolves (root_ppn pt) s t"
    using t(1) by (cases rule: pt_map_entry_cases [OF Cons.prems(1), of x]) auto
  with Cons.IH [OF pt_evolves_inv t(2)] show ?case
    by (blast intro: pt_evolves_trans)
qed (simp add: pt_evolves_refl)

section \<open>A new page table\<close>

lemma pt_child_zero_page:
  "frame_ok r \<Longrightarrow> j < 512 \<Longrightarrow> pt_child (write_bytes m (push_bit 12 r) 0 4096) r j = None"
  by (simp add: pt_child_def load_u64_zero_page)

lemma pt_node_zero_page:
  assumes "frame_ok r" "js \<in> pt_paths"
  shows "pt_node (write_bytes m (push_bit 12 r) 0 4096) r js = (if js = [] then Some r else None)"
  using assms by (cases js) (auto simp: pt_paths_def pt_child_zero_page pt_node.simps)

text \<open>Taking a frame, in the vocabulary of frames.\<close>

lemma alloc_page_frame_cases:
  assumes fok: "frames_ok s"
  obtains (fail) "alloc_page s = (None, s)" "frames_limit s < frames_used s + 1"
  | (ok) s' f where "alloc_page s = (Some (push_bit 12 f), s')" "f = frontier_frame s" "frame_ok f"
      "frames_ok s'" "ram s' = write_bytes (ram s) (push_bit 12 f) 0 4096"
      "\<And>p. allocated s' p \<longleftrightarrow> allocated s p \<or> p = f" "\<not> allocated s f"
      "frames_used s' = frames_used s + 1" "frames_limit s' = frames_limit s"
      "heap_alloc s' = heap_alloc s" "kernel_page_table s' = kernel_page_table s"
      "pg_current (page_alloc s) \<le> pg_current (page_alloc s')"
      "pg_end (page_alloc s') = pg_end (page_alloc s)"
proof -
  obtain x t where al: "alloc_page s = (x, t)" by fastforce
  note fr = frontier_frame [OF fok]
  show thesis
  proof (cases rule: alloc_page_cases [OF fok al])
    case 1
    then show thesis
      using al frames_room [OF fok, of 1] by (intro fail) simp_all
  next
    case 2
    have "unat (frontier_frame t) = Suc (unat (frontier_frame s))"
      using 2(3) fr(4) frontier_frame(4) [OF 2(5)] by linarith
    then have "allocated t p \<longleftrightarrow> allocated s p \<or> p = frontier_frame s" for p
      by (auto simp: allocated_iff [OF fok] allocated_iff [OF 2(5)] less_Suc_eq word_eq_unatI)
    with 2 al fr show thesis
      by (intro ok [of "frontier_frame s" t])
        (simp_all add: frames_used_def frames_limit_def word_le_nat_alt)
  qed
qed

lemma page_table_new_cases:
  assumes fok: "frames_ok s"
  obtains (fail) "page_table_new s = (None, s)" "frames_limit s < frames_used s + 1"
  | (ok) pt s' where "page_table_new s = (Some pt, s')" "pt_inv s' (root_ppn pt)"
      "\<not> allocated s (root_ppn pt)" "table_paths (root_ppn pt) s' = {[]}"
      "pt_tables (ram s') (root_ppn pt) = {root_ppn pt}" "\<And>k. pt_view (root_ppn pt) s' k = None"
      "frames_used s' = frames_used s + 1" "frames_limit s' = frames_limit s"
      "heap_alloc s' = heap_alloc s" "kernel_page_table s' = kernel_page_table s"
      "\<And>a. allocated s (drop_bit 12 a) \<Longrightarrow> ram s' a = ram s a"
      "pg_current (page_alloc s) \<le> pg_current (page_alloc s')"
      "pg_end (page_alloc s') = pg_end (page_alloc s)"
proof (cases rule: alloc_page_frame_cases [OF fok])
  case 1
  then show thesis
    by (intro that(1)) (simp_all add: page_table_new_def)
next
  case (2 t r)
  note ok = 2
  let ?m = "write_bytes (ram s) (push_bit 12 r) 0 4096"
  have root: "drop_bit 12 (push_bit 12 r) = r"
    using ok(3) by (intro word_eq_unatI) (simp add: unat_drop_bit_12 unat_push_bit_12 frame_ok_def)
  have new: "page_table_new s = (Some \<lparr>root_ppn = r\<rparr>, t\<lparr>ram := ?m\<rparr>)"
    using ok(1,5) by (simp add: page_table_new_def root)
  note node = pt_node_zero_page [OF ok(3), of _ "ram s"]
  have nil: "[] \<in> pt_paths" by (simp add: pt_paths_def)
  have tabs: "pt_tables ?m r = {r}"
    using nil by (auto simp: pt_tables_def node split: if_splits)
  have wf: "tree_wf ?m r"
    using ok(3) by (auto simp: tree_wf_def tabs node split: if_splits)
  have inv: "pt_inv (t\<lparr>ram := ?m\<rparr>) r"
    using ok(4,6) wf by (simp add: pt_inv_def tabs frames_ok_def allocated_def)
  have view: "pt_view r (t\<lparr>ram := ?m\<rparr>) k = None" for k
    by (auto simp: pt_view_def range_vpn_indices pt_lookup_node node pt_paths_def)
  have mem: "?m a = ram s a" if "allocated s (drop_bit 12 a)" for a
    using that ok(3,7) by (subst write_bytes_page) auto
  have paths: "table_paths r (t\<lparr>ram := ?m\<rparr>) = {[]}"
    using nil by (auto simp: table_paths_def node split: if_splits)
  show thesis
    by (rule that(2) [OF new]) (use inv ok tabs view mem paths in
      \<open>simp_all add: frames_used_def frames_limit_def\<close>)
qed

text \<open>Memory growth that leaves the allocated frames alone preserves an address space.\<close>

lemma pt_stable:
  assumes inv: "pt_inv s r" and fok: "frames_ok t"
    and cur: "pg_current (page_alloc s) \<le> pg_current (page_alloc t)"
    and mem: "\<forall>a. allocated s (drop_bit 12 a) \<longrightarrow> ram t a = ram s a"
  shows "pt_inv t r" "pt_tables (ram t) r = pt_tables (ram s) r" "pt_view r t ks = pt_view r s ks"
proof -
  have al: "\<And>p. p \<in> pt_tables (ram s) r \<Longrightarrow> allocated s p" and wf: "tree_wf (ram s) r"
    using inv by (auto simp: pt_inv_def)
  have agree: "\<And>a. drop_bit 12 a \<in> pt_tables (ram s) r \<Longrightarrow> ram t a = ram s a"
    using mem al by blast
  show tabs: "pt_tables (ram t) r = pt_tables (ram s) r"
    by (rule pt_tables_cong [OF wf agree])
  show "pt_inv t r"
    using tree_wf_cong [OF wf agree] fok al allocated_mono [OF cur] by (auto simp: pt_inv_def tabs)
  show "pt_view r t ks = pt_view r s ks"
  proof (cases "ks \<in> range vpn_indices")
    case True
    then obtain a b c where "ks = [a, b, c]" "a < 512" "b < 512" "c < 512"
      by (auto simp: range_vpn_indices)
    with pt_lookup_cong [OF wf agree] show ?thesis
      by (simp add: pt_view_def)
  qed (simp add: pt_view_def)
qed

section \<open>The kernel's regions\<close>

definition digits :: "nat \<Rightarrow> usize list" where
  "digits n = [of_nat (n div 2 ^ 18 mod 512), of_nat (n div 512 mod 512), of_nat (n mod 512)]"

lemma unat_and_511: "unat (v AND 511 :: usize) = unat v mod 512"
proof -
  have "v AND 511 = take_bit 9 v"
    by (simp add: take_bit_eq_mask mask_eq_exp_minus_1)
  then show ?thesis
    by (simp add: take_bit_eq_mod unat_mod)
qed

lemma unat_drop_bit: "unat (drop_bit n v :: usize) = unat v div 2 ^ n"
  by (simp add: unat_drop_bit_eq drop_bit_nat_def)

lemma vpn_indices_digits: "vpn_indices v = digits (unat v)"
  by (auto simp: vpn_indices_def digits_def unat_and_511 unat_drop_bit intro!: word_eq_unatI)
    (simp_all add: unat_of_nat)

lemma digits_inj: "inj_on digits {..<2 ^ 27}"
proof (rule inj_onI)
  fix m n :: nat assume mn: "m \<in> {..<2 ^ 27}" "n \<in> {..<2 ^ 27}" "digits m = digits n"
  have cong: "x = y" if "x < 2 ^ 64" "y < 2 ^ 64" "(of_nat x :: usize) = of_nat y" for x y
    using arg_cong [OF that(3), of unat] that(1,2) by (simp add: unat_of_nat)
  have lt: "k mod 512 < 2 ^ 64" for k :: nat
    by (rule less_trans [of _ 512]) simp_all
  have "m div 2 ^ 18 mod 512 = n div 2 ^ 18 mod 512" "m div 512 mod 512 = n div 512 mod 512"
    "m mod 512 = n mod 512"
    using mn(3) cong lt by (auto simp: digits_def)
  moreover have "k = 512 * (512 * (k div 2 ^ 18 mod 512) + k div 512 mod 512) + k mod 512" if "k < 2 ^ 27" for k :: nat
  proof -
    have "k div 2 ^ 18 mod 512 = k div 512 div 512"
      using that by (simp add: div_mult2_eq [symmetric] less_mult_imp_div_less)
    then show ?thesis by simp
  qed
  ultimately show "m = n"
    using mn(1,2) by (metis lessThan_iff)
qed

definition kernel_vpns :: "nat list" where
  "kernel_vpns = [0x80000..<0x88000] @ [0x10000] @ [0x10001..<0x10009] @ [0xc000..<0xc200]"

lemma range_step_vpns:
  assumes "4096 * (a + n) < 2 ^ 64" "unat x = 4096 * a" "unat y = 4096 * (a + n)"
  shows "map (\<lambda>v. unat (drop_bit 12 v)) (range_step x y 4096) = [a..<a + n]"
proof -
  have "unat y - unat x = 4096 * n"
    by (simp only: assms(2,3) diff_mult_distrib2 [symmetric] add_diff_cancel_left')
  moreover have "unat (4096 :: usize) = 4096" by simp
  moreover have "(4096 * n + 4096 - 1) div 4096 = n" by simp
  ultimately have len: "(unat y - unat x + unat (4096 :: usize) - 1) div unat (4096 :: usize) = n"
    by (simp only:)
  have "unat (drop_bit 12 (x + of_nat i * 4096)) = a + i" if "i < n" for i
  proof -
    have "4096 * (a + i) < 2 ^ 64"
      by (rule le_less_trans [OF _ assms(1)]) (use that in simp)
    then have lt: "4096 * i < 2 ^ 64" "4096 * a + 4096 * i < 2 ^ 64"
      by simp_all
    have "of_nat i * 4096 = (of_nat (4096 * i) :: usize)" by simp
    then have "unat (of_nat i * 4096 :: usize) = 4096 * i"
      using lt(1) by (simp only: unat_of_nat) simp
    then have "unat (x + of_nat i * 4096) = 4096 * (a + i)"
      using lt(2) assms(2) by (subst unat_add_noov) auto
    then show ?thesis by (simp add: unat_drop_bit_12)
  qed
  then show ?thesis
    unfolding range_step_def len by (simp add: list_eq_iff_nth_eq)
qed

lemma map_identity: "map f (identity fl xs) = map (\<lambda>a. f (a, a, fl)) xs"
  by (simp add: identity_def)

lemma kernel_regions_vpns: "map (\<lambda>x. unat (drop_bit 12 (fst x))) kernel_regions = kernel_vpns"
proof -
  have "map (\<lambda>v. unat (drop_bit 12 v)) (range_step 0x80000000 0x88000000 4096) = [0x80000..<0x80000 + 0x8000]"
    "map (\<lambda>v. unat (drop_bit 12 v)) (range_step 0x10001000 0x10009000 4096) = [0x10001..<0x10001 + 8]"
    "map (\<lambda>v. unat (drop_bit 12 v)) (range_step 0x0c000000 0x0c200000 4096) = [0xc000..<0xc000 + 0x200]"
    by (rule range_step_vpns; simp)+
  moreover have "unat (drop_bit 12 (0x10000000 :: usize)) = 0x10000"
    by simp
  ultimately show ?thesis
    by (simp add: kernel_regions_def kernel_vpns_def map_identity del: upt_rec_numeral)
qed

lemma kernel_vpns_set:
  "set kernel_vpns = {0x80000..<0x88000} \<union> {0x10000..<0x10009} \<union> {0xc000..<0xc200}"
  by (auto simp: kernel_vpns_def simp del: upt_rec_numeral)

lemma kernel_vpns_distinct: "distinct kernel_vpns"
  by (auto simp: kernel_vpns_def simp del: upt_rec_numeral)

lemma kernel_keys: "map req_key kernel_regions = map digits kernel_vpns"
  by (simp add: kernel_regions_vpns [symmetric] req_key_def vpn_indices_digits)

lemma kernel_keys_distinct: "distinct (map req_key kernel_regions)"
proof -
  have "set kernel_vpns \<subseteq> {..<2 ^ 27}"
    by (auto simp: kernel_vpns_set)
  then have "inj_on digits (set kernel_vpns)"
    by (rule inj_on_subset [OF digits_inj])
  then show ?thesis
    by (simp add: kernel_keys distinct_map kernel_vpns_distinct)
qed

text \<open>The page tables they need: two second-level and 66 third-level tables.\<close>

definition kernel_tables :: "usize list set" where
  "kernel_tables = {[2], [0], [0, 128], [0, 96]} \<union> (\<lambda>j. [2, of_nat j]) ` {..<64}"

lemma digits_ram:
  assumes "j < 64" "r < 512"
  shows "take 2 (digits (0x80000 + 512 * j + r)) = [2, of_nat j]"
proof -
  have "(0x80000 + 512 * j + r) div 2 ^ 18 = 2"
    using assms by (intro div_nat_eqI) simp_all
  moreover have "(0x80000 + 512 * j + r) div 512 = 1024 + j"
    using assms by (intro div_nat_eqI) simp_all
  moreover have "(1024 + j) mod 512 = j"
    using assms mod_mult_self1 [of j 2 512] by (simp add: add.commute)
  ultimately show ?thesis
    by (simp add: digits_def numeral_2_eq_2)
qed

lemma digits_mmio:
  "n \<in> {0x10000..<0x10009} \<Longrightarrow> take 2 (digits n) = [0, 128]"
  "n \<in> {0xc000..<0xc200} \<Longrightarrow> take 2 (digits n) = [0, 96]"
proof -
  have "n div 2 ^ 18 = 0 \<and> n div 512 = 128" if "n \<in> {0x10000..<0x10009}"
    using that by (intro conjI div_nat_eqI) simp_all
  then show "n \<in> {0x10000..<0x10009} \<Longrightarrow> take 2 (digits n) = [0, 128]"
    by (simp add: digits_def numeral_2_eq_2)
  have "n div 2 ^ 18 = 0 \<and> n div 512 = 96" if "n \<in> {0xc000..<0xc200}"
    using that by (intro conjI div_nat_eqI) simp_all
  then show "n \<in> {0xc000..<0xc200} \<Longrightarrow> take 2 (digits n) = [0, 96]"
    by (simp add: digits_def numeral_2_eq_2)
qed

lemma kernel_digits:
  "(\<lambda>n. take 2 (digits n)) ` set kernel_vpns = {[0, 128], [0, 96]} \<union> (\<lambda>j. [2, of_nat j]) ` {..<64}"
proof -
  have "(\<lambda>n. take 2 (digits n)) ` {0x80000..<0x88000} = (\<lambda>j. [2, of_nat j]) ` {..<64}"
  proof (intro equalityI subsetI; elim imageE)
    fix x n assume x: "x = take 2 (digits n)" and "n \<in> {0x80000..<0x88000}"
    then have "n = 0x80000 + 512 * ((n - 0x80000) div 512) + (n - 0x80000) mod 512"
      "n - 0x80000 < 64 * 512" by auto
    moreover from this(2) have "(n - 0x80000) div 512 < 64"
      by (rule less_mult_imp_div_less)
    ultimately have "n = 0x80000 + 512 * ((n - 0x80000) div 512) + (n - 0x80000) mod 512"
      "(n - 0x80000) div 512 < 64" by blast+
    with digits_ram [of "(n - 0x80000) div 512" "(n - 0x80000) mod 512"] x
    show "x \<in> (\<lambda>j. [2, of_nat j]) ` {..<64}" by auto
  next
    fix x :: "usize list" and j assume "x = [2, of_nat j]" "j \<in> {..<64::nat}"
    with digits_ram [of j 0] show "x \<in> (\<lambda>n. take 2 (digits n)) ` {0x80000..<0x88000}"
      by (intro image_eqI [of _ _ "0x80000 + 512 * j"]) simp_all
  qed
  moreover have "(\<lambda>n. take 2 (digits n)) ` {0x10000..<0x10009} = {[0, 128]}"
    using digits_mmio(1) by (force simp: image_iff)
  moreover have "(\<lambda>n. take 2 (digits n)) ` {0xc000..<0xc200} = {[0, 96]}"
    using digits_mmio(2) by (force simp: image_iff)
  ultimately show ?thesis
    by (simp only: kernel_vpns_set image_Un) blast
qed

lemma kernel_regions_tables: "\<Union> (req_tables ` set kernel_regions) = kernel_tables"
proof -
  let ?D = "{[0, 128], [0, 96]} \<union> (\<lambda>j. [2, of_nat j]) ` {..<64} :: usize list set"
  have "req_key ` set kernel_regions = digits ` set kernel_vpns"
    using arg_cong [OF kernel_keys, of set] by simp
  then have D: "take 2 ` req_key ` set kernel_regions = ?D"
    using kernel_digits by (simp add: image_image)
  have t: "take 1 (take 2 ks) = take 1 ks" for ks :: "usize list"
    by (simp add: take_take min_def)
  have "\<Union> (req_tables ` set kernel_regions) =
      take 1 ` (take 2 ` req_key ` set kernel_regions) \<union> take 2 ` req_key ` set kernel_regions"
    unfolding image_image t req_tables_def by blast
  also have "\<dots> = take 1 ` ?D \<union> ?D"
    by (simp only: D)
  also have "take 1 ` ?D = {[0], [2]}"
    using image_constant [of "0 :: nat" "{..<64}" "[2 :: usize]"]
    by (auto simp: image_Un image_image)
  finally show ?thesis
    by (auto simp: kernel_tables_def)
qed

lemma card_kernel_tables: "card kernel_tables = 68"
proof -
  have inj: "inj_on (\<lambda>j. [2, of_nat j :: usize]) {..<64}"
    by (auto intro!: inj_onI simp: word_unat_eq_iff unat_of_nat)
  have "{[2], [0], [0, 128], [0, 96]} \<inter> (\<lambda>j. [2, of_nat j :: usize]) ` {..<64} = {}"
    by auto
  then show ?thesis
    by (simp add: kernel_tables_def card_Un_disjoint card_image [OF inj])
qed

text \<open>The view that the identity mapping gives: the entry of every kernel page, nothing else.\<close>

definition kernel_view :: "usize list \<Rightarrow> usize option" where
  "kernel_view ks = map_of (map (\<lambda>x. (req_key x, req_entry x)) kernel_regions) ks"

lemma kernel_view_entry:
  "x \<in> set kernel_regions \<Longrightarrow> kernel_view (req_key x) = Some (req_entry x)"
  using kernel_keys_distinct by (auto simp: kernel_view_def o_def intro!: map_of_is_SomeI)

lemma kernel_view_dom: "kernel_view ks = None \<longleftrightarrow> ks \<notin> digits ` set kernel_vpns"
proof -
  have "kernel_view ks = None \<longleftrightarrow> ks \<notin> req_key ` set kernel_regions"
    by (auto simp: kernel_view_def map_of_eq_None_iff image_iff)
  then show ?thesis
    using arg_cong [OF kernel_keys, of set] by simp
qed

lemma map_kernel_regions_ok:
  assumes inv: "pt_inv s (root_ppn pt)" and tabs: "table_paths (root_ppn pt) s = {[]}"
    and view: "\<And>k. pt_view (root_ppn pt) s k = None"
    and room: "frames_used s + 68 \<le> frames_limit s"
  obtains s' where "map_kernel_regions s pt = Inr s'" "pt_evolves (root_ppn pt) s s'"
    "\<And>k. pt_view (root_ppn pt) s' k = kernel_view k"
    "table_paths (root_ppn pt) s' = insert [] kernel_tables"
    "frames_used s' = frames_used s + 68" "frames_limit s' = frames_limit s"
proof -
  have "[] \<notin> kernel_tables" by (auto simp: kernel_tables_def)
  then have need: "card (\<Union> (req_tables ` set kernel_regions) - table_paths (root_ppn pt) s) = 68"
    by (simp add: tabs kernel_regions_tables card_kernel_tables)
  have "\<exists>s'. res_fold (pt_map_entry pt) s kernel_regions = Inr s'"
    using ptm.map_all_progress [OF inv kernel_keys_distinct] view need room by simp
  then obtain s' where run: "res_fold (pt_map_entry pt) s kernel_regions = Inr s'" ..
  have used: "frames_used s \<le> frames_limit s"
    using room by simp
  note u = ptm.map_all_used [OF inv run used]
  note v = ptm.map_all_view(1) [OF inv run]
  have "pt_evolves (root_ppn pt) s s'"
    using run by (intro pt_map_all_evolves [OF inv]) (simp add: pt_map_all_def)
  moreover have "pt_view (root_ppn pt) s' k = kernel_view k" for k
    using v [of k] by (simp add: kernel_view_def view split: option.splits)
  ultimately show thesis
    using run u v need
    by (intro that [of s']) (simp_all add: map_kernel_regions_def pt_map_all_def tabs kernel_regions_tables)
qed

lemma map_kernel_regions_fail:
  assumes inv: "pt_inv s (root_ppn pt)" and tabs: "table_paths (root_ppn pt) s = {[]}"
    and room: "frames_limit s < frames_used s + 68"
  shows "\<exists>e. map_kernel_regions s pt = Inl e"
proof (rule ccontr)
  assume "\<nexists>e. map_kernel_regions s pt = Inl e"
  then obtain s' where run: "res_fold (pt_map_entry pt) s kernel_regions = Inr s'"
    by (cases "map_kernel_regions s pt") (auto simp: map_kernel_regions_def pt_map_all_def)
  have "[] \<notin> kernel_tables" by (auto simp: kernel_tables_def)
  moreover have "frames_used s \<le> frames_limit s"
    using inv by (auto simp: pt_inv_def intro: frames_ok_used)
  ultimately show False
    using ptm.map_all_used [OF inv run] room
    by (simp add: tabs kernel_regions_tables card_kernel_tables)
qed

section \<open>Translation\<close>

lemma pt_translate_view:
  "pt_translate (ram s) pt va =
     map_option (\<lambda>e. push_bit 12 (pte_ppn e) OR (va AND 4095))
       (pt_view (root_ppn pt) s (vpn_indices (drop_bit 12 va)))"
  by (simp add: pt_translate_lookup pt_view_def)

lemma req_entry_fields:
  assumes "flags < 256"
  shows "pte_ppn (req_entry (va, pa, flags)) = drop_bit 12 pa"
    "pte_flags_of (req_entry (va, pa, flags)) = flags OR PTE_V OR PTE_A OR PTE_D"
proof -
  have "flags OR PTE_V OR PTE_A OR PTE_D < 256"
    by (rule map_flags_less [OF assms])
  then have "flags OR PTE_V OR PTE_A OR PTE_D < 1024"
    by (rule less_trans) simp
  then show "pte_ppn (req_entry (va, pa, flags)) = drop_bit 12 pa"
    by (simp add: req_entry_def pte_ppn_new [OF drop_bit_12_frame])
  show "pte_flags_of (req_entry (va, pa, flags)) = flags OR PTE_V OR PTE_A OR PTE_D"
    by (simp add: req_entry_def pte_flags_new map_flags_less [OF assms])
qed

lemma page_of_address: "push_bit 12 (drop_bit 12 a) OR (a AND 4095) = (a :: usize)"
proof -
  have m: "(4095 :: usize) = mask 12"
    by (simp add: mask_eq_exp_minus_1)
  show ?thesis
    by (auto simp: m bit_eq_iff bit_simps)
qed

lemma pt_map_as_entry: "pt_map s pt va pa flags = pt_map_entry pt s (va, pa, flags)"
  by (simp add: pt_map_entry_def)

lemma kernel_regions_identity:
  assumes "x \<in> set kernel_regions"
  shows "fst (snd x) = fst x" "snd (snd x) < 256"
  using assms by (auto simp: kernel_regions_def identity_def pte_flag_defs)

lemma kernel_view_translate:
  assumes "va < 2 ^ 39"
  shows "map_option (\<lambda>e. push_bit 12 (pte_ppn e) OR (va AND 4095)) (kernel_view (vpn_indices (drop_bit 12 va))) =
    (if unat va div 4096 \<in> set kernel_vpns then Some va else None)"
proof (cases "unat va div 4096 \<in> set kernel_vpns")
  case True
  then have "unat (drop_bit 12 va) \<in> (\<lambda>x. unat (drop_bit 12 (fst x))) ` set kernel_regions"
    unfolding kernel_regions_vpns [symmetric] set_map unat_drop_bit_12 by blast
  then obtain x where x: "x \<in> set kernel_regions" "drop_bit 12 (fst x) = drop_bit 12 va"
    by (auto dest: word_eq_unatI)
  obtain a pa fl where x': "x = (a, pa, fl)" by (cases x)
  have "pte_ppn (req_entry x) = drop_bit 12 va"
    using kernel_regions_identity [OF x(1)] x(2) by (simp add: x' req_entry_fields)
  moreover have "kernel_view (vpn_indices (drop_bit 12 va)) = Some (req_entry x)"
    using kernel_view_entry [OF x(1)] x(2) by (simp add: req_key_def)
  ultimately show ?thesis
    using True by (simp add: page_of_address)
next
  case False
  have lt: "unat va div 4096 \<in> {..<2 ^ 27}"
    using assms by (simp add: word_less_nat_alt less_mult_imp_div_less)
  have "set kernel_vpns \<subseteq> {..<2 ^ 27}"
    by (auto simp: kernel_vpns_set)
  then have "digits (unat va div 4096) \<notin> digits ` set kernel_vpns"
    using False lt inj_on_image_mem_iff [OF digits_inj] by blast
  then show ?thesis
    using False by (simp add: vpn_indices_digits unat_drop_bit_12 kernel_view_dom)
qed

text \<open>The addresses that the kernel maps onto themselves.\<close>

definition identity_mapped :: "usize \<Rightarrow> bool" where
  "identity_mapped va \<longleftrightarrow> 0x80000000 \<le> va \<and> va < 0x88000000 \<or> 0x10000000 \<le> va \<and> va < 0x10009000 \<or>
     0x0c000000 \<le> va \<and> va < 0x0c200000"

lemma identity_mapped_vpns: "unat va div 4096 \<in> set kernel_vpns \<longleftrightarrow> identity_mapped va"
proof -
  have "unat va div 4096 \<in> {a..<b} \<longleftrightarrow> a * 4096 \<le> unat va \<and> unat va < b * 4096" for a b
    by (auto simp: less_eq_div_iff_mult_less_eq div_less_iff_less_mult)
  then show ?thesis
    by (simp add: kernel_vpns_set identity_mapped_def word_le_nat_alt word_less_nat_alt)
qed

section \<open>Properties\<close>

text \<open>
  C21.  After a successful \<open>map\<close>, translation sends every address of the mapped page to
  the same offset in the given frame and is unchanged on every other page; the tables still
  form a tree of allocated frames.
\<close>

theorem pt_map_translate:
  assumes "pt_inv s (root_ppn pt)" "flags < 256" "pt_map s pt va pa flags = Inr s'"
  shows "pt_inv s' (root_ppn pt) \<and>
    (\<forall>va'. pt_translate (ram s') pt va' =
       (if same_vpage va va' then Some (push_bit 12 (drop_bit 12 pa) OR (va' AND 4095))
        else pt_translate (ram s) pt va'))"
proof -
  note run = assms(3) [unfolded pt_map_as_entry]
  have "pt_inv s' (root_ppn pt)"
    using ptm.mp_inv [OF assms(1) run] by blast
  then show ?thesis
    using ptm.mp_view [OF assms(1) run] req_entry_fields(1) [OF assms(2)]
    by (auto simp: pt_translate_view same_vpage_def req_key_def)
qed

text \<open>A concrete machine for the examples: a new page table and one mapped page.\<close>

lemma demo_new_pt:
  obtains pt s where "page_table_new demo_mm = (Some pt, s)" "pt_inv s (root_ppn pt)"
    "table_paths (root_ppn pt) s = {[]}" "\<And>k. pt_view (root_ppn pt) s k = None"
    "frames_used s + 1000 \<le> frames_limit s" "frames_used s = 0x80401"
proof -
  have ok: "frames_ok demo_mm" by (simp add: frames_ok_def demo_mm_def)
  have u: "frames_used demo_mm = 0x80400" "frames_limit demo_mm = 0x88000"
    by (simp_all add: frames_used_def frames_limit_def demo_mm_def)
  show thesis
    by (cases rule: page_table_new_cases [OF ok]) (use u in \<open>auto intro: that\<close>)
qed

lemma demo_map_entry:
  assumes "pt_inv s (root_ppn pt)" "pt_view (root_ppn pt) s (req_key x) = None"
    "frames_used s + 2 \<le> frames_limit s"
  shows "\<exists>s'. pt_map_entry pt s x = Inr s'"
proof -
  have "card (req_tables x - table_paths (root_ppn pt) s) \<le> card (req_tables x)"
    by (rule card_mono) (auto simp: req_tables_def)
  also have "\<dots> \<le> 2"
    by (auto simp: req_tables_def card_insert_if)
  finally show ?thesis
    using assms by (intro ptm.mp_progress) auto
qed

theorem pt_map_translate_witness:
  "\<exists>pt s s'. page_table_new demo_mm = (Some pt, s) \<and>
     pt_map s pt 0x400123 0x80500000 (PTE_R OR PTE_U) = Inr s' \<and>
     pt_translate (ram s') pt 0x400456 = Some 0x80500456 \<and> pt_translate (ram s') pt 0x401456 = None"
proof -
  obtain pt s where new: "page_table_new demo_mm = (Some pt, s)" "pt_inv s (root_ppn pt)"
    "\<And>k. pt_view (root_ppn pt) s k = None" "frames_used s + 1000 \<le> frames_limit s"
    using demo_new_pt by metis
  then obtain s' where run: "pt_map s pt 0x400123 0x80500000 (PTE_R OR PTE_U) = Inr s'"
    using demo_map_entry [of s pt "(0x400123, 0x80500000, PTE_R OR PTE_U)"]
    by (auto simp: pt_map_as_entry)
  have fl: "PTE_R OR PTE_U < 256" by (simp add: pte_flag_defs)
  have "same_vpage 0x400123 0x400456" "\<not> same_vpage 0x400123 0x401456"
    by (simp_all add: same_vpage_def vpn_indices_def)
  moreover have "pt_translate (ram s) pt 0x401456 = None"
    by (simp add: pt_translate_view new(3))
  ultimately have "pt_translate (ram s') pt 0x400456 = Some 0x80500456"
    "pt_translate (ram s') pt 0x401456 = None"
    using pt_map_translate [OF new(2) fl run] by simp_all
  with new(1) run show ?thesis by blast
qed

text \<open>
  C28.  The outcome of \<open>map\<close> is decided by the page and the free frames: it panics for
  lack of memory exactly when the missing page tables do not fit below the end of RAM, panics
  with a remap exactly when the page is already mapped, and otherwise succeeds and takes
  exactly the missing tables' frames.
\<close>

theorem pt_map_outcome:
  assumes "pt_inv s (root_ppn pt)"
  shows "let need = card (req_tables (va, pa, flags) - table_paths (root_ppn pt) s) in
    (case pt_map s pt va pa flags of
       Inl e \<Rightarrow>
         (if pt_translate (ram s) pt va \<noteq> None then e = Panic ''remap''
          else e = Panic ''out of memory mapping page'' \<and> frames_limit s < frames_used s + need)
     | Inr s' \<Rightarrow> pt_translate (ram s) pt va = None \<and> frames_used s + need \<le> frames_limit s \<and>
         frames_used s' = frames_used s + need)"
proof -
  let ?x = "(va, pa, flags)"
  have key: "pt_translate (ram s) pt va = None \<longleftrightarrow> pt_view (root_ppn pt) s (req_key ?x) = None"
    by (simp add: pt_translate_view req_key_def)
  show ?thesis
  proof (cases rule: pt_map_entry_cases [OF assms, of ?x])
    case 1
    have "frames_used s \<le> frames_limit s"
      using assms by (auto simp: pt_inv_def intro: frames_ok_used)
    with 1(2) have "card (req_tables ?x - table_paths (root_ppn pt) s) \<noteq> 0"
      by linarith
    then have "pt_view (root_ppn pt) s (req_key ?x) = None"
      using view_tables [of "root_ppn pt" s ?x] by (metis Diff_eq_empty_iff card.empty)
    then show ?thesis
      using 1 by (auto simp: pt_map_as_entry key Let_def)
  next
    case 2
    then show ?thesis
      by (auto simp: pt_map_as_entry key Let_def)
  next
    case (3 s')
    then show ?thesis
      using ptm.mp_inv [OF assms 3(1)]
      by (auto simp: pt_map_as_entry key Let_def)
  qed
qed

theorem pt_map_outcome_witness:
  "\<exists>pt s s'. page_table_new demo_mm = (Some pt, s) \<and> pt_map s pt 0x400000 0x80500000 PTE_R = Inr s' \<and>
     frames_used s' = frames_used s + 2 \<and>
     (case pt_map s' pt 0x400fff 0x80600000 PTE_R of Inl e \<Rightarrow> e = Panic ''remap'' | Inr _ \<Rightarrow> False)"
proof -
  obtain pt s where new: "page_table_new demo_mm = (Some pt, s)" "pt_inv s (root_ppn pt)"
    "table_paths (root_ppn pt) s = {[]}" "\<And>k. pt_view (root_ppn pt) s k = None"
    "frames_used s + 1000 \<le> frames_limit s"
    using demo_new_pt by metis
  then obtain s' where run: "pt_map s pt 0x400000 0x80500000 PTE_R = Inr s'"
    using demo_map_entry [of s pt "(0x400000, 0x80500000, PTE_R)"]
    by (auto simp: pt_map_as_entry)
  have "card (req_tables (0x400000, 0x80500000, PTE_R) - {[]}) = 2"
    by (simp add: req_tables_def req_key_def vpn_indices_def numeral_2_eq_2)
  then have used: "frames_used s' = frames_used s + 2"
    using pt_map_outcome [OF new(2), of "0x400000" "0x80500000" PTE_R]
    by (simp add: run new(3))
  have "pt_inv s' (root_ppn pt)" and v: "pt_view (root_ppn pt) s' (vpn_indices 0x400) \<noteq> None"
    using ptm.mp_inv [OF new(2) run [unfolded pt_map_as_entry]]
      ptm.mp_view [OF new(2) run [unfolded pt_map_as_entry]] by (simp_all add: req_key_def)
  then have "case pt_map s' pt 0x400fff 0x80600000 PTE_R of Inl e \<Rightarrow> e = Panic ''remap'' | Inr _ \<Rightarrow> False"
    using pt_map_outcome [of s' pt "0x400fff" "0x80600000" PTE_R]
    by (auto simp: Let_def pt_translate_view split: sum.splits)
  with new(1) run used show ?thesis by blast
qed

lemma pt_unmap_view:
  assumes "pt_inv s (root_ppn pt)"
  shows "pt_view (root_ppn pt) (pt_unmap s pt va) ks =
    (if ks = vpn_indices (drop_bit 12 va) then None else pt_view (root_ppn pt) s ks)"
proof -
  obtain i j k where idx: "vpn_indices (drop_bit 12 va) = [i, j, k]" by (rule vpn_indices_cases)
  show ?thesis
  proof (cases "ks \<in> range vpn_indices")
    case True
    then obtain a b c where ks: "ks = [a, b, c]" "a < 512" "b < 512" "c < 512"
      by (auto simp: range_vpn_indices)
    show ?thesis
      using True pt_unmap_lookup(2) [OF assms refl idx ks(2-4)] by (simp add: pt_view_def idx ks(1))
  qed (simp add: pt_view_def)
qed

text \<open>
  C38.  After \<open>unmap\<close> no address of the page translates, every other page translates as
  before, and no frame is taken or released.
\<close>

theorem pt_unmap_translate:
  assumes "pt_inv s (root_ppn pt)"
  shows "pt_inv (pt_unmap s pt va) (root_ppn pt) \<and> page_alloc (pt_unmap s pt va) = page_alloc s \<and>
    (\<forall>va'. pt_translate (ram (pt_unmap s pt va)) pt va' =
       (if same_vpage va va' then None else pt_translate (ram s) pt va'))"
proof -
  obtain i j k where idx: "vpn_indices (drop_bit 12 va) = [i, j, k]" by (rule vpn_indices_cases)
  have "pt_inv (pt_unmap s pt va) (root_ppn pt)"
    by (rule pt_evolves_inv [OF pt_unmap_lookup(1) [OF assms refl idx]])
  moreover have "pt_translate (ram (pt_unmap s pt va)) pt va' =
      (if same_vpage va va' then None else pt_translate (ram s) pt va')" for va'
    unfolding same_vpage_def pt_translate_view pt_unmap_view [OF assms] by simp
  ultimately show ?thesis
    using pt_unmap_lookup(3) [OF assms refl idx] by blast
qed

theorem pt_unmap_translate_witness:
  "\<exists>pt s s'. page_table_new demo_mm = (Some pt, s) \<and> pt_map s pt 0x400000 0x80500000 PTE_R = Inr s' \<and>
     pt_translate (ram s') pt 0x400010 \<noteq> None \<and>
     pt_translate (ram (pt_unmap s' pt 0x400000)) pt 0x400010 = None"
proof -
  obtain pt s where new: "page_table_new demo_mm = (Some pt, s)" "pt_inv s (root_ppn pt)"
    "\<And>k. pt_view (root_ppn pt) s k = None" "frames_used s + 1000 \<le> frames_limit s"
    using demo_new_pt by metis
  then obtain s' where run: "pt_map s pt 0x400000 0x80500000 PTE_R = Inr s'"
    using demo_map_entry [of s pt "(0x400000, 0x80500000, PTE_R)"]
    by (auto simp: pt_map_as_entry)
  have inv: "pt_inv s' (root_ppn pt)" and v: "pt_view (root_ppn pt) s' (vpn_indices 0x400) \<noteq> None"
    using ptm.mp_inv [OF new(2) run [unfolded pt_map_as_entry]]
      ptm.mp_view [OF new(2) run [unfolded pt_map_as_entry]] by (simp_all add: req_key_def)
  have "pt_translate (ram (pt_unmap s' pt 0x400000)) pt 0x400010 = None"
    using pt_unmap_translate [OF inv, of "0x400000"] by (simp add: same_vpage_def)
  moreover have "pt_translate (ram s') pt 0x400010 \<noteq> None"
    using v by (simp add: pt_translate_view)
  ultimately show ?thesis
    using new(1) run by blast
qed

text \<open>
  C22.  Mapping a page in one address space leaves every other address space untouched: a
  page table on other frames keeps its invariant, its frames stay separate from the growing
  table's, and every address translates as before.
\<close>

theorem pt_map_isolation:
  assumes "pt_inv s (root_ppn pt)" "pt_map s pt va pa flags = Inr s'" "pt_inv s (root_ppn other)"
    and "pt_tables (ram s) (root_ppn other) \<inter> pt_tables (ram s) (root_ppn pt) = {}"
  shows "pt_inv s' (root_ppn other) \<and>
    pt_tables (ram s') (root_ppn other) \<inter> pt_tables (ram s') (root_ppn pt) = {} \<and>
    (\<forall>va'. pt_translate (ram s') other va' = pt_translate (ram s) other va')"
proof -
  have ev: "pt_evolves (root_ppn pt) s s'"
    using assms(2) by (cases rule: pt_map_entry_cases [OF assms(1), of "(va, pa, flags)"])
      (simp_all add: pt_map_as_entry)
  note o = pt_evolves_other [OF ev assms(3,4)]
  have "pt_translate (ram s') other va' = pt_translate (ram s) other va'" for va'
    by (rule vpn_indices_cases [of "drop_bit 12 va'"]) (simp add: pt_translate_lookup o(4))
  with o(1,3) show ?thesis by blast
qed

theorem pt_map_isolation_witness:
  "\<exists>pt s pt' t t'. page_table_new demo_mm = (Some pt, s) \<and> page_table_new s = (Some pt', t) \<and>
     pt_map t pt 0x400000 0x80500000 PTE_R = Inr t' \<and> pt_inv t' (root_ppn pt') \<and>
     pt_translate (ram t') pt' 0x400000 = None"
proof -
  obtain pt s where new: "page_table_new demo_mm = (Some pt, s)" "pt_inv s (root_ppn pt)"
    "table_paths (root_ppn pt) s = {[]}" "\<And>k. pt_view (root_ppn pt) s k = None"
    "frames_used s + 1000 \<le> frames_limit s"
    using demo_new_pt by metis
  have fok: "frames_ok s" using new(2) by (simp add: pt_inv_def)
  obtain pt' t where other: "page_table_new s = (Some pt', t)" "pt_inv t (root_ppn pt')"
    "\<not> allocated s (root_ppn pt')" "pt_tables (ram t) (root_ppn pt') = {root_ppn pt'}"
    "\<And>k. pt_view (root_ppn pt') t k = None" "frames_used t = frames_used s + 1"
    "frames_limit t = frames_limit s" "\<And>a. allocated s (drop_bit 12 a) \<Longrightarrow> ram t a = ram s a"
    "pg_current (page_alloc s) \<le> pg_current (page_alloc t)"
    by (cases rule: page_table_new_cases [OF fok]) (use new(5) in auto)
  have "frames_ok t" and mem: "\<forall>a. allocated s (drop_bit 12 a) \<longrightarrow> ram t a = ram s a"
    using other(2,8) by (simp_all add: pt_inv_def)
  note st = pt_stable [OF new(2) \<open>frames_ok t\<close> other(9) mem]
  obtain t' where run: "pt_map t pt 0x400000 0x80500000 PTE_R = Inr t'"
    using demo_map_entry [OF st(1), of "(0x400000, 0x80500000, PTE_R)"] other(6,7) new(4,5) st(3)
    by (auto simp: pt_map_as_entry)
  have "root_ppn pt' \<notin> pt_tables (ram t) (root_ppn pt)"
    using other(3) new(2) by (auto simp: pt_inv_def st(2))
  then have "pt_tables (ram t) (root_ppn pt') \<inter> pt_tables (ram t) (root_ppn pt) = {}"
    by (simp add: other(4))
  moreover have "pt_translate (ram t) pt' 0x400000 = None"
    using other(5) by (simp add: pt_translate_view)
  ultimately have "pt_inv t' (root_ppn pt') \<and> pt_translate (ram t') pt' 0x400000 = None"
    using pt_map_isolation [OF st(1) run other(2)] by simp
  with new(1) other(1) run show ?thesis by blast
qed

lemma test_page_fresh:
  "kernel_view (req_key (0x100000, pa, fl)) = None"
  "req_tables (0x100000, pa, fl) - insert [] kernel_tables = {[0, 0]}"
proof -
  have key: "req_key (0x100000, pa, fl) = digits 0x100"
    by (simp add: req_key_def vpn_indices_digits)
  have "set kernel_vpns \<subseteq> {..<2 ^ 27}" "(0x100 :: nat) \<notin> set kernel_vpns"
    by (auto simp: kernel_vpns_set)
  then have "digits 0x100 \<notin> digits ` set kernel_vpns"
    by (subst inj_on_image_mem_iff [OF digits_inj]) auto
  then show "kernel_view (req_key (0x100000, pa, fl)) = None"
    by (simp add: key kernel_view_dom)
  have "[0, 0] \<notin> kernel_tables" "[0] \<in> kernel_tables"
    by (auto simp: kernel_tables_def)
  moreover have "digits 0x100 = [0, 0, 0x100]"
    by (simp add: digits_def)
  then have "req_tables (0x100000, pa, fl) = {[0], [0, 0]}"
    by (simp add: req_tables_def key numeral_2_eq_2)
  ultimately show "req_tables (0x100000, pa, fl) - insert [] kernel_tables = {[0, 0]}"
    by auto
qed

lemma test_page_key:
  assumes "va < 2 ^ 39"
  shows "vpn_indices (drop_bit 12 va) = req_key (0x100000, pa, fl) \<longleftrightarrow> 0x100000 \<le> va \<and> va < 0x101000"
proof -
  have lt: "unat va div 4096 \<in> {..<2 ^ 27}"
    using assms by (simp add: word_less_nat_alt less_mult_imp_div_less)
  have "vpn_indices (drop_bit 12 va) = req_key (0x100000, pa, fl) \<longleftrightarrow>
      digits (unat va div 4096) = digits 0x100"
    by (simp add: req_key_def vpn_indices_digits unat_drop_bit_12)
  also have "\<dots> \<longleftrightarrow> unat va div 4096 = 0x100"
    using lt by (auto dest: inj_onD [OF digits_inj])
  also have "\<dots> \<longleftrightarrow> 0x100 * 4096 \<le> unat va \<and> unat va < 0x101 * 4096"
    by (subst less_eq_div_iff_mult_less_eq [symmetric], simp,
        subst div_less_iff_less_mult [symmetric], simp) auto
  finally show ?thesis
    by (simp add: word_le_nat_alt word_less_nat_alt)
qed

text \<open>The kernel's table with the page of the test device added.\<close>

lemma kernel_table_translate:
  fixes pt :: page_table
  defines "x \<equiv> (0x100000, 0x100000, PTE_R OR PTE_W) :: mapping_req"
  assumes view: "\<And>k. pt_view (root_ppn pt) v k = (if k = req_key x then Some (req_entry x) else kernel_view k)"
    and va: "va < 2 ^ 39"
  shows "pt_translate (ram v) pt va =
    (if identity_mapped va \<or> 0x100000 \<le> va \<and> va < 0x101000 then Some va else None)"
proof (cases "0x100000 \<le> va \<and> va < 0x101000")
  case True
  then have "drop_bit 12 va = 0x100"
    by (intro word_eq_unatI) (auto simp: unat_drop_bit_12 word_le_nat_alt word_less_nat_alt
        intro!: div_nat_eqI)
  moreover have "pte_ppn (req_entry x) = 0x100"
    unfolding x_def by (subst req_entry_fields(1)) (simp_all add: pte_flag_defs)
  ultimately show ?thesis
    using True page_of_address [of va] by (simp add: pt_translate_view view req_key_def x_def)
next
  case False
  then have ne: "vpn_indices (drop_bit 12 va) \<noteq> req_key x"
    using test_page_key [OF va] unfolding x_def by blast
  show ?thesis
    unfolding pt_translate_view view if_not_P [OF ne] kernel_view_translate [OF va]
      identity_mapped_vpns using False by auto
qed

text \<open>The test device is the last page of the kernel's table; it takes one more table.\<close>

lemma test_page_mapped:
  fixes pt :: page_table
  assumes inv: "pt_inv u (root_ppn pt)" and view: "\<And>k. pt_view (root_ppn pt) u k = kernel_view k"
    and tables: "table_paths (root_ppn pt) u = insert [] kernel_tables"
  shows "if frames_used u + 1 \<le> frames_limit u
    then \<exists>v. pt_map u pt 0x100000 0x100000 (PTE_R OR PTE_W) = Inr v \<and> pt_inv v (root_ppn pt) \<and>
      frames_used v = frames_used u + 1 \<and>
      (\<forall>va < 2 ^ 39. pt_translate (ram v) pt va =
         (if identity_mapped va \<or> 0x100000 \<le> va \<and> va < 0x101000 then Some va else None))
    else \<exists>e. pt_map u pt 0x100000 0x100000 (PTE_R OR PTE_W) = Inl e"
proof -
  let ?x = "(0x100000, 0x100000, PTE_R OR PTE_W) :: mapping_req"
  have need: "card (req_tables ?x - table_paths (root_ppn pt) u) = 1"
    by (simp add: tables test_page_fresh(2))
  have new: "pt_view (root_ppn pt) u (req_key ?x) = None"
    by (simp add: view test_page_fresh(1))
  show ?thesis
  proof (cases rule: pt_map_entry_cases [OF inv, of ?x])
    case 1
    then show ?thesis using need by (simp add: pt_map_as_entry)
  next
    case 2
    with new show ?thesis by blast
  next
    case (3 v)
    have "pt_translate (ram v) pt va =
        (if identity_mapped va \<or> 0x100000 \<le> va \<and> va < 0x101000 then Some va else None)" if "va < 2 ^ 39" for va
      using that 3(4) view by (intro kernel_table_translate) simp_all
    then show ?thesis
      using 3 need ptm.mp_inv [OF inv 3(1)] by (auto simp: pt_map_as_entry)
  qed
qed

text \<open>
  C29.  \<open>init_kernel_page_table\<close> needs exactly 70 frames: with that many free it returns,
  takes exactly those, records the root, and below \<^verbatim>\<open>2^39\<close> the new table translates each
  kernel, UART, virtio, PLIC and test-device address to itself and nothing else; with fewer
  free frames it panics.
\<close>

theorem init_kernel_page_table_correct:
  assumes fok: "frames_ok s"
  shows "if frames_used s + 70 \<le> frames_limit s
    then \<exists>pt s'. init_kernel_page_table s = Inr (satp_of pt, s') \<and>
      kernel_page_table s' = Some (root_ppn pt) \<and> pt_inv s' (root_ppn pt) \<and>
      frames_used s' = frames_used s + 70 \<and>
      (\<forall>va < 2 ^ 39. pt_translate (ram s') pt va =
         (if identity_mapped va \<or> 0x100000 \<le> va \<and> va < 0x101000 then Some va else None))
    else \<exists>e. init_kernel_page_table s = Inl e"
proof (cases rule: page_table_new_cases [OF fok])
  case 1
  then show ?thesis by (simp add: init_kernel_page_table_def)
next
  case (2 pt t)
  show ?thesis
  proof (cases "frames_used s + 69 \<le> frames_limit s")
    case False
    then obtain e where "map_kernel_regions t pt = Inl e"
      using map_kernel_regions_fail [OF 2(2,4)] 2(7,8) by auto
    then show ?thesis using 2(1) False by (simp add: init_kernel_page_table_def)
  next
    case True
    then have room: "frames_used t + 68 \<le> frames_limit t" using 2(7,8) by simp
    obtain u where u: "map_kernel_regions t pt = Inr u" "pt_evolves (root_ppn pt) t u"
      "\<And>k. pt_view (root_ppn pt) u k = kernel_view k"
      "table_paths (root_ppn pt) u = insert [] kernel_tables"
      "frames_used u = frames_used t + 68" "frames_limit u = frames_limit t"
      using map_kernel_regions_ok [OF 2(2,4,6) room] by blast
    have kpt: "pt_inv (v\<lparr>kernel_page_table := x\<rparr>) r = pt_inv v r" "frames_used (v\<lparr>kernel_page_table := x\<rparr>) = frames_used v" for v x r
      by (simp_all add: pt_inv_def frames_ok_def allocated_def frames_used_def)
    show ?thesis
      using test_page_mapped [OF pt_evolves_inv [OF u(2)] u(3,4)] 2(1,7,8) u(1,5,6)
      by (auto simp: init_kernel_page_table_def kpt split: if_splits)
  qed
qed

theorem init_kernel_page_table_correct_witness:
  "\<exists>pt s'. init_kernel_page_table demo_mm = Inr (satp_of pt, s') \<and>
     frames_used s' = frames_used demo_mm + 70 \<and>
     pt_translate (ram s') pt 0x80201234 = Some 0x80201234 \<and> pt_translate (ram s') pt 0x400000 = None"
proof -
  have ok: "frames_ok demo_mm" by (simp add: frames_ok_def demo_mm_def)
  have "frames_used demo_mm + 70 \<le> frames_limit demo_mm"
    by (simp add: frames_used_def frames_limit_def demo_mm_def)
  with init_kernel_page_table_correct [OF ok] obtain pt s' where
    "init_kernel_page_table demo_mm = Inr (satp_of pt, s')"
    "frames_used s' = frames_used demo_mm + 70"
    and tr: "\<And>va. va < 2 ^ 39 \<Longrightarrow> pt_translate (ram s') pt va =
         (if identity_mapped va \<or> 0x100000 \<le> va \<and> va < 0x101000 then Some va else None)"
    by auto
  moreover have "pt_translate (ram s') pt 0x80201234 = Some 0x80201234"
    "pt_translate (ram s') pt 0x400000 = None"
    by (subst tr; simp add: identity_mapped_def)+
  ultimately show ?thesis by blast
qed

text \<open>
  A page-table entry is a faithful encoding: a frame number of up to 44 bits of physical
  page number (any below \<^verbatim>\<open>2^54\<close>) and any eight flag bits are recovered from it.
\<close>

theorem pte_roundtrip:
  assumes "unat ppn < 2 ^ 54" "flags < 256"
  shows "pte_ppn (pte_new ppn flags) = ppn \<and> pte_flags_of (pte_new ppn flags) = flags \<and>
    (pte_is_valid (pte_new ppn flags) \<longleftrightarrow> flags_contain flags PTE_V)"
proof -
  have "flags < 1024" using assms(2) by (rule less_trans) simp
  then show ?thesis
    using pte_ppn_new [OF assms(1)] pte_flags_new [OF assms(2)] by (simp add: pte_is_valid_def)
qed

theorem pte_roundtrip_witness:
  "pte_new 0x80400 0xd7 = 0x201000d7 \<and> pte_ppn 0x201000d7 = 0x80400 \<and> pte_flags_of 0x201000d7 = 0xd7"
proof -
  have "pte_new 0x80400 0xd7 = 0x201000d7" by (simp add: pte_new_def)
  with pte_roundtrip [of "0x80400" "0xd7"] show ?thesis by simp
qed

end
