(* ===== verification/Clone_Space.thy ===== *)
theory Clone_Space
  imports Address_Space
begin

text \<open>
  \<^verbatim>\<open>PageTable::clone_user_space\<close> of \<^verbatim>\<open>src/src/mm.rs\<close>, the memory half of \<^verbatim>\<open>fork\<close>: a new
  page table with the kernel's identity mapping and a private copy of every user page.  The
  three nested loops are verified with one invariant, \<open>clone_inv\<close>, indexed by the set of
  user pages already copied.
\<close>

section \<open>The operation\<close>

definition table_indices :: "usize list" where
  "table_indices = map of_nat [0..<512]"

definition clone_copy :: "page_table \<Rightarrow> mm_state \<Rightarrow> usize \<Rightarrow> usize \<Rightarrow> pte_flags \<Rightarrow> mm_state flow res" where
  "clone_copy new_pt s va old_pa flags =
     (case alloc_page s of
        (None, s) \<Rightarrow> Inr (Return s)
      | (Some new_pa, s) \<Rightarrow>
          (let s = s\<lparr>ram := copy_nonoverlapping (ram s) old_pa new_pa 4096\<rparr>
           in res_bind (pt_map s new_pt va new_pa flags) (\<lambda>s. Inr (Next s))))"

definition clone_page :: "page_table \<Rightarrow> usize \<Rightarrow> usize \<Rightarrow> usize \<Rightarrow> mm_state \<Rightarrow> usize \<Rightarrow> mm_state flow res" where
  "clone_page new_pt i j ppn1 s k =
     (let pte2 = load_u64 (ram s) (slot ppn1 k) in
      if \<not> pte_is_valid pte2 then Inr (Next s)
      else let flags = pte_flags_of pte2 in
      if \<not> flags_contain flags PTE_U then Inr (Next s)
      else
        (let va = push_bit 12 (vpn_join i j k);
             old_pa = push_bit 12 (pte_ppn pte2)
         in clone_copy new_pt s va old_pa flags))"

definition clone_table :: "page_table \<Rightarrow> usize \<Rightarrow> usize \<Rightarrow> mm_state \<Rightarrow> usize \<Rightarrow> mm_state flow res" where
  "clone_table new_pt i ppn0 s j =
     (let pte1 = load_u64 (ram s) (slot ppn0 j) in
      if \<not> pte_is_valid pte1 then Inr (Next s)
      else flow_fold (clone_page new_pt i j (pte_ppn pte1)) s table_indices)"

definition clone_dir :: "page_table \<Rightarrow> usize \<Rightarrow> mm_state \<Rightarrow> usize \<Rightarrow> mm_state flow res" where
  "clone_dir new_pt root s i =
     (let pte0 = load_u64 (ram s) (slot root i) in
      if \<not> pte_is_valid pte0 then Inr (Next s)
      else flow_fold (clone_table new_pt i (pte_ppn pte0)) s table_indices)"

definition clone_user_space :: "mm_state \<Rightarrow> page_table \<Rightarrow> (page_table option \<times> mm_state) res" where
  "clone_user_space s pt =
     (case page_table_new s of
        (None, s) \<Rightarrow> Inr (None, s)
      | (Some new_pt, s) \<Rightarrow>
          res_bind (map_kernel_regions s new_pt) (\<lambda>s.
          res_bind (flow_fold (clone_dir new_pt (root_ppn pt)) s table_indices) (\<lambda>r.
          case r of
            Return s \<Rightarrow> Inr (None, s)
          | Next s \<Rightarrow> Inr (Some new_pt, s))))"

section \<open>The loop invariant\<close>

definition user_entry :: "usize \<Rightarrow> bool" where
  "user_entry e \<longleftrightarrow> flags_contain (pte_flags_of e) PTE_U"

definition user_pages :: "usize \<Rightarrow> mm_state \<Rightarrow> usize list set" where
  "user_pages r s = {ks. \<exists>e. pt_view r s ks = Some e \<and> user_entry e}"

text \<open>
  A process address space: its user pages lie on allocated frames and outside the kernel's
  regions.
\<close>

definition space_ok :: "mm_state \<Rightarrow> usize \<Rightarrow> bool" where
  "space_ok s r \<longleftrightarrow> pt_inv s r \<and>
     (\<forall>ks e. pt_view r s ks = Some e \<longrightarrow> user_entry e \<longrightarrow> allocated s (pte_ppn e) \<and> kernel_view ks = None)"

definition page_copied :: "memory \<Rightarrow> usize \<Rightarrow> memory \<Rightarrow> usize \<Rightarrow> bool" where
  "page_copied m p m' q \<longleftrightarrow> (\<forall>off < 4096. m' (push_bit 12 q + off) = m (push_bit 12 p + off))"

definition clone_frame :: "usize \<Rightarrow> mm_state \<Rightarrow> usize list \<Rightarrow> usize" where
  "clone_frame q t ks = pte_ppn (the (pt_view q t ks))"

definition clone_of :: "mm_state \<Rightarrow> usize \<Rightarrow> mm_state \<Rightarrow> usize \<Rightarrow> usize list \<Rightarrow> bool" where
  "clone_of s0 r t q ks \<longleftrightarrow>
     (let e = the (pt_view r s0 ks); f = clone_frame q t ks in
      pt_view q t ks = Some (pte_new f (pte_flags_of e OR PTE_V OR PTE_A OR PTE_D)) \<and>
      \<not> allocated s0 f \<and> allocated t f \<and> f \<notin> pt_tables (ram t) q \<and>
      page_copied (ram s0) (pte_ppn e) (ram t) f)"

definition clone_inv :: "mm_state \<Rightarrow> usize \<Rightarrow> usize \<Rightarrow> usize list set \<Rightarrow> mm_state \<Rightarrow> bool" where
  "clone_inv s0 r q D t \<longleftrightarrow>
     pt_inv t q \<and> frames_limit t = frames_limit s0 \<and> pg_current (page_alloc s0) \<le> pg_current (page_alloc t) \<and>
     heap_alloc t = heap_alloc s0 \<and> kernel_page_table t = kernel_page_table s0 \<and>
     (\<forall>a. allocated s0 (drop_bit 12 a) \<longrightarrow> ram t a = ram s0 a) \<and>
     (\<forall>p \<in> pt_tables (ram t) q. \<not> allocated s0 p) \<and>
     (\<forall>ks. ks \<notin> D \<longrightarrow> pt_view q t ks = kernel_view ks) \<and>
     (\<forall>ks \<in> D. clone_of s0 r t q ks) \<and> inj_on (clone_frame q t) D \<and>
     frames_used t \<le> frames_used s0 + 69 + 3 * card D"

lemma clone_inv_parent:
  assumes "clone_inv s0 r q D t" "pt_inv s0 r"
  shows "pt_inv t r" "pt_tables (ram t) r = pt_tables (ram s0) r" "pt_view r t ks = pt_view r s0 ks"
    "js \<in> pt_paths \<Longrightarrow> pt_node (ram t) r js = pt_node (ram s0) r js"
proof -
  have t: "frames_ok t" "pg_current (page_alloc s0) \<le> pg_current (page_alloc t)"
    "\<forall>a. allocated s0 (drop_bit 12 a) \<longrightarrow> ram t a = ram s0 a"
    using assms(1) by (simp_all add: clone_inv_def pt_inv_def)
  note st = pt_stable [OF assms(2) t]
  show "pt_inv t r" "pt_tables (ram t) r = pt_tables (ram s0) r" "pt_view r t ks = pt_view r s0 ks"
    by (rule st)+
  show "js \<in> pt_paths \<Longrightarrow> pt_node (ram t) r js = pt_node (ram s0) r js"
    using assms(2) t(3) by (intro pt_node_cong) (auto simp: pt_inv_def)
qed

lemma finite_user_pages: "finite (user_pages r s)"
proof -
  have "user_pages r s \<subseteq> {xs. set xs \<subseteq> UNIV \<and> length xs \<le> 3}"
    by (auto simp: user_pages_def pt_view_def range_vpn_indices split: if_splits)
  then show ?thesis
    by (rule finite_subset) (rule finite_lists_length_le, simp)
qed

text \<open>Filling a fresh frame does not disturb the clone under construction.\<close>

lemma page_copied_same:
  assumes "page_copied m p m1 q" "frame_ok q" "\<And>a. drop_bit 12 a = q \<Longrightarrow> m2 a = m1 a"
  shows "page_copied m p m2 q"
  unfolding page_copied_def
proof (intro allI impI)
  fix off :: usize assume off: "off < 4096"
  then have "drop_bit 12 (push_bit 12 q + off) = q"
    using in_page_iff [OF assms(2), of "push_bit 12 q + off"] by simp
  with assms(1,3) off show "m2 (push_bit 12 q + off) = m (push_bit 12 p + off)"
    by (simp add: page_copied_def)
qed

lemma clone_of_mono:
  assumes c: "clone_of s0 r t q ks" and view: "pt_view q u ks = pt_view q t ks"
    and al: "\<forall>p. allocated t p \<longrightarrow> allocated u p"
    and tabs: "\<forall>p \<in> pt_tables (ram u) q. allocated t p \<longrightarrow> p \<in> pt_tables (ram t) q"
    and mem: "\<forall>a. allocated t (drop_bit 12 a) \<longrightarrow> drop_bit 12 a \<notin> pt_tables (ram t) q \<longrightarrow> ram u a = ram t a"
  shows "clone_of s0 r u q ks" "clone_frame q u ks = clone_frame q t ks"
proof -
  let ?f = "clone_frame q t ks"
  show f: "clone_frame q u ks = ?f"
    by (simp add: clone_frame_def view)
  have al_f: "allocated t ?f" "?f \<notin> pt_tables (ram t) q"
    "page_copied (ram s0) (pte_ppn (the (pt_view r s0 ks))) (ram t) ?f"
    using c by (simp_all add: clone_of_def Let_def)
  have "page_copied (ram s0) (pte_ppn (the (pt_view r s0 ks))) (ram u) ?f"
    by (rule page_copied_same [OF al_f(3) allocated_frame_ok [OF al_f(1)]]) (use mem al_f in simp)
  moreover have "allocated u ?f" "?f \<notin> pt_tables (ram u) q"
    using al tabs al_f by blast+
  ultimately show "clone_of s0 r u q ks"
    using c by (simp add: clone_of_def Let_def f view)
qed

text \<open>The frame taken and filled, before it is mapped.\<close>

lemma clone_fill:
  assumes inv: "clone_inv s0 r q D t" and src: "allocated s0 p"
    and al: "alloc_page t = (Some (push_bit 12 f), u)" and f: "frame_ok f" "\<not> allocated t f"
    and u: "frames_ok u" "ram u = write_bytes (ram t) (push_bit 12 f) 0 4096"
      "\<forall>x. allocated u x \<longleftrightarrow> allocated t x \<or> x = f"
      "pg_current (page_alloc t) \<le> pg_current (page_alloc u)"
    and v: "v = u\<lparr>ram := copy_nonoverlapping (ram u) (push_bit 12 p) (push_bit 12 f) 4096\<rparr>"
  shows "pt_inv v q" "pt_tables (ram v) q = pt_tables (ram t) q" "pt_view q v ks = pt_view q t ks"
    "\<forall>a. allocated t (drop_bit 12 a) \<longrightarrow> ram v a = ram t a"
    "page_copied (ram s0) p (ram v) f" "f \<notin> pt_tables (ram v) q"
proof -
  have ti: "pt_inv t q" "\<forall>a. allocated s0 (drop_bit 12 a) \<longrightarrow> ram t a = ram s0 a"
    "pg_current (page_alloc s0) \<le> pg_current (page_alloc t)"
    using inv by (simp_all add: clone_inv_def)
  have sep: "drop_bit 12 a \<noteq> f" if "allocated t (drop_bit 12 a)" for a
    using that f(2) by auto
  show mem: "\<forall>a. allocated t (drop_bit 12 a) \<longrightarrow> ram v a = ram t a"
    using sep f(1) by (simp add: v u(2) copy_page write_bytes_page)
  have fok: "frames_ok v" and cur: "pg_current (page_alloc t) \<le> pg_current (page_alloc v)"
    using u(1,4) by (simp_all add: v frames_ok_def)
  note st = pt_stable [OF ti(1) fok cur mem]
  show "pt_inv v q" by (rule st(1))
  show tabs: "pt_tables (ram v) q = pt_tables (ram t) q" by (rule st(2))
  show "pt_view q v ks = pt_view q t ks" by (rule st(3))
  show "f \<notin> pt_tables (ram v) q"
    unfolding tabs using ti(1) f(2) by (auto simp: pt_inv_def)
  show "page_copied (ram s0) p (ram v) f"
    unfolding page_copied_def
  proof (intro allI impI)
    fix off :: usize assume off: "off < 4096"
    have "drop_bit 12 (push_bit 12 f + off) = f" "drop_bit 12 (push_bit 12 p + off) = p"
      using off in_page_iff [OF f(1), of "push_bit 12 f + off"]
        in_page_iff [OF allocated_frame_ok [OF src], of "push_bit 12 p + off"] by simp_all
    moreover have "p \<noteq> f"
      using src f(2) allocated_mono [OF ti(3)] by blast
    ultimately show "ram v (push_bit 12 f + off) = ram s0 (push_bit 12 p + off)"
      using src ti(2) f(1) by (simp add: v u(2) copy_page write_bytes_page)
  qed
qed

lemma card_req_tables: "card (req_tables x - T) \<le> 2"
proof -
  have "card (req_tables x - T) \<le> card (req_tables x)"
    by (rule card_mono) (auto simp: req_tables_def)
  also have "\<dots> \<le> 2"
    by (auto simp: req_tables_def card_insert_if)
  finally show ?thesis .
qed

lemma pte_flags_less: "pte_flags_of e < 256"
proof -
  have "all_pte_flags = 255"
    by (simp add: all_pte_flags_def pte_flag_defs)
  then have "pte_flags_of e \<le> 255"
    by (simp add: pte_flags_of_def word_and_le1)
  then show ?thesis
    by (simp add: word_le_nat_alt word_less_nat_alt)
qed

lemma drop_push_frame: "frame_ok f \<Longrightarrow> drop_bit 12 (push_bit 12 f) = f"
  by (intro word_eq_unatI) (simp add: unat_drop_bit_12 unat_push_bit_12 frame_ok_def)

text \<open>Mapping the filled frame extends the clone by one page.\<close>

lemma clone_inv_insert:
  assumes inv: "clone_inv s0 r q D t" and ks: "ks \<notin> D" "finite D"
    and f: "frame_ok f" "\<not> allocated t f"
    and v: "pt_tables (ram v) q = pt_tables (ram t) q" "\<forall>ks. pt_view q v ks = pt_view q t ks"
      "\<forall>a. allocated t (drop_bit 12 a) \<longrightarrow> ram v a = ram t a"
      "page_copied (ram s0) (pte_ppn (the (pt_view r s0 ks))) (ram v) f"
      "\<forall>x. allocated v x \<longleftrightarrow> allocated t x \<or> x = f" "f \<notin> pt_tables (ram v) q"
      "pg_current (page_alloc t) \<le> pg_current (page_alloc v)" "pg_end (page_alloc v) = pg_end (page_alloc t)"
      "heap_alloc v = heap_alloc t" "kernel_page_table v = kernel_page_table t"
    and w: "pt_evolves q v w"
      "\<forall>k. pt_view q w k = (if k = ks then Some (pte_new f (pte_flags_of (the (pt_view r s0 ks)) OR PTE_V OR PTE_A OR PTE_D))
         else pt_view q v k)"
      "frames_used w \<le> frames_used t + 3"
  shows "clone_inv s0 r q (insert ks D) w"
proof -
  let ?e = "the (pt_view r s0 ks)"
  note i = inv [unfolded clone_inv_def]
  have al: "allocated s0 x \<Longrightarrow> allocated t x" "allocated v x \<Longrightarrow> allocated w x" for x
    using i allocated_mono [of s0 t] pt_evolves_allocated [OF w(1)] by blast+
  have mem: "\<forall>a. allocated t (drop_bit 12 a) \<longrightarrow> drop_bit 12 a \<notin> pt_tables (ram t) q \<longrightarrow> ram w a = ram t a"
    using pt_evolves_frame [OF w(1)] v(1,3,5) by simp
  have tabs: "\<forall>p \<in> pt_tables (ram w) q. allocated v p \<longrightarrow> p \<in> pt_tables (ram t) q"
    using pt_evolves_tables [OF w(1)] v(1) by blast
  have old: "clone_of s0 r w q k \<and> clone_frame q w k = clone_frame q t k" if "k \<in> D" for k
  proof -
    have "clone_of s0 r t q k" "pt_view q w k = pt_view q t k"
      using i that ks(1) w(2) v(2) by auto
    then show ?thesis
      using clone_of_mono [of s0 r t q k w] al(2) v(5) tabs mem by blast
  qed
  have "pte_flags_of ?e OR PTE_V OR PTE_A OR PTE_D < 1024"
    by (rule less_trans [OF map_flags_less [OF pte_flags_less]]) simp
  then have fr: "clone_frame q w ks = f"
    using w(2) f(1) by (simp add: clone_frame_def pte_ppn_new [OF frame_ok_54])
  have "page_copied (ram s0) (pte_ppn ?e) (ram w) f"
    using v(5,6) pt_evolves_frame [OF w(1)] by (intro page_copied_same [OF v(4) f(1)]) auto
  moreover have "\<not> allocated s0 f" "allocated w f" "f \<notin> pt_tables (ram w) q"
    using f(2) al v(1,5,6) tabs by blast+
  ultimately have new: "clone_of s0 r w q ks"
    using w(2) by (simp add: clone_of_def Let_def fr)
  have ne: "\<forall>k \<in> D. clone_frame q w k \<noteq> f"
    using i old f(2) by (auto simp: clone_of_def Let_def)
  have "inj_on (clone_frame q w) D \<longleftrightarrow> inj_on (clone_frame q t) D"
    using old by (intro inj_on_cong) blast
  then have "inj_on (clone_frame q w) (insert ks D)"
    using i ne fr by (auto simp: inj_on_insert)
  moreover have "\<forall>a. allocated s0 (drop_bit 12 a) \<longrightarrow> ram w a = ram s0 a"
    using i mem al(1) by (metis (no_types))
  moreover have "\<forall>p \<in> pt_tables (ram w) q. \<not> allocated s0 p"
    using i tabs al(1) v(5) by blast
  moreover have "frames_limit w = frames_limit s0" "heap_alloc w = heap_alloc s0"
    "kernel_page_table w = kernel_page_table s0" "pt_inv w q"
    "pg_current (page_alloc s0) \<le> pg_current (page_alloc w)"
    using i v(7-10) w(1) by (auto simp: frames_limit_def pt_evolves_def)
  moreover have "frames_used w \<le> frames_used s0 + 69 + 3 * card (insert ks D)"
    using i w(3) ks by auto
  ultimately show ?thesis
    using old new i w(2) v(2) by (simp add: clone_inv_def)
qed

lemma clone_copy_step:
  assumes sp: "space_ok s0 r" and inv: "clone_inv s0 r (root_ppn pt) D t"
    and D: "finite D" "ks \<notin> D" and e: "pt_view r s0 ks = Some e" "user_entry e"
    and key: "vpn_indices (drop_bit 12 va) = ks"
    and c: "c = clone_copy pt t va (push_bit 12 (pte_ppn e)) (pte_flags_of e)"
  shows "(\<exists>u. c = Inr (Next u) \<and> clone_inv s0 r (root_ppn pt) (insert ks D) u) \<or>
    (\<forall>u. c \<noteq> Inr (Next u)) \<and> frames_limit s0 < frames_used s0 + 69 + 3 * card (insert ks D)"
proof -
  let ?q = "root_ppn pt"
  note i = inv [unfolded clone_inv_def]
  have src: "allocated s0 (pte_ppn e)" "kernel_view ks = None"
    using sp e by (auto simp: space_ok_def)
  have fok: "frames_ok t" using i by (simp add: pt_inv_def)
  have bound: "frames_limit t < frames_used t + 3 \<Longrightarrow>
      frames_limit s0 < frames_used s0 + 69 + 3 * card (insert ks D)"
    using i D by auto
  show ?thesis
  proof (cases rule: alloc_page_frame_cases [OF fok])
    case 1
    then have "c = Inr (Return t)" by (simp add: c clone_copy_def)
    with 1(2) bound show ?thesis by simp
  next
    case (2 u f)
    let ?v = "u\<lparr>ram := copy_nonoverlapping (ram u) (push_bit 12 (pte_ppn e)) (push_bit 12 f) 4096\<rparr>"
    let ?x = "(va, push_bit 12 f, pte_flags_of e) :: mapping_req"
    have al_u: "\<forall>x. allocated u x \<longleftrightarrow> allocated t x \<or> x = f" using 2(6) by blast
    note fill = clone_fill [OF inv src(1) 2(1,3,7,4,5) al_u 2(12) refl]
    have run: "c = res_bind (pt_map_entry pt ?v ?x) (\<lambda>s. Inr (Next s))"
      using 2(1) by (simp add: c clone_copy_def pt_map_as_entry)
    have uv: "frames_used ?v = frames_used t + 1" "frames_limit ?v = frames_limit t"
      using 2(8,9) by (simp_all add: frames_used_def frames_limit_def)
    have kx: "req_key ?x = ks" by (simp add: req_key_def key)
    have ex: "req_entry ?x = pte_new f (pte_flags_of (the (pt_view r s0 ks)) OR PTE_V OR PTE_A OR PTE_D)"
      by (simp add: req_entry_def e(1) drop_push_frame [OF 2(3)])
    have cnt: "card (req_tables ?x - T) \<le> 2" for T by (rule card_req_tables)
    show ?thesis
    proof (cases rule: pt_map_entry_cases [OF fill(1), of ?x])
      case 1
      then show ?thesis
        using bound uv cnt [of "table_paths ?q ?v"] by (simp add: run)
    next
      case 2
      then show ?thesis
        using i D(2) src(2) fill(3) by (simp add: kx)
    next
      case (3 w)
      have al_v: "\<forall>x. allocated ?v x \<longleftrightarrow> allocated t x \<or> x = f"
        using al_u by (simp add: allocated_def)
      have "clone_inv s0 r ?q (insert ks D) w"
      proof (rule clone_inv_insert [OF inv D(2,1) 2(3,7) fill(2) _ fill(4) _ al_v fill(6) _ _ _ _ 3(3)])
        show "\<forall>k. pt_view ?q w k = (if k = ks then Some (pte_new f (pte_flags_of (the (pt_view r s0 ks))
            OR PTE_V OR PTE_A OR PTE_D)) else pt_view ?q ?v k)"
          using 3(4) by (simp add: kx ex)
        show "frames_used w \<le> frames_used t + 3"
          using 3(6) uv cnt [of "table_paths ?q ?v"] by simp
        show "page_copied (ram s0) (pte_ppn (the (pt_view r s0 ks))) (ram ?v) f"
          using fill(5) by (simp add: e(1))
      qed (use fill(3) 2(10-13) in simp_all)
      then show ?thesis using 3(1) by (simp add: run)
    qed
  qed
qed

section \<open>The loops\<close>

definition short_of_frames :: "mm_state \<Rightarrow> usize \<Rightarrow> bool" where
  "short_of_frames s r \<longleftrightarrow> frames_limit s < frames_used s + 69 + 3 * card (user_pages r s)"

lemma short_of_framesI:
  assumes "frames_limit s < frames_used s + 69 + 3 * card D" "D \<subseteq> user_pages r s"
  shows "short_of_frames s r"
  using assms card_mono [OF finite_user_pages assms(2)] by (simp add: short_of_frames_def)

lemma table_indices_set: "set table_indices = {k. k < 512}"
proof -
  have "k \<in> of_nat ` {0..<512}" if "k < 512" for k :: usize
    using that by (intro image_eqI [of _ _ "unat k"]) (simp_all add: word_less_nat_alt)
  moreover have "of_nat n < (512 :: usize)" if "n < 512" for n
    using that by (simp add: word_less_nat_alt unat_of_nat)
  ultimately show ?thesis by (auto simp: table_indices_def)
qed

lemma table_indices_distinct: "distinct table_indices"
proof -
  have "inj_on (of_nat :: nat \<Rightarrow> usize) {0..<512}"
    by (auto intro!: inj_onI simp: word_unat_eq_iff unat_of_nat)
  then show ?thesis by (simp add: table_indices_def distinct_map del: upt_rec_numeral)
qed

text \<open>A position of a loop over all indices.\<close>

lemma table_indices_split:
  assumes "[] @ table_indices = zs @ k # rest"
  shows "k < 512" "k \<notin> set zs"
proof -
  have eq: "table_indices = zs @ k # rest" using assms by simp
  then have "k \<in> set table_indices" by (metis in_set_conv_decomp)
  then show "k < 512" by (simp add: table_indices_set)
  show "k \<notin> set zs" using table_indices_distinct unfolding eq by simp
qed

lemma user_pages_digits:
  "ks \<in> user_pages r s \<Longrightarrow> \<exists>i j k. ks = [i, j, k] \<and> i < 512 \<and> j < 512 \<and> k < 512"
  by (auto simp: user_pages_def pt_view_def range_vpn_indices split: if_splits)

lemma pt_view_at:
  assumes "i < 512" "j < 512" "k < 512" "pt_node (ram s) r [i, j] = Some p"
  shows "pt_view r s [i, j, k] =
    (if pte_is_valid (load_u64 (ram s) (slot p k)) then Some (load_u64 (ram s) (slot p k)) else None)"
proof -
  have "[i, j, k] \<in> range vpn_indices" using assms by (simp add: range_vpn_indices)
  then show ?thesis
    by (simp add: pt_view_def pt_lookup_node assms(4))
qed

lemma clone_page_loop:
  assumes sp: "space_ok s0 r" and inv: "clone_inv s0 r (root_ppn pt) A t"
    and A: "A \<subseteq> user_pages r s0" "\<forall>k. [i, j, k] \<notin> A"
    and ij: "i < 512" "j < 512" and node: "pt_node (ram s0) r [i, j] = Some p"
    and c: "c = flow_fold (clone_page pt i j p) t table_indices"
  shows "(\<exists>u. c = Inr (Next u) \<and>
      clone_inv s0 r (root_ppn pt) (A \<union> {ks \<in> user_pages r s0. \<exists>k. ks = [i, j, k]}) u) \<or>
    (\<forall>u. c \<noteq> Inr (Next u)) \<and> short_of_frames s0 r"
proof -
  let ?q = "root_ppn pt" and ?U = "user_pages r s0"
  let ?D = "\<lambda>zs. A \<union> {ks \<in> ?U. \<exists>k \<in> set zs. ks = [i, j, k]}"
  have pinv: "pt_inv s0 r" using sp by (simp add: space_ok_def)
  have path: "[i, j] \<in> pt_paths" using ij by (simp add: pt_paths_def)
  have "(\<exists>u. flow_fold (clone_page pt i j p) t table_indices = Inr (Next u) \<and>
        clone_inv s0 r ?q (?D ([] @ table_indices)) u) \<or>
    (\<forall>u. flow_fold (clone_page pt i j p) t table_indices \<noteq> Inr (Next u)) \<and> short_of_frames s0 r"
  proof (rule flow_fold_cases)
    show "clone_inv s0 r ?q (?D []) t" using inv by simp
    fix t k zs rest assume pos: "[] @ table_indices = zs @ k # rest" and I: "clone_inv s0 r ?q (?D zs) t"
    note k = table_indices_split [OF pos]
    note par = clone_inv_parent [OF I pinv]
    let ?e = "load_u64 (ram t) (slot p k)"
    have view: "pt_view r s0 [i, j, k] = (if pte_is_valid ?e then Some ?e else None)"
      using pt_view_at [OF ij k(1), of t r p] par(3,4) path node by simp
    show "(\<exists>u. clone_page pt i j p t k = Inr (Next u) \<and> clone_inv s0 r ?q (?D (zs @ [k])) u) \<or>
        (\<forall>u. clone_page pt i j p t k \<noteq> Inr (Next u)) \<and> short_of_frames s0 r"
    proof (cases "pte_is_valid ?e \<and> user_entry ?e")
      case False
      then have "[i, j, k] \<notin> ?U" using view by (auto simp: user_pages_def)
      then have "?D (zs @ [k]) = ?D zs" by auto
      moreover have "clone_page pt i j p t k = Inr (Next t)"
        using False by (auto simp: clone_page_def user_entry_def Let_def)
      ultimately show ?thesis using I by simp
    next
      case True
      then have U: "[i, j, k] \<in> ?U" using view by (auto simp: user_pages_def)
      have D: "finite (?D zs)" "[i, j, k] \<notin> ?D zs" "insert [i, j, k] (?D zs) = ?D (zs @ [k])"
        using A finite_subset [OF A(1) finite_user_pages] finite_user_pages [of r s0] k(2) U by auto
      have sub: "insert [i, j, k] (?D zs) \<subseteq> ?U" using A(1) U by auto
      have run: "clone_page pt i j p t k =
          clone_copy pt t (push_bit 12 (vpn_join i j k)) (push_bit 12 (pte_ppn ?e)) (pte_flags_of ?e)"
        using True by (simp add: clone_page_def user_entry_def Let_def)
      have e: "pt_view r s0 [i, j, k] = Some ?e" "user_entry ?e" using view True by simp_all
      show ?thesis
        using clone_copy_step [OF sp I D(1,2) e vpn_indices_join [OF ij k(1)] run]
          short_of_framesI [OF _ sub] unfolding D(3) by blast
    qed
  qed
  moreover have "?D ([] @ table_indices) = A \<union> {ks \<in> ?U. \<exists>k. ks = [i, j, k]}"
    using user_pages_digits by (fastforce simp: table_indices_set)
  ultimately show ?thesis by (simp add: c)
qed

lemma user_pages_node: "[i, j, k] \<in> user_pages r s \<Longrightarrow> pt_node (ram s) r [i, j] \<noteq> None"
  by (auto simp: user_pages_def pt_view_def pt_lookup_node split: if_splits option.splits)

lemma pt_node_second:
  "pt_node m r [i] = Some p \<Longrightarrow> pt_node m r [i, j] =
     (if pte_is_valid (load_u64 m (slot p j)) then Some (pte_ppn (load_u64 m (slot p j))) else None)"
  using pt_node_snoc [of m r "[i]" j] by (simp add: pt_child_def)

lemma pt_node_first:
  "pt_node m r [i] =
     (if pte_is_valid (load_u64 m (slot r i)) then Some (pte_ppn (load_u64 m (slot r i))) else None)"
  by (simp add: pt_node.simps pt_child_def)

lemma clone_table_loop:
  assumes sp: "space_ok s0 r" and inv: "clone_inv s0 r (root_ppn pt) A t"
    and A: "A \<subseteq> user_pages r s0" "\<forall>j k. [i, j, k] \<notin> A"
    and i: "i < 512" and node: "pt_node (ram s0) r [i] = Some p"
    and c: "c = flow_fold (clone_table pt i p) t table_indices"
  shows "(\<exists>u. c = Inr (Next u) \<and>
      clone_inv s0 r (root_ppn pt) (A \<union> {ks \<in> user_pages r s0. \<exists>j k. ks = [i, j, k]}) u) \<or>
    (\<forall>u. c \<noteq> Inr (Next u)) \<and> short_of_frames s0 r"
proof -
  let ?q = "root_ppn pt" and ?U = "user_pages r s0"
  let ?D = "\<lambda>zs. A \<union> {ks \<in> ?U. \<exists>j \<in> set zs. \<exists>k. ks = [i, j, k]}"
  have pinv: "pt_inv s0 r" using sp by (simp add: space_ok_def)
  have "(\<exists>u. flow_fold (clone_table pt i p) t table_indices = Inr (Next u) \<and>
        clone_inv s0 r ?q (?D ([] @ table_indices)) u) \<or>
    (\<forall>u. flow_fold (clone_table pt i p) t table_indices \<noteq> Inr (Next u)) \<and> short_of_frames s0 r"
  proof (rule flow_fold_cases)
    show "clone_inv s0 r ?q (?D []) t" using inv by simp
    fix t j zs rest assume pos: "[] @ table_indices = zs @ j # rest" and I: "clone_inv s0 r ?q (?D zs) t"
    note j = table_indices_split [OF pos]
    have paths: "[i] \<in> pt_paths" "[i, j] \<in> pt_paths" using i j(1) by (simp_all add: pt_paths_def)
    note par = clone_inv_parent(4) [OF I pinv]
    let ?e = "load_u64 (ram t) (slot p j)"
    have node2: "pt_node (ram s0) r [i, j] = (if pte_is_valid ?e then Some (pte_ppn ?e) else None)"
      using pt_node_second [of "ram t" r i p j] par [OF paths(1)] par [OF paths(2)] node by simp
    have D: "?D (zs @ [j]) = ?D zs \<union> {ks \<in> ?U. \<exists>k. ks = [i, j, k]}" by auto
    show "(\<exists>u. clone_table pt i p t j = Inr (Next u) \<and> clone_inv s0 r ?q (?D (zs @ [j])) u) \<or>
        (\<forall>u. clone_table pt i p t j \<noteq> Inr (Next u)) \<and> short_of_frames s0 r"
    proof (cases "pte_is_valid ?e")
      case False
      then have "{ks \<in> ?U. \<exists>k. ks = [i, j, k]} = {}"
        using node2 by (auto dest: user_pages_node)
      then have "?D (zs @ [j]) = ?D zs" unfolding D by blast
      moreover have "clone_table pt i p t j = Inr (Next t)"
        using False by (simp add: clone_table_def Let_def)
      ultimately show ?thesis using I by simp
    next
      case True
      have sub: "?D zs \<subseteq> ?U" "\<forall>k. [i, j, k] \<notin> ?D zs" using A j(2) by auto
      have "pt_node (ram s0) r [i, j] = Some (pte_ppn ?e)" using node2 True by simp
      moreover have "clone_table pt i p t j = flow_fold (clone_page pt i j (pte_ppn ?e)) t table_indices"
        using True by (simp add: clone_table_def Let_def)
      ultimately show ?thesis
        unfolding D by (rule clone_page_loop [OF sp I sub i j(1)])
    qed
  qed
  moreover have "?D ([] @ table_indices) = A \<union> {ks \<in> ?U. \<exists>j k. ks = [i, j, k]}"
    using user_pages_digits by (fastforce simp: table_indices_set)
  ultimately show ?thesis by (simp add: c)
qed

lemma clone_dir_loop:
  assumes sp: "space_ok s0 r" and inv: "clone_inv s0 r (root_ppn pt) {} t"
    and c: "c = flow_fold (clone_dir pt r) t table_indices"
  shows "(\<exists>u. c = Inr (Next u) \<and> clone_inv s0 r (root_ppn pt) (user_pages r s0) u) \<or>
    (\<forall>u. c \<noteq> Inr (Next u)) \<and> short_of_frames s0 r"
proof -
  let ?q = "root_ppn pt" and ?U = "user_pages r s0"
  let ?D = "\<lambda>zs. {ks \<in> ?U. \<exists>i \<in> set zs. \<exists>j k. ks = [i, j, k]}"
  have pinv: "pt_inv s0 r" using sp by (simp add: space_ok_def)
  have "(\<exists>u. flow_fold (clone_dir pt r) t table_indices = Inr (Next u) \<and>
        clone_inv s0 r ?q (?D ([] @ table_indices)) u) \<or>
    (\<forall>u. flow_fold (clone_dir pt r) t table_indices \<noteq> Inr (Next u)) \<and> short_of_frames s0 r"
  proof (rule flow_fold_cases)
    show "clone_inv s0 r ?q (?D []) t" using inv by simp
    fix t i zs rest assume pos: "[] @ table_indices = zs @ i # rest" and I: "clone_inv s0 r ?q (?D zs) t"
    note i = table_indices_split [OF pos]
    have path: "[i] \<in> pt_paths" using i(1) by (simp add: pt_paths_def)
    let ?e = "load_u64 (ram t) (slot r i)"
    have node: "pt_node (ram s0) r [i] = (if pte_is_valid ?e then Some (pte_ppn ?e) else None)"
      using clone_inv_parent(4) [OF I pinv path] pt_node_first [of "ram t" r i] by simp
    have D: "?D (zs @ [i]) = ?D zs \<union> {ks \<in> ?U. \<exists>j k. ks = [i, j, k]}" by auto
    show "(\<exists>u. clone_dir pt r t i = Inr (Next u) \<and> clone_inv s0 r ?q (?D (zs @ [i])) u) \<or>
        (\<forall>u. clone_dir pt r t i \<noteq> Inr (Next u)) \<and> short_of_frames s0 r"
    proof (cases "pte_is_valid ?e")
      case False
      then have "pt_node (ram s0) r [i, j] = None" for j
        using node pt_node_snoc [of "ram s0" r "[i]" j] by simp
      then have "{ks \<in> ?U. \<exists>j k. ks = [i, j, k]} = {}"
        by (auto dest: user_pages_node)
      then have "?D (zs @ [i]) = ?D zs" unfolding D by blast
      moreover have "clone_dir pt r t i = Inr (Next t)"
        using False by (simp add: clone_dir_def Let_def)
      ultimately show ?thesis using I by simp
    next
      case True
      have sub: "?D zs \<subseteq> ?U" "\<forall>j k. [i, j, k] \<notin> ?D zs" using i(2) by auto
      have "pt_node (ram s0) r [i] = Some (pte_ppn ?e)" using node True by simp
      moreover have "clone_dir pt r t i = flow_fold (clone_table pt i (pte_ppn ?e)) t table_indices"
        using True by (simp add: clone_dir_def Let_def)
      ultimately show ?thesis
        unfolding D by (rule clone_table_loop [OF sp I sub i(1)])
    qed
  qed
  moreover have "?D ([] @ table_indices) = ?U"
    using user_pages_digits by (fastforce simp: table_indices_set)
  ultimately show ?thesis by (simp add: c)
qed

section \<open>The whole clone\<close>

lemma clone_start:
  assumes sp: "space_ok s r"
  obtains (short) "\<forall>child s'. clone_user_space s \<lparr>root_ppn = r\<rparr> \<noteq> Inr (Some child, s')" "short_of_frames s r"
  | (go) child u where "clone_inv s r (root_ppn child) {} u"
      "clone_user_space s \<lparr>root_ppn = r\<rparr> = res_bind (flow_fold (clone_dir child r) u table_indices)
         (\<lambda>x. case x of Return s \<Rightarrow> Inr (None, s) | Next s \<Rightarrow> Inr (Some child, s))"
proof -
  have fok: "frames_ok s" using sp by (simp add: space_ok_def pt_inv_def)
  show thesis
  proof (cases rule: page_table_new_cases [OF fok])
    case 1
    then show thesis
      by (intro short) (simp_all add: clone_user_space_def short_of_frames_def)
  next
    case (2 child t)
    let ?q = "root_ppn child"
    show thesis
    proof (cases "frames_used t + 68 \<le> frames_limit t")
      case False
      then obtain e where "map_kernel_regions t child = Inl e"
        using map_kernel_regions_fail [OF 2(2,4)] by auto
      then show thesis
        using 2(1,7,8) False by (intro short) (simp_all add: clone_user_space_def short_of_frames_def)
    next
      case True
      obtain u where u: "map_kernel_regions t child = Inr u" "pt_evolves ?q t u"
        "\<And>k. pt_view ?q u k = kernel_view k"
        "table_paths ?q u = insert [] kernel_tables"
        "frames_used u = frames_used t + 68" "frames_limit u = frames_limit t"
        by (rule map_kernel_regions_ok [OF 2(2,4,6) True]) (rule that)
      have al: "allocated s x \<Longrightarrow> allocated t x" for x
        by (rule allocated_mono [OF 2(12)])
      have mem: "\<forall>a. allocated s (drop_bit 12 a) \<longrightarrow> ram u a = ram s a"
      proof (intro allI impI)
        fix a :: usize assume a: "allocated s (drop_bit 12 a)"
        then have "drop_bit 12 a \<notin> pt_tables (ram t) ?q"
          using 2(3,5) by auto
        then show "ram u a = ram s a"
          using pt_evolves_frame [OF u(2) al [OF a]] 2(11) [OF a] by simp
      qed
      have tabs: "\<forall>p \<in> pt_tables (ram u) ?q. \<not> allocated s p"
      proof (intro ballI notI)
        fix p assume "p \<in> pt_tables (ram u) ?q" "allocated s p"
        then have "p \<in> pt_tables (ram t) ?q"
          by (intro pt_evolves_tables [OF u(2)] al)
        with \<open>allocated s p\<close> 2(3,5) show False by simp
      qed
      have "heap_alloc u = heap_alloc t" "kernel_page_table u = kernel_page_table t" "pt_inv u ?q"
        "pg_current (page_alloc t) \<le> pg_current (page_alloc u)"
        using u(2) by (simp_all add: pt_evolves_def)
      then have "clone_inv s r ?q {} u"
        using u(3,5,6) 2(7-10) order.trans [OF 2(12)] mem tabs by (simp add: clone_inv_def)
      then show thesis
        using 2(1) u(1) by (intro go) (simp_all add: clone_user_space_def)
    qed
  qed
qed

lemma clone_user_space_inv:
  assumes sp: "space_ok s (root_ppn pt)"
  obtains (ok) child s' where "clone_user_space s pt = Inr (Some child, s')"
      "clone_inv s (root_ppn pt) (root_ppn child) (user_pages (root_ppn pt) s) s'"
  | (short) "\<forall>child s'. clone_user_space s pt \<noteq> Inr (Some child, s')" "short_of_frames s (root_ppn pt)"
proof -
  have pt: "\<lparr>root_ppn = root_ppn pt\<rparr> = pt" by simp
  show thesis
  proof (cases rule: clone_start [OF sp, unfolded pt])
    case 1
    then show thesis by (rule short)
  next
    case (2 child u)
    from clone_dir_loop [OF sp 2(1) refl] show thesis
    proof (elim disjE exE conjE)
      fix s' assume "flow_fold (clone_dir child (root_ppn pt)) u table_indices = Inr (Next s')"
        "clone_inv s (root_ppn pt) (root_ppn child) (user_pages (root_ppn pt) s) s'"
      then show thesis using 2(2) by (intro ok) simp_all
    next
      assume "\<forall>s'. flow_fold (clone_dir child (root_ppn pt)) u table_indices \<noteq> Inr (Next s')"
        and sh: "short_of_frames s (root_ppn pt)"
      then have "\<forall>c s'. clone_user_space s pt \<noteq> Inr (Some c, s')"
        unfolding 2(2) by (auto simp: res_bind_Inr_iff split: flow.splits)
      then show thesis using sh by (rule short)
    qed
  qed
qed

lemma page_offset: "va AND 4095 < (4096 :: usize)"
  using word_and_le1 [of va 4095] by (simp add: word_le_nat_alt word_less_nat_alt)

lemma page_or_offset: "push_bit 12 f OR (va AND 4095) = push_bit 12 f + (va AND 4095 :: usize)"
proof -
  have m: "(4095 :: usize) = mask 12"
    by (simp add: mask_eq_exp_minus_1)
  have "push_bit 12 f AND (va AND 4095) = 0"
    by (auto simp: m bit_eq_iff bit_simps)
  then show ?thesis by (simp add: disjunctive_add_eq_or)
qed

lemma drop_page_or: "frame_ok f \<Longrightarrow> drop_bit 12 (push_bit 12 f OR (va AND 4095)) = f"
  using in_page_iff [of f "push_bit 12 f + (va AND 4095)"] page_offset [of va]
  by (simp add: page_or_offset)

text \<open>A virtual address of a user page of address space \<open>pt\<close>.\<close>

definition user_va :: "mm_state \<Rightarrow> page_table \<Rightarrow> usize \<Rightarrow> bool" where
  "user_va s pt va \<longleftrightarrow> vpn_indices (drop_bit 12 va) \<in> user_pages (root_ppn pt) s"

definition va_flags :: "mm_state \<Rightarrow> page_table \<Rightarrow> usize \<Rightarrow> pte_flags" where
  "va_flags s pt va = pte_flags_of (the (pt_view (root_ppn pt) s (vpn_indices (drop_bit 12 va))))"

lemma clone_inv_user:
  assumes inv: "clone_inv s (root_ppn pt) (root_ppn child) (user_pages (root_ppn pt) s) s'"
    and va: "user_va s pt va"
  obtains pa where "pt_translate (ram s) pt va = Some pa"
    "pt_translate (ram s') child va =
       Some (push_bit 12 (clone_frame (root_ppn child) s' (vpn_indices (drop_bit 12 va))) OR (va AND 4095))"
    "ram s' (push_bit 12 (clone_frame (root_ppn child) s' (vpn_indices (drop_bit 12 va))) OR (va AND 4095)) = ram s pa"
    "va_flags s' child va = va_flags s pt va OR PTE_V OR PTE_A OR PTE_D"
    "\<not> allocated s (clone_frame (root_ppn child) s' (vpn_indices (drop_bit 12 va)))"
    "frame_ok (clone_frame (root_ppn child) s' (vpn_indices (drop_bit 12 va)))"
proof -
  let ?ks = "vpn_indices (drop_bit 12 va)"
  let ?f = "clone_frame (root_ppn child) s' ?ks"
  obtain e where e: "pt_view (root_ppn pt) s ?ks = Some e"
    using va by (auto simp: user_va_def user_pages_def)
  have "clone_of s (root_ppn pt) s' (root_ppn child) ?ks"
    using inv va by (simp add: clone_inv_def user_va_def)
  then have c: "pt_view (root_ppn child) s' ?ks = Some (pte_new ?f (pte_flags_of e OR PTE_V OR PTE_A OR PTE_D))"
    "\<not> allocated s ?f" "allocated s' ?f" "page_copied (ram s) (pte_ppn e) (ram s') ?f"
    by (simp_all add: clone_of_def Let_def e)
  have fl: "pte_flags_of e OR PTE_V OR PTE_A OR PTE_D < 256"
    by (rule map_flags_less [OF pte_flags_less])
  then have "pte_flags_of e OR PTE_V OR PTE_A OR PTE_D < 1024"
    by (rule less_trans) simp
  then have "pte_ppn (pte_new ?f (pte_flags_of e OR PTE_V OR PTE_A OR PTE_D)) = ?f"
    by (intro pte_ppn_new frame_ok_54 allocated_frame_ok [OF c(3)])
  then show thesis
    using c e page_offset [of va] allocated_frame_ok [OF c(3)]
    by (intro that [of "push_bit 12 (pte_ppn e) OR (va AND 4095)"])
      (simp_all add: pt_translate_view va_flags_def pte_flags_new [OF fl] page_copied_def page_or_offset)
qed

section \<open>Properties\<close>

text \<open>
  C3.  \<open>clone_user_space\<close> gives the child a copy of the parent's user memory: every user
  address translates in the child to a byte with the parent's contents, with the parent's
  flags, on a frame that was free before, different user pages go to different frames, and
  the rest of the child's space is the kernel's identity mapping.  The parent keeps its
  translations and the contents of all frames allocated before.  It fails to return a child
  only when fewer than 69 frames and three for each user page are free.
\<close>

theorem clone_user_space_correct:
  assumes sp: "space_ok s (root_ppn pt)"
  shows "(\<exists>child s'. clone_user_space s pt = Inr (Some child, s') \<and>
      pt_inv s' (root_ppn child) \<and> pt_inv s' (root_ppn pt) \<and>
      pt_tables (ram s') (root_ppn child) \<inter> pt_tables (ram s') (root_ppn pt) = {} \<and>
      (\<forall>a. allocated s (drop_bit 12 a) \<longrightarrow> ram s' a = ram s a) \<and>
      (\<forall>va. pt_translate (ram s') pt va = pt_translate (ram s) pt va) \<and>
      (\<forall>va. user_va s pt va \<longrightarrow> (\<exists>pa pa'. pt_translate (ram s) pt va = Some pa \<and>
         pt_translate (ram s') child va = Some pa' \<and> ram s' pa' = ram s pa \<and>
         \<not> allocated s (drop_bit 12 pa') \<and>
         va_flags s' child va = va_flags s pt va OR PTE_V OR PTE_A OR PTE_D)) \<and>
      (\<forall>va va'. user_va s pt va \<longrightarrow> user_va s pt va' \<longrightarrow>
         drop_bit 12 (the (pt_translate (ram s') child va)) = drop_bit 12 (the (pt_translate (ram s') child va')) \<longrightarrow>
         same_vpage va va') \<and>
      (\<forall>va < 2 ^ 39. \<not> user_va s pt va \<longrightarrow>
         pt_translate (ram s') child va = (if identity_mapped va then Some va else None)))
    \<or> (short_of_frames s (root_ppn pt) \<and> (\<forall>child s'. clone_user_space s pt \<noteq> Inr (Some child, s')))"
proof (cases rule: clone_user_space_inv [OF sp])
  case 2
  then show ?thesis by blast
next
  case (1 child s')
  let ?q = "root_ppn child"
  let ?f = "\<lambda>va. clone_frame ?q s' (vpn_indices (drop_bit 12 va))"
  note i = 1(2) [unfolded clone_inv_def]
  have pinv: "pt_inv s (root_ppn pt)" using sp by (simp add: space_ok_def)
  note par = clone_inv_parent [OF 1(2) pinv]
  have "pt_tables (ram s') ?q \<inter> pt_tables (ram s') (root_ppn pt) = {}"
    using i pinv unfolding par(2) by (auto simp: pt_inv_def)
  moreover have "pt_translate (ram s') pt va = pt_translate (ram s) pt va" for va
    by (simp add: pt_translate_view par(3))
  moreover have "\<exists>pa pa'. pt_translate (ram s) pt va = Some pa \<and>
         pt_translate (ram s') child va = Some pa' \<and> ram s' pa' = ram s pa \<and>
         \<not> allocated s (drop_bit 12 pa') \<and>
         va_flags s' child va = va_flags s pt va OR PTE_V OR PTE_A OR PTE_D" if "user_va s pt va" for va
    by (rule clone_inv_user [OF 1(2) that]) (simp add: drop_page_or drop_push_frame)
  moreover have "drop_bit 12 (the (pt_translate (ram s') child va)) = ?f va" if "user_va s pt va" for va
    by (rule clone_inv_user [OF 1(2) that]) (simp add: drop_page_or drop_push_frame)
  then have "same_vpage va va'" if "user_va s pt va" "user_va s pt va'"
      "drop_bit 12 (the (pt_translate (ram s') child va)) = drop_bit 12 (the (pt_translate (ram s') child va'))" for va va'
    using that i by (simp add: same_vpage_def user_va_def inj_on_def)
  moreover have "pt_translate (ram s') child va = (if identity_mapped va then Some va else None)"
    if "va < 2 ^ 39" "\<not> user_va s pt va" for va
    using i that kernel_view_translate [OF that(1)]
    unfolding pt_translate_view user_va_def identity_mapped_vpns by simp
  ultimately show ?thesis
    using 1(1) par(1) i by blast
qed

lemma kernel_view_low: "kernel_view (vpn_indices 0x400) = None"
proof -
  have "set kernel_vpns \<subseteq> {..<2 ^ 27}" "(0x400 :: nat) \<notin> set kernel_vpns"
    by (auto simp: kernel_vpns_set)
  then have "digits 0x400 \<notin> digits ` set kernel_vpns"
    by (subst inj_on_image_mem_iff [OF digits_inj]) auto
  then show ?thesis
    by (simp add: vpn_indices_digits kernel_view_dom)
qed

text \<open>A concrete process: one user page at \<^verbatim>\<open>0x400000\<close>.\<close>

lemma demo_space:
  obtains pt s t where "page_table_new demo_mm = (Some pt, s)"
    "pt_map s pt 0x400000 0x80300000 (PTE_R OR PTE_W OR PTE_U) = Inr t" "space_ok t (root_ppn pt)"
    "user_pages (root_ppn pt) t = {vpn_indices 0x400}" "frames_used t + 900 \<le> frames_limit t"
    "pt_translate (ram t) pt 0x400010 = Some 0x80300010" "allocated t 0x80300"
proof -
  let ?fl = "PTE_R OR PTE_W OR PTE_U"
  let ?x = "(0x400000, 0x80300000, ?fl) :: mapping_req"
  obtain pt s where new: "page_table_new demo_mm = (Some pt, s)" "pt_inv s (root_ppn pt)"
    "\<And>k. pt_view (root_ppn pt) s k = None" "frames_used s + 1000 \<le> frames_limit s" "frames_used s = 0x80401"
    using demo_new_pt by metis
  obtain t where run: "pt_map_entry pt s ?x = Inr t"
    using demo_map_entry [of s pt ?x] new by auto
  have fl: "?fl < 256" by (simp add: pte_flag_defs)
  have key: "req_key ?x = vpn_indices 0x400" by (simp add: req_key_def)
  note f = req_entry_fields [OF fl, of "0x400000" "0x80300000"]
  have view: "pt_view (root_ppn pt) t k = (if k = vpn_indices 0x400 then Some (req_entry ?x) else None)" for k
    using ptm.mp_view [OF new(2) run] by (simp add: key new(3))
  have user: "user_entry (req_entry ?x)"
    unfolding user_entry_def f(2) by (simp add: flags_contain_def pte_flag_defs)
  have inv: "pt_inv t (root_ppn pt)" "frames_limit t = frames_limit s"
    using ptm.mp_inv [OF new(2) run] by simp_all
  have used: "frames_used s \<le> frames_used t" "frames_used t \<le> frames_used s + 2"
    using ptm.mp_used [OF new(2) run] card_req_tables [of ?x] by simp_all
  then have al: "allocated t 0x80300"
    using new(5) by (simp add: allocated_def frames_used_def)
  then have sp: "space_ok t (root_ppn pt)"
    using inv(1) kernel_view_low f(1) by (auto simp: space_ok_def view split: if_splits)
  have "user_pages (root_ppn pt) t = {vpn_indices 0x400}"
    using user by (auto simp: user_pages_def view split: if_splits)
  moreover have "pt_translate (ram t) pt 0x400010 = Some 0x80300010"
    using f(1) by (simp add: pt_translate_view view)
  ultimately show thesis
    using new(1,4) run sp inv(2) used(2) al
    by (intro that [of pt s t]) (simp_all add: pt_map_as_entry)
qed

theorem clone_user_space_correct_witness:
  "\<exists>pt s t child t' pa'. page_table_new demo_mm = (Some pt, s) \<and>
     pt_map s pt 0x400000 0x80300000 (PTE_R OR PTE_W OR PTE_U) = Inr t \<and>
     clone_user_space t pt = Inr (Some child, t') \<and>
     pt_translate (ram t') child 0x400010 = Some pa' \<and> pa' \<noteq> 0x80300010 \<and> ram t' pa' = ram t 0x80300010"
proof -
  obtain pt s t where d: "page_table_new demo_mm = (Some pt, s)"
    "pt_map s pt 0x400000 0x80300000 (PTE_R OR PTE_W OR PTE_U) = Inr t" "space_ok t (root_ppn pt)"
    "user_pages (root_ppn pt) t = {vpn_indices 0x400}" "frames_used t + 900 \<le> frames_limit t"
    "pt_translate (ram t) pt 0x400010 = Some 0x80300010" "allocated t 0x80300"
    by (rule demo_space)
  have "\<not> short_of_frames t (root_ppn pt)"
    using d(4,5) by (simp add: short_of_frames_def)
  moreover have u: "user_va t pt 0x400010"
    by (simp add: user_va_def d(4))
  ultimately obtain child t' pa pa' where c: "clone_user_space t pt = Inr (Some child, t')"
    "pt_translate (ram t) pt 0x400010 = Some pa" "pt_translate (ram t') child 0x400010 = Some pa'"
    "ram t' pa' = ram t pa" "\<not> allocated t (drop_bit 12 pa')"
    using clone_user_space_correct [OF d(3)] by blast
  have "pa' \<noteq> 0x80300010" using c(5) d(7) by auto
  with c d show ?thesis by auto
qed

end
