(* ===== verification/BTree_Map.thy ===== *)
theory BTree_Map
  imports Prelude
begin

text \<open>
  The kernel keeps its tables (files, inodes, processes, pipes, descriptors) in
  \<^verbatim>\<open>alloc::collections::BTreeMap\<close> and relies on iteration in ascending key order: path
  lookup, \<^verbatim>\<open>wait4\<close>, the scheduler and epoll all take the first match.  The map is modelled
  as an association list in strictly ascending key order, and the interface the kernel uses
  is the locale \<open>ordered_map\<close>, interpreted here on that list.
\<close>

type_synonym ('k, 'v) btree = "('k \<times> 'v) list"

definition bt_wf :: "('k::linorder, 'v) btree \<Rightarrow> bool" where
  "bt_wf m \<longleftrightarrow> sorted_wrt (<) (map fst m)"

definition bt_get :: "('k, 'v) btree \<Rightarrow> 'k \<Rightarrow> 'v option" where
  "bt_get m k = map_of m k"

fun bt_insert :: "('k::linorder, 'v) btree \<Rightarrow> 'k \<Rightarrow> 'v \<Rightarrow> ('k, 'v) btree" where
  "bt_insert [] k v = [(k, v)]"
| "bt_insert ((k', v') # m) k v =
     (if k < k' then (k, v) # (k', v') # m
      else if k = k' then (k, v) # m
      else (k', v') # bt_insert m k v)"

fun bt_remove :: "('k, 'v) btree \<Rightarrow> 'k \<Rightarrow> ('k, 'v) btree" where
  "bt_remove [] k = []"
| "bt_remove ((k', v') # m) k = (if k = k' then m else (k', v') # bt_remove m k)"

text \<open>\<^verbatim>\<open>get_mut\<close> followed by an assignment through the reference.\<close>

fun bt_modify :: "('k, 'v) btree \<Rightarrow> 'k \<Rightarrow> ('v \<Rightarrow> 'v) \<Rightarrow> ('k, 'v) btree" where
  "bt_modify [] k f = []"
| "bt_modify ((k', v') # m) k f = (if k = k' then (k', f v') # m else (k', v') # bt_modify m k f)"

section \<open>The interface\<close>

locale ordered_map =
  fixes get :: "'m \<Rightarrow> 'k::linorder \<Rightarrow> 'v option"
    and put :: "'m \<Rightarrow> 'k \<Rightarrow> 'v \<Rightarrow> 'm"
    and del :: "'m \<Rightarrow> 'k \<Rightarrow> 'm"
    and upd :: "'m \<Rightarrow> 'k \<Rightarrow> ('v \<Rightarrow> 'v) \<Rightarrow> 'm"
    and entries :: "'m \<Rightarrow> ('k \<times> 'v) list"
    and inv :: "'m \<Rightarrow> bool"
  assumes get_put: "inv m \<Longrightarrow> get (put m k v) k' = (if k' = k then Some v else get m k')"
    and get_del: "inv m \<Longrightarrow> get (del m k) k' = (if k' = k then None else get m k')"
    and get_upd: "inv m \<Longrightarrow> get (upd m k f) k' = (if k' = k then map_option f (get m k) else get m k')"
    and inv_put: "inv m \<Longrightarrow> inv (put m k v)"
    and inv_del: "inv m \<Longrightarrow> inv (del m k)"
    and inv_upd: "inv m \<Longrightarrow> inv (upd m k f)"
    and entries_get: "inv m \<Longrightarrow> (k, v) \<in> set (entries m) \<longleftrightarrow> get m k = Some v"
    and entries_sorted: "inv m \<Longrightarrow> sorted_wrt (<) (map fst (entries m))"
begin

lemmas map_laws = get_put get_del get_upd inv_put inv_del inv_upd

lemma put_same: "inv m \<Longrightarrow> get (put m k v) k = Some v"
  by (simp add: get_put)

lemma upd_absent: "inv m \<Longrightarrow> get m k = None \<Longrightarrow> get (upd m k f) k' = get m k'"
  by (simp add: get_upd)

text \<open>Taking the first match of an iteration takes the match with the least key.\<close>

lemma find_least:
  assumes "inv m"
  shows "find P (entries m) = Some (k, v) \<longleftrightarrow>
     get m k = Some v \<and> P (k, v) \<and> (\<forall>k' v'. get m k' = Some v' \<and> P (k', v') \<longrightarrow> k \<le> k')"
    (is "?l \<longleftrightarrow> ?r")
proof
  assume ?l
  then obtain i where i: "i < length (entries m)" "P (k, v)" "entries m ! i = (k, v)"
    and before: "\<forall>j<i. \<not> P (entries m ! j)"
    by (auto simp: find_Some_iff)
  have least: "k \<le> k'" if "get m k' = Some v'" "P (k', v')" for k' v'
  proof -
    from that(1) have "(k', v') \<in> set (entries m)"
      using assms by (simp add: entries_get)
    then obtain j where j: "j < length (entries m)" "entries m ! j = (k', v')"
      by (auto simp: in_set_conv_nth)
    with that(2) before have "\<not> j < i" by auto
    then consider "j = i" | "i < j" by linarith
    then show ?thesis
    proof cases
      case 2
      then have "map fst (entries m) ! i < map fst (entries m) ! j"
        using entries_sorted [OF assms] j(1) by (intro sorted_wrt_nth_less) auto
      then show ?thesis
        using i j by simp
    qed (use i j in simp)
  qed
  have "(k, v) \<in> set (entries m)"
    using i by (metis nth_mem)
  with least i show ?r
    using assms by (auto simp: entries_get)
next
  assume r: ?r
  then have mem: "(k, v) \<in> set (entries m)"
    using assms by (simp add: entries_get)
  then obtain i where i: "i < length (entries m)" "entries m ! i = (k, v)"
    by (auto simp: in_set_conv_nth)
  have "\<not> P (entries m ! j)" if "j < i" for j
  proof
    assume Pj: "P (entries m ! j)"
    obtain k' v' where kv: "entries m ! j = (k', v')" by fastforce
    then have "get m k' = Some v'"
      using that i(1) assms by (metis entries_get nth_mem order.strict_trans)
    with r Pj kv have "k \<le> k'" by simp
    moreover have "map fst (entries m) ! j < map fst (entries m) ! i"
      using entries_sorted [OF assms] i(1) that by (intro sorted_wrt_nth_less) auto
    ultimately show False
      using kv i that by simp
  qed
  with i r show ?l
    by (auto simp: find_Some_iff)
qed

lemma find_none:
  assumes "inv m"
  shows "find P (entries m) = None \<longleftrightarrow> (\<forall>k v. get m k = Some v \<longrightarrow> \<not> P (k, v))"
  using assms by (auto simp: find_None_iff entries_get)

end

section \<open>The association list implements it\<close>

lemma map_of_bt_insert: "map_of (bt_insert m k v) = (map_of m)(k \<mapsto> v)"
  by (induction m k v rule: bt_insert.induct) (auto simp: fun_eq_iff)

lemma keys_bt_insert: "fst ` set (bt_insert m k v) = insert k (fst ` set m)"
  by (induction m k v rule: bt_insert.induct) auto

lemma bt_wf_Cons: "bt_wf ((k, v) # m) \<longleftrightarrow> (\<forall>k' \<in> fst ` set m. k < k') \<and> bt_wf m"
  by (auto simp: bt_wf_def)

lemma wf_bt_insert: "bt_wf m \<Longrightarrow> bt_wf (bt_insert m k v)"
proof (induction m k v rule: bt_insert.induct)
  case (1 k v)
  then show ?case by (simp add: bt_wf_def)
next
  case (2 k' v' m k v)
  then show ?case
    by (fastforce simp: bt_wf_Cons keys_bt_insert)
qed

lemma keys_bt_remove: "fst ` set (bt_remove m k) \<subseteq> fst ` set m"
  by (induction m k rule: bt_remove.induct) auto

lemma wf_bt_remove: "bt_wf m \<Longrightarrow> bt_wf (bt_remove m k)"
proof (induction m k rule: bt_remove.induct)
  case (2 k' v' m k)
  then have "\<forall>x \<in> fst ` set (bt_remove m k). k' < x"
    using keys_bt_remove [of m k] by (fastforce simp: bt_wf_Cons)
  with 2 show ?case by (auto simp: bt_wf_Cons)
qed simp

lemma bt_wf_Cons_None: "bt_wf ((k, v) # m) \<Longrightarrow> map_of m k = None"
  by (auto simp: bt_wf_def map_of_eq_None_iff)

lemma map_of_bt_remove: "bt_wf m \<Longrightarrow> map_of (bt_remove m k) = (map_of m)(k := None)"
proof (induction m k rule: bt_remove.induct)
  case (2 k' v' m k)
  then have "bt_wf m" by (simp add: bt_wf_def)
  with 2 bt_wf_Cons_None [OF "2.prems"] show ?case
    by (auto simp: fun_eq_iff)
qed (simp add: fun_eq_iff)

lemma keys_bt_modify [simp]: "map fst (bt_modify m k f) = map fst m"
  by (induction m k f rule: bt_modify.induct) auto

lemma map_of_bt_modify:
  "map_of (bt_modify m k f) k' = (if k' = k then map_option f (map_of m k) else map_of m k')"
  by (induction m k f rule: bt_modify.induct) auto

interpretation bt: ordered_map bt_get bt_insert bt_remove bt_modify "\<lambda>m. m" bt_wf
proof unfold_locales
  fix m :: "('k::linorder \<times> 'v) list" and k k' :: 'k and v :: 'v and f
  assume wf: "bt_wf m"
  show "bt_get (bt_insert m k v) k' = (if k' = k then Some v else bt_get m k')"
    by (simp add: bt_get_def map_of_bt_insert)
  show "bt_get (bt_remove m k) k' = (if k' = k then None else bt_get m k')"
    using wf by (simp add: bt_get_def map_of_bt_remove)
  show "bt_get (bt_modify m k f) k' = (if k' = k then map_option f (bt_get m k) else bt_get m k')"
    by (simp add: bt_get_def map_of_bt_modify)
  show "bt_wf (bt_insert m k v)" "bt_wf (bt_remove m k)" "bt_wf (bt_modify m k f)"
    using wf by (simp_all add: wf_bt_insert wf_bt_remove) (simp add: bt_wf_def)
  have "distinct (map fst m)"
    using wf by (simp add: bt_wf_def strict_sorted_iff)
  then show "(k, v) \<in> set m \<longleftrightarrow> bt_get m k = Some v"
    by (simp add: bt_get_def)
  show "sorted_wrt (<) (map fst m)"
    using wf by (simp add: bt_wf_def)
qed

lemma bt_wf_Nil [simp]: "bt_wf []"
  by (simp add: bt_wf_def)

lemma bt_get_Nil [simp]: "bt_get [] k = None"
  by (simp add: bt_get_def)

text \<open>Keys above every present key are appended at the end.\<close>

lemma bt_insert_snoc:
  "(\<And>k' v'. (k', v') \<in> set m \<Longrightarrow> k' < k) \<Longrightarrow> bt_insert m k v = m @ [(k, v)]"
proof (induction m k v rule: bt_insert.induct)
  case (2 k' v' m k v)
  have "k' < k" by (rule "2.prems" [of k' v']) simp
  moreover have "bt_insert m k v = m @ [(k, v)]"
    using "2.prems" calculation by (intro "2.IH") auto
  ultimately show ?case by auto
qed simp

end
