(* ===== verification/Ram_Fs.thy ===== *)
theory Ram_Fs
  imports BTree_Map "HOL-Library.List_Lexorder" "HOL-Library.Char_ord"
begin

text \<open>
  The in-memory file system of \<^verbatim>\<open>src/src/fs.rs\<close>: a map from paths to contents, a map from
  inode numbers to paths, and the directory listing that \<^verbatim>\<open>getdents64\<close> returns.  Paths are
  byte strings ordered like Rust's \<^verbatim>\<open>String\<close>; slice indexing that Rust checks at run time
  panics in the model.  Growth of Rust collections is assumed to find heap memory.
\<close>

section \<open>State\<close>

datatype file_contents = Static "u8 list" | Dynamic "u8 list"

record ram_file =
  file_data :: file_contents

definition file_slice :: "ram_file \<Rightarrow> u8 list" where
  "file_slice f = (case file_data f of Static s \<Rightarrow> s | Dynamic v \<Rightarrow> v)"

definition file_len :: "ram_file \<Rightarrow> usize" where
  "file_len f = (case file_data f of Static s \<Rightarrow> of_nat (length s) | Dynamic v \<Rightarrow> of_nat (length v))"

definition file_as_mut_vec :: "ram_file \<Rightarrow> u8 list option" where
  "file_as_mut_vec f = (case file_data f of Static _ \<Rightarrow> None | Dynamic v \<Rightarrow> Some v)"

record open_file =
  of_inode :: usize
  of_offset :: usize
  of_readable :: bool
  of_writable :: bool
  of_pipe_id :: "usize option"

record fs_state =
  fs_files :: "(string, ram_file) btree"
  fs_next_inode :: usize
  fs_inode_map :: "(usize, string) btree"

definition fs_empty :: fs_state where
  "fs_empty = \<lparr>fs_files = [], fs_next_inode = 1, fs_inode_map = []\<rparr>"

section \<open>Creating and finding files\<close>

definition create_file :: "fs_state \<Rightarrow> string \<Rightarrow> file_contents \<Rightarrow> fs_state" where
  "create_file s path c =
     (let inode = fs_next_inode s in
      s\<lparr>fs_next_inode := inode + 1,
        fs_files := bt_insert (fs_files s) path \<lparr>file_data = c\<rparr>,
        fs_inode_map := bt_insert (fs_inode_map s) inode path\<rparr>)"

definition create_file_static :: "fs_state \<Rightarrow> string \<Rightarrow> u8 list \<Rightarrow> fs_state" where
  "create_file_static s path d = create_file s path (Static d)"

definition create_file_dynamic :: "fs_state \<Rightarrow> string \<Rightarrow> u8 list \<Rightarrow> fs_state" where
  "create_file_dynamic s path d = create_file s path (Dynamic d)"

definition fs_mkdir :: "fs_state \<Rightarrow> string \<Rightarrow> fs_state" where
  "fs_mkdir s path = create_file_static s path []"

definition fs_lookup :: "fs_state \<Rightarrow> string \<Rightarrow> usize option" where
  "fs_lookup s path = map_option fst (find (\<lambda>(inode, p). p = path) (fs_inode_map s))"

definition inode_file :: "fs_state \<Rightarrow> usize \<Rightarrow> (string \<times> ram_file) option" where
  "inode_file s inode =
     (case bt_get (fs_inode_map s) inode of
        None \<Rightarrow> None
      | Some path \<Rightarrow> map_option (Pair path) (bt_get (fs_files s) path))"

definition file_size :: "fs_state \<Rightarrow> usize \<Rightarrow> usize" where
  "file_size s inode = (case inode_file s inode of None \<Rightarrow> 0 | Some (path, f) \<Rightarrow> file_len f)"

definition fs_is_dir :: "fs_state \<Rightarrow> string \<Rightarrow> bool" where
  "fs_is_dir s path = (case bt_get (fs_files s) path of None \<Rightarrow> False | Some f \<Rightarrow> file_len f = 0)"

definition get_file_data :: "fs_state \<Rightarrow> string \<Rightarrow> u8 list option" where
  "get_file_data s path =
     (case bt_get (fs_files s) path of
        None \<Rightarrow> None
      | Some f \<Rightarrow> (case file_data f of Static d \<Rightarrow> Some d | Dynamic _ \<Rightarrow> None))"

section \<open>Reading and writing\<close>

text \<open>\<^verbatim>\<open>&xs[a..b]\<close>\<close>

definition slice :: "'a list \<Rightarrow> usize \<Rightarrow> usize \<Rightarrow> 'a list res" where
  "slice xs a b =
     (if b < a then Inl (Panic ''slice index starts after its end'')
      else if length xs < unat b then Inl (Panic ''range end index out of range for slice'')
      else Inr (take (unat (b - a)) (drop (unat a) xs)))"

text \<open>The bytes that \<^verbatim>\<open>read_inode\<close> puts at the start of a buffer of \<open>buf_len\<close> bytes.\<close>

definition read_inode :: "fs_state \<Rightarrow> usize \<Rightarrow> usize \<Rightarrow> usize \<Rightarrow> u8 list res" where
  "read_inode s inode buf_len offset =
     (case inode_file s inode of
        None \<Rightarrow> Inr []
      | Some (path, f) \<Rightarrow>
          (let data = file_slice f;
               len = of_nat (length data);
               to_read = min (len - min offset len) buf_len
           in slice data offset (offset + to_read)))"

text \<open>\<^verbatim>\<open>Vec::resize(n, 0)\<close>\<close>

definition vec_resize :: "u8 list \<Rightarrow> usize \<Rightarrow> u8 list res" where
  "vec_resize v n =
     (if 0x7fffffffffffffff < n then Inl (Panic ''capacity overflow'')
      else Inr (take (unat n) v @ replicate (unat n - length v) 0))"

definition write_inode :: "fs_state \<Rightarrow> usize \<Rightarrow> u8 list \<Rightarrow> usize \<Rightarrow> (usize \<times> fs_state) res" where
  "write_inode s inode buf offset =
     (case inode_file s inode of
        None \<Rightarrow> Inr (0, s)
      | Some (path, f) \<Rightarrow>
          (case file_as_mut_vec f of
             None \<Rightarrow> Inr (0, s)
           | Some v \<Rightarrow>
               (let n = of_nat (length buf); e = offset + n in
                res_bind (if of_nat (length v) < e then vec_resize v e else Inr v) (\<lambda>v.
                res_bind (slice v offset e) (\<lambda>_.
                Inr (n, s\<lparr>fs_files := bt_modify (fs_files s) path
                  (\<lambda>f. f\<lparr>file_data := Dynamic (take (unat offset) v @ buf @ drop (unat e) v)\<rparr>)\<rparr>))))))"

definition string_bytes :: "string \<Rightarrow> u8 list" where
  "string_bytes str = map of_char str"

section \<open>The initial contents\<close>

text \<open>The binaries embedded with \<^verbatim>\<open>include_bytes!\<close>.\<close>

record images =
  img_nginx :: "u8 list"
  img_test_malloc :: "u8 list"
  img_busybox :: "u8 list"
  img_nss_so :: "u8 list"

datatype fs_create = Mkdir string | MkStatic string "u8 list" | MkDynamic string "u8 list"

definition fs_create_step :: "fs_state \<Rightarrow> fs_create \<Rightarrow> fs_state" where
  "fs_create_step s c =
     (case c of
        Mkdir p \<Rightarrow> fs_mkdir s p
      | MkStatic p d \<Rightarrow> create_file_static s p d
      | MkDynamic p d \<Rightarrow> create_file_dynamic s p d)"

definition text_bytes :: "string list \<Rightarrow> u8 list" where
  "text_bytes ls = string_bytes (concat (map (\<lambda>l. l @ [CHR 0x0A]) ls))"

definition nginx_config :: "u8 list" where
  "nginx_config = text_bytes
    ['''',
     ''daemon off;'',
     ''worker_processes 1;'',
     ''error_log /tmp/nginx_install/logs/error.log;'',
     ''pid /tmp/nginx_install/logs/nginx.pid;'',
     ''events {'',
     ''    worker_connections 1024;'',
     ''}'',
     ''http {'',
     ''    server {'',
     ''        listen 80;'',
     ''        connection_pool_size 1024;'',
     ''        server_name localhost;'',
     ''        location / {'',
     ''            root /tmp/nginx_install/html;'',
     ''            index index.html;'',
     ''        }'',
     ''    }'',
     ''}'']"

definition nginx_local_config :: "u8 list" where
  "nginx_local_config = text_bytes
    ['''',
     ''daemon off;'',
     ''user root root;'',
     ''worker_processes 1;'',
     ''error_log /usr/local/nginx/logs/error.log;'',
     ''pid /usr/local/nginx/logs/nginx.pid;'',
     ''events {'',
     ''    worker_connections 1024;'',
     ''}'',
     ''http {'',
     ''    server {'',
     ''        listen 80;'',
     ''        connection_pool_size 1024;'',
     ''        server_name localhost;'',
     ''        location / {'',
     ''            root /usr/local/nginx/html;'',
     ''            index index.html;'',
     ''        }'',
     ''    }'',
     ''}'']"

definition index_html :: "u8 list" where
  "index_html = string_bytes ''<html><body><h1>Hello from RVOS nginx!</h1></body></html>''"

definition fs_creations :: "images \<Rightarrow> fs_create list" where
  "fs_creations im =
    [Mkdir ''/'',
     Mkdir ''/etc'',
     Mkdir ''/etc/nginx'',
     Mkdir ''/var'',
     Mkdir ''/var/log'',
     Mkdir ''/var/log/nginx'',
     Mkdir ''/usr'',
     Mkdir ''/usr/share'',
     Mkdir ''/usr/share/nginx'',
     Mkdir ''/usr/share/nginx/html'',
     Mkdir ''/usr/lib'',
     Mkdir ''/usr/lib/riscv64-linux-gnu'',
     Mkdir ''/usr/lib/riscv64-linux-gnu/tls'',
     Mkdir ''/usr/lib/tls'',
     Mkdir ''/lib'',
     Mkdir ''/lib/riscv64-linux-gnu'',
     Mkdir ''/lib/riscv64-linux-gnu/tls'',
     Mkdir ''/lib/tls'',
     Mkdir ''/tmp'',
     Mkdir ''/tmp/nginx_install'',
     Mkdir ''/tmp/nginx_install/logs'',
     Mkdir ''/tmp/nginx_install/conf'',
     Mkdir ''/tmp/nginx_install/html'',
     Mkdir ''/sbin'',
     Mkdir ''/sys'',
     Mkdir ''/sys/devices'',
     Mkdir ''/sys/devices/system'',
     Mkdir ''/sys/devices/system/cpu'',
     Mkdir ''/proc'',
     MkStatic ''/sbin/nginx'' (img_nginx im),
     MkStatic ''/test_malloc'' (img_test_malloc im),
     Mkdir ''/bin'',
     MkStatic ''/bin/busybox'' (img_busybox im),
     MkStatic ''/bin/sh'' (img_busybox im),
     MkStatic ''/bin/ls'' (img_busybox im),
     MkStatic ''/bin/cat'' (img_busybox im),
     MkStatic ''/bin/echo'' (img_busybox im),
     MkStatic ''/bin/pwd'' (img_busybox im),
     MkStatic ''/bin/mkdir'' (img_busybox im),
     MkStatic ''/bin/ps'' (img_busybox im),
     MkStatic ''/etc/nginx/nginx.conf'' nginx_config,
     MkStatic ''/tmp/nginx_install/conf/nginx.conf'' nginx_config,
     MkStatic ''/usr/share/nginx/html/index.html'' index_html,
     MkStatic ''/tmp/nginx_install/html/index.html'' index_html,
     MkDynamic ''/var/log/nginx/error.log'' [],
     MkDynamic ''/var/log/nginx/access.log'' [],
     MkDynamic ''/tmp/nginx_install/logs/error.log'' [],
     MkDynamic ''/tmp/nginx_install/logs/access.log'' [],
     Mkdir ''/usr/local'',
     Mkdir ''/usr/local/nginx'',
     Mkdir ''/usr/local/nginx/conf'',
     Mkdir ''/usr/local/nginx/logs'',
     Mkdir ''/usr/local/nginx/html'',
     MkStatic ''/usr/local/nginx/conf/nginx.conf'' nginx_local_config,
     MkDynamic ''/usr/local/nginx/logs/error.log'' [],
     MkDynamic ''/usr/local/nginx/logs/access.log'' [],
     MkDynamic ''/usr/local/nginx/logs/nginx.pid'' [],
     MkStatic ''/usr/local/nginx/html/index.html'' index_html,
     MkStatic ''/sys/devices/system/cpu/online'' (string_bytes (''0-0'' @ [CHR 0x0A])),
     MkStatic ''/proc/stat'' (string_bytes (''cpu  0 0 0 0 0 0 0 0 0 0'' @ [CHR 0x0A])),
     MkStatic ''/proc/cpuinfo'' (string_bytes (''processor'' @ [CHR 0x09] @ '': 0'' @ [CHR 0x0A])),
     MkStatic ''/etc/localtime'' [],
     MkStatic ''/etc/nsswitch.conf'' (string_bytes (''passwd: files'' @ [CHR 0x0A])),
     MkStatic ''/etc/passwd'' (string_bytes (''root:x:0:0:root:/root:/bin/sh'' @ [CHR 0x0A])),
     MkStatic ''/etc/group'' (string_bytes (''root:x:0:'' @ [CHR 0x0A])),
     MkStatic ''/lib/riscv64-linux-gnu/libnss_files.so.2'' (img_nss_so im),
     MkStatic ''/lib/riscv64-linux-gnu/tls/libnss_files.so.2'' (img_nss_so im),
     MkStatic ''/usr/lib/riscv64-linux-gnu/libnss_files.so.2'' (img_nss_so im),
     MkStatic ''/usr/lib/riscv64-linux-gnu/tls/libnss_files.so.2'' (img_nss_so im),
     MkStatic ''/lib/libnss_files.so.2'' (img_nss_so im),
     MkStatic ''/lib/tls/libnss_files.so.2'' (img_nss_so im),
     MkStatic ''/usr/lib/libnss_files.so.2'' (img_nss_so im),
     MkStatic ''/usr/lib/tls/libnss_files.so.2'' (img_nss_so im)]"

definition fs_init :: "images \<Rightarrow> fs_state \<Rightarrow> fs_state" where
  "fs_init im s = foldl fs_create_step s (fs_creations im)"

section \<open>Directory listings\<close>

type_synonym dirent = "string \<times> u64 \<times> u8"

definition dir_prefix :: "string \<Rightarrow> string" where
  "dir_prefix dir_path = (if dir_path = ''/'' then ''/'' else dir_path @ ''/'')"

definition entry_name :: "string \<Rightarrow> string" where
  "entry_name remainder = takeWhile (\<lambda>c. c \<noteq> CHR ''/'') remainder"

text \<open>One round of the loop over all files: the entries found and the names seen so far.\<close>

definition dir_scan_step ::
  "(usize, string) btree \<Rightarrow> string \<Rightarrow> dirent list \<times> string list \<Rightarrow> string \<times> ram_file \<Rightarrow> dirent list \<times> string list"
where
  "dir_scan_step im pre acc x =
     (case acc of (entries, seen) \<Rightarrow> case x of (path_str, f) \<Rightarrow>
       if take (length pre) path_str \<noteq> pre then (entries, seen)
       else let remainder = drop (length pre) path_str in
       if remainder = [] then (entries, seen)
       else let name = entry_name remainder in
       if name \<in> set seen then (entries, seen)
       else
         (let entry_inode = (case find (\<lambda>(i, p). p = path_str) im of Some (i, _) \<Rightarrow> i | None \<Rightarrow> 0);
              d_type = (if file_len f = 0 then 4 else 8)
          in (entries @ [(name, entry_inode, d_type)], name # seen)))"

definition dir_entries :: "fs_state \<Rightarrow> usize \<Rightarrow> string \<Rightarrow> dirent list" where
  "dir_entries s inode dir_path =
     fst (foldl (dir_scan_step (fs_inode_map s) (dir_prefix dir_path))
       ([(''.'', inode, 4), (''..'', inode, 4)], [''..'', ''.'']) (fs_files s))"

definition dirent_reclen :: "string \<Rightarrow> nat" where
  "dirent_reclen name = (19 + (length name + 1) + 7) div 8 * 8"

definition dirent_bytes :: "nat \<Rightarrow> dirent \<Rightarrow> u8 list" where
  "dirent_bytes idx d =
     (case d of (name, ino, d_type) \<Rightarrow>
        le_bytes 8 ino @ le_bytes 8 (of_nat idx + 1 :: u64) @
        le_bytes 2 (of_nat (dirent_reclen name) :: u16) @ [d_type] @ string_bytes name @ [0] @
        replicate (dirent_reclen name - (19 + (length name + 1))) 0)"

text \<open>The filling loop: the bytes written and the number of entries.\<close>

fun dir_fill :: "nat \<Rightarrow> nat \<Rightarrow> nat \<Rightarrow> dirent list \<Rightarrow> u8 list \<times> nat" where
  "dir_fill buf_len buf_off idx [] = ([], 0)"
| "dir_fill buf_len buf_off idx (d # ds) =
     (let reclen = dirent_reclen (fst d) in
      if buf_len < buf_off + reclen then ([], 0)
      else (case dir_fill buf_len (buf_off + reclen) (idx + 1) ds of
              (bs, n) \<Rightarrow> (dirent_bytes idx d @ bs, n + 1)))"

text \<open>The bytes put at the start of the buffer and the next offset.\<close>

definition read_dir :: "fs_state \<Rightarrow> usize \<Rightarrow> usize \<Rightarrow> usize \<Rightarrow> u8 list \<times> usize" where
  "read_dir s inode buf_len offset =
     (case bt_get (fs_inode_map s) inode of
        None \<Rightarrow> ([], offset)
      | Some dir_path \<Rightarrow>
          (case bt_get (fs_files s) dir_path of
             None \<Rightarrow> ([], offset)
           | Some f \<Rightarrow>
               if file_len f \<noteq> 0 then ([], offset)
               else
                 (let entries = dir_entries s inode dir_path in
                  if of_nat (length entries) \<le> offset then ([], offset)
                  else (case dir_fill (unat buf_len) 0 (unat offset) (drop (unat offset) entries) of
                          (bs, n) \<Rightarrow> (bs, offset + of_nat n)))))"

section \<open>Invariant\<close>

text \<open>
  Inode numbers in use are below the counter, every inode names an existing file and every
  file has an inode; contents are shorter than Rust's allocation limit.
\<close>

definition fs_wf :: "fs_state \<Rightarrow> bool" where
  "fs_wf s \<longleftrightarrow> bt_wf (fs_files s) \<and> bt_wf (fs_inode_map s) \<and>
     (\<forall>i p. bt_get (fs_inode_map s) i = Some p \<longrightarrow> i < fs_next_inode s \<and> bt_get (fs_files s) p \<noteq> None) \<and>
     (\<forall>p. bt_get (fs_files s) p \<noteq> None \<longrightarrow> (\<exists>i. bt_get (fs_inode_map s) i = Some p)) \<and>
     (\<forall>p f. bt_get (fs_files s) p = Some f \<longrightarrow> length (file_slice f) < 2 ^ 63)"

lemma fs_wf_empty: "fs_wf fs_empty"
  by (simp add: fs_wf_def fs_empty_def)

lemma word_less_succ: "(x::usize) < y \<Longrightarrow> y + 1 \<noteq> 0 \<Longrightarrow> x < y + 1" "y + 1 \<noteq> 0 \<Longrightarrow> (y::usize) < y + 1"
proof -
  have "unat (y + 1) = unat y + 1" if "y + 1 \<noteq> 0"
    using that by (simp add: unatSuc add.commute)
  then show "x < y \<Longrightarrow> y + 1 \<noteq> 0 \<Longrightarrow> x < y + 1" "y + 1 \<noteq> 0 \<Longrightarrow> y < y + 1"
    by (simp_all add: word_less_nat_alt)
qed

lemma fs_wf_create:
  assumes wf: "fs_wf s" and room: "fs_next_inode s + 1 \<noteq> 0"
    and len: "length (file_slice \<lparr>file_data = c\<rparr>) < 2 ^ 63"
  shows "fs_wf (create_file s p c)"
proof -
  let ?n = "fs_next_inode s"
  have i: "bt_get (fs_inode_map (create_file s p c)) i = (if i = ?n then Some p else bt_get (fs_inode_map s) i)" for i
    using wf by (simp add: create_file_def Let_def fs_wf_def bt.get_put)
  have f: "bt_get (fs_files (create_file s p c)) q = (if q = p then Some \<lparr>file_data = c\<rparr> else bt_get (fs_files s) q)" for q
    using wf by (simp add: create_file_def Let_def fs_wf_def bt.get_put)
  have fresh: "bt_get (fs_inode_map s) ?n = None"
    using wf by (auto simp: fs_wf_def intro: ccontr)
  have "bt_wf (fs_files (create_file s p c))" "bt_wf (fs_inode_map (create_file s p c))"
    "fs_next_inode (create_file s p c) = ?n + 1"
    using wf by (simp_all add: create_file_def Let_def fs_wf_def bt.inv_put)
  moreover have "\<exists>i. bt_get (fs_inode_map (create_file s p c)) i = Some q"
    if "bt_get (fs_files (create_file s p c)) q \<noteq> None" for q
  proof (cases "q = p")
    case False
    with that wf obtain i where "bt_get (fs_inode_map s) i = Some q"
      by (auto simp: f fs_wf_def)
    with fresh show ?thesis by (metis i option.distinct(1))
  qed (auto simp: i)
  moreover have "j < ?n + 1 \<and> bt_get (fs_files (create_file s p c)) q \<noteq> None"
    if "bt_get (fs_inode_map (create_file s p c)) j = Some q" for j q
    using that wf word_less_succ(1) [OF _ room] word_less_succ(2) [OF room]
    by (auto simp: i f fs_wf_def split: if_splits)
  moreover have "length (file_slice g) < 2 ^ 63" if "bt_get (fs_files (create_file s p c)) q = Some g" for q g
    using that wf len by (auto simp: f fs_wf_def split: if_splits)
  ultimately show ?thesis by (auto simp: fs_wf_def)
qed

lemma fs_lookup_iff:
  assumes "fs_wf s"
  shows "fs_lookup s p = Some i \<longleftrightarrow>
    bt_get (fs_inode_map s) i = Some p \<and> (\<forall>j. bt_get (fs_inode_map s) j = Some p \<longrightarrow> i \<le> j)"
proof -
  have "bt_wf (fs_inode_map s)" using assms by (simp add: fs_wf_def)
  note fl = bt.find_least [OF this, where P = "\<lambda>(inode, q). q = p"]
  have "fs_lookup s p = Some i \<longleftrightarrow> (\<exists>q. find (\<lambda>(inode, q). q = p) (fs_inode_map s) = Some (i, q))"
    by (auto simp: fs_lookup_def)
  also have "\<dots> \<longleftrightarrow> bt_get (fs_inode_map s) i = Some p \<and> (\<forall>j. bt_get (fs_inode_map s) j = Some p \<longrightarrow> i \<le> j)"
    by (auto simp: fl)
  finally show ?thesis .
qed

lemma fs_lookup_None:
  assumes "fs_wf s"
  shows "fs_lookup s p = None \<longleftrightarrow> bt_get (fs_files s) p = None"
proof -
  have "bt_wf (fs_inode_map s)" using assms by (simp add: fs_wf_def)
  note fn = bt.find_none [OF this, where P = "\<lambda>(inode, q). q = p"]
  have "fs_lookup s p = None \<longleftrightarrow> (\<forall>i q. bt_get (fs_inode_map s) i = Some q \<longrightarrow> q \<noteq> p)"
    by (auto simp: fs_lookup_def fn)
  also have "\<dots> \<longleftrightarrow> \<not> (\<exists>i. bt_get (fs_inode_map s) i = Some p)"
    by auto
  also have "\<dots> \<longleftrightarrow> bt_get (fs_files s) p = None"
    using assms unfolding fs_wf_def by blast
  finally show ?thesis .
qed

section \<open>Contents\<close>

lemma unat_of_nat_len: "n < 2 ^ 63 \<Longrightarrow> unat (of_nat n :: usize) = n"
  by (simp add: unat_of_nat)

lemma inode_fileD:
  "inode_file s i = Some (p, f) \<longleftrightarrow> bt_get (fs_inode_map s) i = Some p \<and> bt_get (fs_files s) p = Some f"
  by (auto simp: inode_file_def split: option.splits)

lemma fs_wf_len: "fs_wf s \<Longrightarrow> inode_file s i = Some (p, f) \<Longrightarrow> length (file_slice f) < 2 ^ 63"
  by (auto simp: inode_fileD fs_wf_def)

lemma unat_min: "unat (min a b) = min (unat a) (unat (b :: usize))"
  by (simp add: min_def word_le_nat_alt)

lemma read_inode_eq:
  assumes wf: "fs_wf s" and i: "inode_file s i = Some (p, f)"
  shows "read_inode s i n off =
    (if length (file_slice f) < unat off then Inl (Panic ''range end index out of range for slice'')
     else Inr (take (unat n) (drop (unat off) (file_slice f))))"
proof -
  let ?d = "file_slice f" and ?len = "of_nat (length (file_slice f)) :: usize"
  have len: "unat ?len = length ?d"
    using fs_wf_len [OF wf i] by (rule unat_of_nat_len)
  show ?thesis
  proof (cases "length ?d < unat off")
    case True
    then have "min off ?len = ?len"
      using len by (simp add: min_def word_le_nat_alt)
    then show ?thesis
      using True i by (simp add: read_inode_def slice_def)
  next
    case False
    then have "min off ?len = off" and sub: "unat (?len - off) = length ?d - unat off"
      using len by (simp_all add: min_def word_le_nat_alt unat_sub)
    let ?r = "min (?len - off) n"
    have r: "unat ?r = min (length ?d - unat off) (unat n)"
      by (simp add: unat_min sub)
    have "unat off + unat ?r \<le> length ?d"
      using False by (simp add: r)
    moreover have "unat off + unat ?r < 2 ^ 64"
      using calculation fs_wf_len [OF wf i] by simp
    then have e: "unat (off + ?r) = unat off + unat ?r"
      by (rule unat_add_noov)
    ultimately have "slice ?d off (off + ?r) = Inr (take (unat ?r) (drop (unat off) ?d))"
      by (simp add: slice_def word_less_nat_alt)
    also have "take (unat ?r) (drop (unat off) ?d) = take (unat n) (drop (unat off) ?d)"
      by (simp only: r) (simp add: min_def)
    finally show ?thesis
      using False i \<open>min off ?len = off\<close> by (simp add: read_inode_def Let_def)
  qed
qed

text \<open>What a write of \<open>buf\<close> at \<open>off\<close> makes of the contents \<open>v\<close>.\<close>

definition patched :: "u8 list \<Rightarrow> nat \<Rightarrow> u8 list \<Rightarrow> u8 list" where
  "patched v off buf =
     take off (v @ replicate (off + length buf - length v) 0) @ buf @ drop (off + length buf) v"

lemma length_patched: "length (patched v off buf) = max (length v) (off + length buf)"
  by (auto simp: patched_def)

lemma nth_patched:
  assumes "k < max (length v) (off + length buf)"
  shows "patched v off buf ! k =
    (if off \<le> k \<and> k < off + length buf then buf ! (k - off) else if k < length v then v ! k else 0)"
  using assms by (auto simp: patched_def nth_append min_def)

definition patched_fs :: "fs_state \<Rightarrow> string \<Rightarrow> u8 list \<Rightarrow> fs_state" where
  "patched_fs s p w = s\<lparr>fs_files := bt_modify (fs_files s) p (\<lambda>f. f\<lparr>file_data := Dynamic w\<rparr>)\<rparr>"

lemma write_inode_eq:
  assumes wf: "fs_wf s" and i: "inode_file s i = Some (p, f)" and dyn: "file_data f = Dynamic v"
    and room: "unat off + length buf < 2 ^ 63"
  shows "write_inode s i buf off = Inr (of_nat (length buf), patched_fs s p (patched v (unat off) buf))"
proof -
  let ?n = "of_nat (length buf) :: usize"
  have v: "length v < 2 ^ 63"
    using fs_wf_len [OF wf i] by (simp add: file_slice_def dyn)
  have n: "unat ?n = length buf" using room by (intro unat_of_nat_len) simp
  have e: "unat (off + ?n) = unat off + length buf"
    using room n by (subst unat_add_noov) simp_all
  have lv: "unat (of_nat (length v) :: usize) = length v"
    using v by (rule unat_of_nat_len)
  define w where "w = (if length v < unat off + length buf then v @ replicate (unat off + length buf - length v) 0 else v)"
  have grow: "(if of_nat (length v) < off + ?n then vec_resize v (off + ?n) else Inr v) = Inr w"
    using room by (auto simp: w_def word_less_nat_alt lv e vec_resize_def)
  have "slice w off (off + ?n) = Inr (take (length buf) (drop (unat off) w))"
    using room by (auto simp: slice_def w_def word_less_nat_alt e n unat_sub word_le_nat_alt)
  moreover have "take (unat off) w @ buf @ drop (unat off + length buf) w = patched v (unat off) buf"
    by (auto simp: w_def patched_def)
  ultimately show ?thesis
    using i dyn grow by (simp add: write_inode_def file_as_mut_vec_def patched_fs_def Let_def e)
qed

lemma fs_wf_modify:
  assumes wf: "fs_wf s" and len: "length d < 2 ^ 63"
  shows "fs_wf (s\<lparr>fs_files := bt_modify (fs_files s) p (\<lambda>f. f\<lparr>file_data := Dynamic d\<rparr>)\<rparr>)"
proof -
  have g: "bt_get (bt_modify (fs_files s) p g) q =
      (if q = p then map_option g (bt_get (fs_files s) p) else bt_get (fs_files s) q)" for g q
    using wf by (simp add: fs_wf_def bt.get_upd)
  show ?thesis
    using wf len by (auto simp: fs_wf_def g bt.inv_upd file_slice_def)
qed

lemma patched_file:
  assumes "fs_wf s" "inode_file s i = Some (p, f)" "file_data f = Dynamic v" "unat off + length buf < 2 ^ 63"
  defines "w \<equiv> patched v (unat off) buf"
  shows "fs_wf (patched_fs s p w)" "inode_file (patched_fs s p w) i = Some (p, \<lparr>file_data = Dynamic w\<rparr>)"
    "read_inode (patched_fs s p w) i (of_nat (length buf)) off = Inr buf"
proof -
  have "length v < 2 ^ 63"
    using fs_wf_len [OF assms(1,2)] assms(3) by (simp add: file_slice_def)
  then show wf: "fs_wf (patched_fs s p w)"
    using assms(4) unfolding patched_fs_def w_def by (intro fs_wf_modify [OF assms(1)]) (simp add: length_patched)
  have "bt_get (bt_modify (fs_files s) p h) p = map_option h (bt_get (fs_files s) p)" for h
    using assms(1) by (simp add: fs_wf_def bt.get_upd)
  then show i: "inode_file (patched_fs s p w) i = Some (p, \<lparr>file_data = Dynamic w\<rparr>)"
    using assms(2) by (simp add: inode_fileD patched_fs_def)
  have "unat (of_nat (length buf) :: usize) = length buf"
    using assms(4) by (intro unat_of_nat_len) simp
  then show "read_inode (patched_fs s p w) i (of_nat (length buf)) off = Inr buf"
    unfolding read_inode_eq [OF wf i] by (simp add: file_slice_def w_def length_patched) (simp add: patched_def)
qed

section \<open>Properties\<close>

text \<open>
  C25.  Writing to a dynamic file: the write returns the number of bytes, the file keeps its
  old bytes outside the written range, is extended with zeros when the range starts beyond
  its end, every other file is unchanged, the invariant holds, and reading the range back
  returns what was written.
\<close>

theorem write_inode_correct:
  assumes "fs_wf s" "inode_file s i = Some (p, f)" "file_data f = Dynamic v" "unat off + length buf < 2 ^ 63"
  shows "\<exists>s' w. write_inode s i buf off = Inr (of_nat (length buf), s') \<and> fs_wf s' \<and>
    inode_file s' i = Some (p, \<lparr>file_data = Dynamic w\<rparr>) \<and>
    length w = max (length v) (unat off + length buf) \<and>
    (\<forall>k < length w. w ! k =
       (if unat off \<le> k \<and> k < unat off + length buf then buf ! (k - unat off)
        else if k < length v then v ! k else 0)) \<and>
    (\<forall>q. q \<noteq> p \<longrightarrow> bt_get (fs_files s') q = bt_get (fs_files s) q) \<and>
    read_inode s' i (of_nat (length buf)) off = Inr buf"
proof -
  let ?w = "patched v (unat off) buf"
  note w = patched_file [OF assms]
  have "bt_get (fs_files (patched_fs s p ?w)) q = bt_get (fs_files s) q" if "q \<noteq> p" for q
    using assms(1) that by (simp add: patched_fs_def fs_wf_def bt.get_upd)
  then show ?thesis
    using w write_inode_eq [OF assms]
    by (intro exI [of _ "patched_fs s p ?w"] exI [of _ ?w]) (simp add: length_patched nth_patched)
qed

text \<open>A small file system for the examples.\<close>

definition demo_fs :: fs_state where
  "demo_fs = create_file_dynamic (fs_mkdir fs_empty ''/'') ''/log'' [1, 2, 3]"

lemma demo_fs_wf: "fs_wf demo_fs"
  unfolding demo_fs_def create_file_dynamic_def fs_mkdir_def create_file_static_def
  by (intro fs_wf_create fs_wf_empty)
    (simp_all add: file_slice_def create_file_def fs_empty_def)

lemma demo_fs_inode: "inode_file demo_fs 2 = Some (''/log'', \<lparr>file_data = Dynamic [1, 2, 3]\<rparr>)"
  by (simp add: inode_file_def demo_fs_def create_file_dynamic_def fs_mkdir_def create_file_static_def
      create_file_def fs_empty_def bt_get_def)

theorem write_inode_correct_witness:
  "\<exists>s'. write_inode demo_fs 2 [7, 8] 5 = Inr (2, s') \<and> read_inode s' 2 2 5 = Inr [7, 8] \<and>
     (\<exists>w. inode_file s' 2 = Some (''/log'', \<lparr>file_data = Dynamic w\<rparr>) \<and> length w = 7 \<and> w ! 3 = 0)"
proof -
  have "unat (5 :: usize) + length [7, 8 :: u8] < 2 ^ 63" by simp
  from write_inode_correct [OF demo_fs_wf demo_fs_inode _ this, of "[1, 2, 3]"]
  obtain s' w where "write_inode demo_fs 2 [7, 8] 5 = Inr (2, s')"
    "inode_file s' 2 = Some (''/log'', \<lparr>file_data = Dynamic w\<rparr>)" "length w = 7"
    "\<forall>k < length w. w ! k = (if 5 \<le> k \<and> k < 7 then [7, 8] ! (k - 5) else if k < 3 then [1, 2, 3] ! k else 0)"
    "read_inode s' 2 2 5 = Inr [7, 8]"
    by auto
  then show ?thesis by auto
qed

text \<open>
  C39.  Reading never returns stale or foreign bytes: at an offset within the file
  \<open>read_inode\<close> returns exactly the bytes from there, cut to the buffer; at an offset beyond
  the end it panics, because the slice is taken before the empty read is noticed.
\<close>

theorem read_inode_outcome:
  assumes "fs_wf s" "inode_file s i = Some (p, f)"
  shows "read_inode s i n off =
    (if length (file_slice f) < unat off then Inl (Panic ''range end index out of range for slice'')
     else Inr (take (unat n) (drop (unat off) (file_slice f))))"
  by (rule read_inode_eq [OF assms])

theorem read_inode_outcome_witness:
  "read_inode demo_fs 2 10 1 = Inr [2, 3] \<and> read_inode demo_fs 2 10 3 = Inr [] \<and>
   read_inode demo_fs 2 10 4 = Inl (Panic ''range end index out of range for slice'')"
  using read_inode_outcome [OF demo_fs_wf demo_fs_inode] by (simp add: file_slice_def)

lemma create_file_step:
  assumes wf: "fs_wf s" and "fs_next_inode s + 1 \<noteq> 0" "length (file_slice \<lparr>file_data = c\<rparr>) < 2 ^ 63"
  shows "fs_wf (create_file s p c) \<and>
    fs_lookup (create_file s p c) q =
      (if q = p \<and> fs_lookup s p = None then Some (fs_next_inode s) else fs_lookup s q) \<and>
    bt_get (fs_files (create_file s p c)) q =
      (if q = p then Some \<lparr>file_data = c\<rparr> else bt_get (fs_files s) q)"
proof -
  have wf': "fs_wf (create_file s p c)" by (rule fs_wf_create [OF assms])
  have f: "bt_get (fs_files (create_file s p c)) q =
      (if q = p then Some \<lparr>file_data = c\<rparr> else bt_get (fs_files s) q)"
    using wf by (simp add: create_file_def Let_def fs_wf_def bt.get_put)
  have g: "bt_get (fs_inode_map (create_file s p c)) i =
      (if i = fs_next_inode s then Some p else bt_get (fs_inode_map s) i)" for i
    using wf by (simp add: create_file_def Let_def fs_wf_def bt.get_put)
  have below: "bt_get (fs_inode_map s) i = Some r \<Longrightarrow> i < fs_next_inode s" for i r
    using wf by (simp add: fs_wf_def)
  have "fs_lookup (create_file s p c) q =
      (if q = p \<and> fs_lookup s p = None then Some (fs_next_inode s) else fs_lookup s q)"
  proof (cases "fs_lookup s q")
    case (Some i)
    then have "fs_lookup (create_file s p c) q = Some i"
      unfolding fs_lookup_iff [OF wf] fs_lookup_iff [OF wf'] g
      using below by (auto simp: less_imp_le)
    with Some show ?thesis by auto
  next
    case None
    show ?thesis
    proof (cases "q = p")
      case True
      have no: "bt_get (fs_inode_map s) i \<noteq> Some p" for i
        using None [unfolded True fs_lookup_None [OF wf]] wf unfolding fs_wf_def by blast
      have "fs_lookup (create_file s p c) q = Some (fs_next_inode s)"
        unfolding fs_lookup_iff [OF wf'] g using True no by auto
      with None True show ?thesis by simp
    next
      case False
      then have "fs_lookup (create_file s p c) q = None"
        using None f unfolding fs_lookup_None [OF wf] fs_lookup_None [OF wf'] by simp
      with None False show ?thesis by simp
    qed
  qed
  with wf' f show ?thesis by blast
qed

text \<open>
  Creating a file keeps the invariant; the path then resolves to its oldest inode, which
  is the new one exactly when the path did not exist, reading it gives the new contents, and
  every other path resolves as before.
\<close>

theorem create_file_correct:
  assumes "fs_wf s" "fs_next_inode s + 1 \<noteq> 0" "length (file_slice \<lparr>file_data = c\<rparr>) < 2 ^ 63"
  shows "fs_wf (create_file s p c) \<and>
    fs_lookup (create_file s p c) q =
      (if q = p \<and> fs_lookup s p = None then Some (fs_next_inode s) else fs_lookup s q) \<and>
    bt_get (fs_files (create_file s p c)) q =
      (if q = p then Some \<lparr>file_data = c\<rparr> else bt_get (fs_files s) q)"
  by (rule create_file_step [OF assms])

theorem create_file_correct_witness:
  "fs_lookup (create_file demo_fs ''/log'' (Static [9])) ''/log'' = Some 2 \<and>
   fs_lookup (create_file demo_fs ''/new'' (Static [9])) ''/new'' = Some 3"
proof -
  have n: "fs_next_inode demo_fs = 3" and l: "fs_lookup demo_fs ''/log'' = Some 2" "fs_lookup demo_fs ''/new'' = None"
    by (simp_all add: demo_fs_def create_file_dynamic_def fs_mkdir_def create_file_static_def
        create_file_def fs_empty_def fs_lookup_def)
  have *: "fs_next_inode demo_fs + 1 \<noteq> 0" "length (file_slice \<lparr>file_data = Static [9]\<rparr>) < 2 ^ 63"
    by (simp_all add: n file_slice_def)
  show ?thesis
    using create_file_correct [OF demo_fs_wf *, of "''/log''" "''/log''"]
      create_file_correct [OF demo_fs_wf *, of "''/new''" "''/new''"] n l by simp
qed

section \<open>The initial file system\<close>

definition create_path :: "fs_create \<Rightarrow> string" where
  "create_path c = (case c of Mkdir p \<Rightarrow> p | MkStatic p _ \<Rightarrow> p | MkDynamic p _ \<Rightarrow> p)"

definition create_contents :: "fs_create \<Rightarrow> file_contents" where
  "create_contents c = (case c of Mkdir _ \<Rightarrow> Static [] | MkStatic _ d \<Rightarrow> Static d | MkDynamic _ d \<Rightarrow> Dynamic d)"

lemma fs_create_step_eq: "fs_create_step s c = create_file s (create_path c) (create_contents c)"
  by (cases c) (simp_all add: fs_create_step_def create_path_def create_contents_def fs_mkdir_def
      create_file_static_def create_file_dynamic_def)

definition contents_ok :: "file_contents \<Rightarrow> bool" where
  "contents_ok c \<longleftrightarrow> length (file_slice \<lparr>file_data = c\<rparr>) < 2 ^ 63"

text \<open>Creating distinct new paths gives them consecutive inodes.\<close>

lemma create_run:
  assumes "fs_wf s" "unat (fs_next_inode s) + length cs < 2 ^ 64" "distinct (map create_path cs)"
    and "\<forall>c \<in> set cs. contents_ok (create_contents c) \<and> fs_lookup s (create_path c) = None"
  defines "t \<equiv> foldl fs_create_step s cs"
  shows "fs_wf t \<and> unat (fs_next_inode t) = unat (fs_next_inode s) + length cs \<and>
    (\<forall>k < length cs. fs_lookup t (create_path (cs ! k)) = Some (fs_next_inode s + of_nat k) \<and>
       bt_get (fs_files t) (create_path (cs ! k)) = Some \<lparr>file_data = create_contents (cs ! k)\<rparr>) \<and>
    (\<forall>q. q \<notin> create_path ` set cs \<longrightarrow> fs_lookup t q = fs_lookup s q)"
  using assms(1-4) unfolding t_def
proof (induction cs rule: rev_induct)
  case (snoc c cs)
  let ?t = "foldl fs_create_step s cs"
  have IH: "fs_wf ?t" "unat (fs_next_inode ?t) = unat (fs_next_inode s) + length cs"
    "\<And>k. k < length cs \<Longrightarrow> fs_lookup ?t (create_path (cs ! k)) = Some (fs_next_inode s + of_nat k) \<and>
       bt_get (fs_files ?t) (create_path (cs ! k)) = Some \<lparr>file_data = create_contents (cs ! k)\<rparr>"
    "\<And>q. q \<notin> create_path ` set cs \<Longrightarrow> fs_lookup ?t q = fs_lookup s q"
    using snoc by auto
  have n: "unat (fs_next_inode ?t + 1) = unat (fs_next_inode s) + length cs + 1"
    using IH(2) snoc.prems(2) by (subst unat_add_noov) simp_all
  then have "fs_next_inode ?t + 1 \<noteq> 0" by (metis Suc_eq_plus1 nat.distinct(1) unat_0)
  moreover have "length (file_slice \<lparr>file_data = create_contents c\<rparr>) < 2 ^ 63"
    using snoc.prems(4) by (simp add: contents_ok_def)
  ultimately have cr: "fs_wf (create_file ?t (create_path c) (create_contents c)) \<and>
    fs_lookup (create_file ?t (create_path c) (create_contents c)) q =
      (if q = create_path c \<and> fs_lookup ?t (create_path c) = None then Some (fs_next_inode ?t) else fs_lookup ?t q) \<and>
    bt_get (fs_files (create_file ?t (create_path c) (create_contents c))) q =
      (if q = create_path c then Some \<lparr>file_data = create_contents c\<rparr> else bt_get (fs_files ?t) q)" for q
    by (rule create_file_step [OF IH(1)])
  have new: "create_path c \<notin> create_path ` set cs" "fs_lookup ?t (create_path c) = None"
    using snoc.prems(3,4) IH(4) by auto
  have "fs_next_inode ?t = fs_next_inode s + of_nat (length cs)"
    using IH(2) snoc.prems(2) by (intro word_eq_unatI) (simp add: unat_add_noov unat_of_nat)
  moreover have "fs_next_inode (create_file ?t (create_path c) (create_contents c)) = fs_next_inode ?t + 1"
    by (simp add: create_file_def Let_def)
  moreover have "create_path (cs ! k) \<noteq> create_path c" if "k < length cs" for k
    using new(1) that by (metis imageI nth_mem)
  moreover have "foldl fs_create_step s (cs @ [c]) = create_file ?t (create_path c) (create_contents c)"
    by (simp add: fs_create_step_eq [of ?t])
  ultimately show ?case
    using cr new IH n by (auto simp: nth_append less_Suc_eq simp del: foldl_append)
qed simp

lemma fs_creations_distinct: "distinct (map create_path (fs_creations im))"
  by (simp add: fs_creations_def create_path_def)

lemma fs_creations_length: "length (fs_creations im) = 73"
  by (simp add: fs_creations_def)

definition images_ok :: "images \<Rightarrow> bool" where
  "images_ok im \<longleftrightarrow> length (img_nginx im) < 2 ^ 63 \<and> length (img_test_malloc im) < 2 ^ 63 \<and>
     length (img_busybox im) < 2 ^ 63 \<and> length (img_nss_so im) < 2 ^ 63"

lemma fs_creations_ok:
  assumes "images_ok im"
  shows "\<forall>c \<in> set (fs_creations im). contents_ok (create_contents c)"
  using assms
  by (simp add: fs_creations_def images_ok_def contents_ok_def create_contents_def file_slice_def
      text_bytes_def string_bytes_def index_html_def nginx_config_def nginx_local_config_def)

lemma fs_init_run:
  assumes "images_ok im"
  shows "fs_wf (fs_init im fs_empty) \<and> length (fs_creations im) = 73 \<and>
    (\<forall>k < 73. fs_lookup (fs_init im fs_empty) (create_path (fs_creations im ! k)) = Some (1 + of_nat k) \<and>
       bt_get (fs_files (fs_init im fs_empty)) (create_path (fs_creations im ! k)) =
         Some \<lparr>file_data = create_contents (fs_creations im ! k)\<rparr>) \<and>
    (\<forall>q. q \<notin> create_path ` set (fs_creations im) \<longrightarrow> fs_lookup (fs_init im fs_empty) q = None)"
proof -
  have n: "fs_next_inode fs_empty = 1" "\<And>q. fs_lookup fs_empty q = None"
    by (simp_all add: fs_empty_def fs_lookup_def)
  then have "unat (fs_next_inode fs_empty) + length (fs_creations im) < 2 ^ 64"
    by (simp add: fs_creations_length)
  moreover have "\<forall>c \<in> set (fs_creations im). contents_ok (create_contents c) \<and> fs_lookup fs_empty (create_path c) = None"
    using fs_creations_ok [OF assms] n(2) by simp
  ultimately show ?thesis
    using create_run [OF fs_wf_empty _ fs_creations_distinct, of im] n
    by (simp add: fs_init_def fs_creations_length)
qed

text \<open>
  C40.  Booting the file system creates 73 files at distinct paths: the \<open>k\<close>-th one created
  has inode \<open>k + 1\<close> and its contents, no other path exists, and the invariant holds.
\<close>

theorem fs_init_correct:
  assumes "images_ok im"
  shows "fs_wf (fs_init im fs_empty) \<and> length (fs_creations im) = 73 \<and>
    (\<forall>k < 73. fs_lookup (fs_init im fs_empty) (create_path (fs_creations im ! k)) = Some (1 + of_nat k) \<and>
       bt_get (fs_files (fs_init im fs_empty)) (create_path (fs_creations im ! k)) =
         Some \<lparr>file_data = create_contents (fs_creations im ! k)\<rparr>) \<and>
    (\<forall>q. q \<notin> create_path ` set (fs_creations im) \<longrightarrow> fs_lookup (fs_init im fs_empty) q = None)"
  using assms by (rule fs_init_run)

lemma fs_creations_nth:
  "fs_creations im ! 0 = Mkdir ''/''" "fs_creations im ! 33 = MkStatic ''/bin/sh'' (img_busybox im)"
  "fs_creations im ! 29 = MkStatic ''/sbin/nginx'' (img_nginx im)"
  by (simp_all add: fs_creations_def)

theorem fs_init_correct_witness:
  "fs_lookup (fs_init \<lparr>img_nginx = [1], img_test_malloc = [2], img_busybox = [3], img_nss_so = [4]\<rparr> fs_empty)
     ''/bin/sh'' = Some 34 \<and>
   fs_lookup (fs_init \<lparr>img_nginx = [1], img_test_malloc = [2], img_busybox = [3], img_nss_so = [4]\<rparr> fs_empty)
     ''/bin/nginx'' = None"
proof -
  let ?im = "\<lparr>img_nginx = [1], img_test_malloc = [2], img_busybox = [3], img_nss_so = [4]\<rparr> :: images"
  have ok: "images_ok ?im" by (simp add: images_ok_def)
  note init = fs_init_correct [OF ok]
  have "fs_lookup (fs_init ?im fs_empty) (create_path (fs_creations ?im ! 33)) = Some (1 + of_nat 33)"
    by (rule conjunct1, rule init [THEN conjunct2, THEN conjunct2, THEN conjunct1, rule_format]) simp
  then have sh: "fs_lookup (fs_init ?im fs_empty) ''/bin/sh'' = Some 34"
    by (simp add: fs_creations_nth create_path_def)
  have "''/bin/nginx'' \<notin> create_path ` set (fs_creations ?im)"
    by (simp add: fs_creations_def create_path_def)
  then have "fs_lookup (fs_init ?im fs_empty) ''/bin/nginx'' = None"
    using init by blast
  with sh show ?thesis ..
qed

end
