(* ===== verification/Fs_Dir.thy ===== *)
theory Fs_Dir
  imports Ram_Fs
begin

text \<open>
  Directory listings of \<^verbatim>\<open>src/src/fs.rs\<close>: which names \<^verbatim>\<open>read_dir\<close> reports, and that the records
  it packs into the caller's buffer can be read back.
\<close>

section \<open>Listings\<close>

text \<open>The name under which a path shows up in the listing of a directory, if it does.\<close>

definition listed_name :: "string \<Rightarrow> string \<Rightarrow> string option" where
  "listed_name pre path =
     (if take (length pre) path = pre \<and> drop (length pre) path \<noteq> []
      then Some (entry_name (drop (length pre) path)) else None)"

lemma dir_scan_step_eq:
  "dir_scan_step im pre (es, seen) (path, f) =
     (case listed_name pre path of
        None \<Rightarrow> (es, seen)
      | Some name \<Rightarrow>
          if name \<in> set seen then (es, seen)
          else (es @ [(name, case find (\<lambda>(i, p). p = path) im of Some (i, _) \<Rightarrow> i | None \<Rightarrow> 0,
                       if file_len f = 0 then 4 else 8)], name # seen))"
  by (simp add: dir_scan_step_def listed_name_def Let_def)

lemma dir_scan_names:
  assumes "distinct (map fst es)" "set seen = fst ` set es"
    and "foldl (dir_scan_step im pre) (es, seen) xs = (es', seen')"
  shows "\<exists>rest. es' = es @ rest \<and> distinct (map fst es') \<and> set seen' = fst ` set es' \<and>
    fst ` set es' = fst ` set es \<union> {n. \<exists>x \<in> set xs. listed_name pre (fst x) = Some n}"
  using assms
proof (induction xs arbitrary: es seen)
  case (Cons x xs)
  obtain path f where x: "x = (path, f)" by fastforce
  obtain es1 seen1 where step: "dir_scan_step im pre (es, seen) x = (es1, seen1)" by fastforce
  have one: "(\<exists>rest. es1 = es @ rest) \<and> distinct (map fst es1) \<and> set seen1 = fst ` set es1 \<and>
    fst ` set es1 = fst ` set es \<union> {n. listed_name pre path = Some n}"
  proof (cases "listed_name pre path")
    case None
    then show ?thesis
      using step Cons.prems(1,2) by (simp add: x dir_scan_step_eq)
  next
    case (Some n)
    show ?thesis
    proof (cases "n \<in> set seen")
      case True
      then show ?thesis
        using step Some Cons.prems(1,2) by (auto simp: x dir_scan_step_eq)
    next
      case False
      then have "es1 = es @ [(n, case find (\<lambda>(i, p). p = path) im of Some (i, _) \<Rightarrow> i | None \<Rightarrow> 0,
          if file_len f = 0 then 4 else 8)]" "seen1 = n # seen"
        using step Some by (simp_all add: x dir_scan_step_eq)
      then show ?thesis
        using False Some Cons.prems(1,2) by simp
    qed
  qed
  have "foldl (dir_scan_step im pre) (es1, seen1) xs = (es', seen')"
    using Cons.prems(3) step by simp
  then have "\<exists>rest. es' = es1 @ rest \<and> distinct (map fst es') \<and> set seen' = fst ` set es' \<and>
    fst ` set es' = fst ` set es1 \<union> {n. \<exists>x \<in> set xs. listed_name pre (fst x) = Some n}"
    using one by (intro Cons.IH) blast+
  moreover have "\<exists>rest. es1 = es @ rest" "fst ` set es1 = fst ` set es \<union> {n. listed_name pre path = Some n}"
    using one by blast+
  ultimately show ?case
    by (auto simp: x)
qed simp

text \<open>Every added entry describes the first path, in key order, that shows up under its name.\<close>

definition path_inode :: "(usize, string) btree \<Rightarrow> string \<Rightarrow> u64" where
  "path_inode im path = (case find (\<lambda>(i, p). p = path) im of Some (i, _) \<Rightarrow> i | None \<Rightarrow> 0)"

definition first_listed :: "string \<Rightarrow> (string \<times> ram_file) list \<Rightarrow> string \<Rightarrow> string \<times> ram_file \<Rightarrow> bool" where
  "first_listed pre xs n x \<longleftrightarrow>
     (\<exists>ys zs. xs = ys @ x # zs \<and> listed_name pre (fst x) = Some n \<and>
        (\<forall>y \<in> set ys. listed_name pre (fst y) \<noteq> Some n))"

lemma first_listed_Cons:
  "first_listed pre xs n x \<Longrightarrow> listed_name pre (fst y) \<noteq> Some n \<Longrightarrow> first_listed pre (y # xs) n x"
  unfolding first_listed_def by (metis append_Cons set_ConsD)

lemma first_listed_here: "listed_name pre (fst x) = Some n \<Longrightarrow> first_listed pre (x # xs) n x"
  unfolding first_listed_def by (metis append_Nil empty_iff list.set(1))

lemma dir_scan_source:
  assumes "foldl (dir_scan_step im pre) (es, seen) xs = (es', seen')" "(n, i, ty) \<in> set es'" "(n, i, ty) \<notin> set es"
  shows "n \<notin> set seen \<and> (\<exists>path f. first_listed pre xs n (path, f) \<and>
    i = path_inode im path \<and> ty = (if file_len f = 0 then 4 else 8))"
  using assms
proof (induction xs arbitrary: es seen)
  case (Cons x xs)
  obtain path f where x: "x = (path, f)" by fastforce
  obtain es1 seen1 where step: "dir_scan_step im pre (es, seen) x = (es1, seen1)" by fastforce
  with Cons.prems(1) have run: "foldl (dir_scan_step im pre) (es1, seen1) xs = (es', seen')" by simp
  show ?case
  proof (cases "(n, i, ty) \<in> set es1")
    case True
    then have "n \<notin> set seen \<and> listed_name pre path = Some n \<and> i = path_inode im path \<and>
        ty = (if file_len f = 0 then 4 else 8)"
      using step Cons.prems(3) by (auto simp: x dir_scan_step_eq path_inode_def split: option.splits if_splits)
    then show ?thesis
      using first_listed_here [of pre "(path, f)" n xs] by (auto simp: x)
  next
    case False
    have sub: "set seen \<subseteq> set seen1" "listed_name pre path = Some m \<Longrightarrow> m \<in> set seen1" for m
      using step by (auto simp: x dir_scan_step_eq split: option.splits if_splits)
    from Cons.IH [OF run Cons.prems(2) False] obtain q g where q: "n \<notin> set seen1"
      "first_listed pre xs n (q, g)" "i = path_inode im q" "ty = (if file_len g = 0 then 4 else 8)"
      by blast
    then have "listed_name pre (fst x) \<noteq> Some n" using sub(2) by (auto simp: x)
    with q sub(1) show ?thesis
      using first_listed_Cons [OF q(2)] by blast
  qed
qed simp

text \<open>A name is a path component, and a child comes before the paths below it.\<close>

lemma listed_name_shape:
  "listed_name pre path = Some n \<longleftrightarrow>
     (\<exists>r. path = pre @ n @ r \<and> CHR ''/'' \<notin> set n \<and> (r = [] \<and> n \<noteq> [] \<or> (\<exists>t. r = CHR ''/'' # t)))"
proof
  let ?d = "drop (length pre) path" and ?P = "\<lambda>c. c \<noteq> CHR ''/''"
  assume "listed_name pre path = Some n"
  then have tk: "take (length pre) path = pre" and ne: "?d \<noteq> []" and n: "n = takeWhile ?P ?d"
    by (simp_all add: listed_name_def entry_name_def split: if_splits)
  have path: "path = pre @ ?d"
    using append_take_drop_id [of "length pre" path] tk by simp
  have d: "?d = n @ dropWhile ?P ?d" by (simp only: n takeWhile_dropWhile_id)
  have slash: "CHR ''/'' \<notin> set n" using set_takeWhileD [of _ ?P ?d] unfolding n by blast
  have "dropWhile ?P ?d = [] \<or> (\<exists>t. dropWhile ?P ?d = CHR ''/'' # t)"
    using hd_dropWhile [of ?P ?d] by (cases "dropWhile ?P ?d") simp_all
  then show "\<exists>r. path = pre @ n @ r \<and> CHR ''/'' \<notin> set n \<and>
      (r = [] \<and> n \<noteq> [] \<or> (\<exists>t. r = CHR ''/'' # t))"
    using path d slash ne by (intro exI [of _ "dropWhile ?P ?d"]) (metis append_Nil)
next
  let ?P = "\<lambda>c. c \<noteq> CHR ''/''"
  assume "\<exists>r. path = pre @ n @ r \<and> CHR ''/'' \<notin> set n \<and> (r = [] \<and> n \<noteq> [] \<or> (\<exists>t. r = CHR ''/'' # t))"
  then obtain r where r: "path = pre @ n @ r" "CHR ''/'' \<notin> set n" "r = [] \<and> n \<noteq> [] \<or> (\<exists>t. r = CHR ''/'' # t)"
    by blast
  have "takeWhile ?P (n @ r) = n @ takeWhile ?P r"
    using r(2) by (intro takeWhile_append2) metis
  moreover have "takeWhile ?P r = []" "n @ r \<noteq> []" using r(3) by auto
  ultimately show "listed_name pre path = Some n"
    by (simp add: listed_name_def entry_name_def r(1))
qed

lemma list_le_append: "(xs :: 'a::linorder list) \<le> xs @ ys"
  by (induction xs) simp_all

lemma first_listed_child:
  assumes wf: "bt_wf m" and f: "bt_get m (pre @ n) = Some f" and n: "n \<noteq> []"
    and first: "first_listed pre m n (q, g)"
  shows "q = pre @ n \<and> g = f"
proof -
  from first obtain ys zs where m: "m = ys @ (q, g) # zs" and q: "listed_name pre q = Some n"
    and no: "\<forall>y \<in> set ys. listed_name pre (fst y) \<noteq> Some n"
    by (auto simp: first_listed_def)
  from q obtain r where r: "q = pre @ n @ r" "CHR ''/'' \<notin> set n"
    by (auto simp: listed_name_shape)
  have "(pre @ n, f) \<in> set m"
    using bt.entries_get [OF wf] f by blast
  moreover have "(pre @ n, f) \<notin> set ys"
    using no n r(2) by (force simp: listed_name_shape)
  moreover have "(pre @ n, f) \<notin> set zs"
  proof
    assume "(pre @ n, f) \<in> set zs"
    then have "q < pre @ n"
      using wf unfolding m bt_wf_def by (auto simp: sorted_wrt_append)
    moreover have "pre @ n \<le> q" using list_le_append [of "pre @ n" r] by (simp add: r(1))
    ultimately show False by simp
  qed
  ultimately show ?thesis by (auto simp: m)
qed

lemma dir_entries_scan:
  obtains rest seen where
    "foldl (dir_scan_step (fs_inode_map s) (dir_prefix d)) ([(''.'', inode, 4), (''..'', inode, 4)], [''..'', ''.''])
       (fs_files s) = (dir_entries s inode d, seen)"
    "dir_entries s inode d = [(''.'', inode, 4), (''..'', inode, 4)] @ rest"
    "distinct (map fst (dir_entries s inode d))"
    "fst ` set (dir_entries s inode d) =
       {''.'', ''..''} \<union> {n. \<exists>x \<in> set (fs_files s). listed_name (dir_prefix d) (fst x) = Some n}"
proof -
  let ?b = "[(''.'', inode, 4), (''..'', inode, 4)] :: dirent list" and ?se = "[''..'', ''.''] :: string list"
  obtain es seen where run: "foldl (dir_scan_step (fs_inode_map s) (dir_prefix d)) (?b, ?se) (fs_files s) = (es, seen)"
    by fastforce
  then have es: "dir_entries s inode d = es" by (simp add: dir_entries_def)
  have b: "distinct (map fst ?b)" "set ?se = fst ` set ?b" by auto
  from dir_scan_names [OF b run] obtain rest where
    "es = ?b @ rest" "distinct (map fst es)"
    "fst ` set es = fst ` set ?b \<union> {n. \<exists>x \<in> set (fs_files s). listed_name (dir_prefix d) (fst x) = Some n}"
    by blast
  then show thesis
    using run by (intro that [of seen rest]) (simp_all add: es)
qed

section \<open>Properties\<close>

text \<open>
  C27.  The listing of a directory starts with the two dot entries, lists every name at most
  once, lists exactly the first components of the paths below the directory, and gives every
  child that exists as a file its inode and its type.
\<close>

theorem dir_listing_correct:
  assumes "fs_wf s"
  shows "take 2 (dir_entries s inode d) = [(''.'', inode, 4), (''..'', inode, 4)] \<and>
    distinct (map fst (dir_entries s inode d)) \<and>
    (\<forall>n. n \<in> fst ` set (dir_entries s inode d) \<longleftrightarrow> n = ''.'' \<or> n = ''..'' \<or>
       (\<exists>path. bt_get (fs_files s) path \<noteq> None \<and> listed_name (dir_prefix d) path = Some n)) \<and>
    (\<forall>n i ty f. (n, i, ty) \<in> set (drop 2 (dir_entries s inode d)) \<longrightarrow> n \<noteq> [] \<longrightarrow>
       bt_get (fs_files s) (dir_prefix d @ n) = Some f \<longrightarrow>
       fs_lookup s (dir_prefix d @ n) = Some i \<and> ty = (if file_len f = 0 then 4 else 8))"
proof -
  let ?pre = "dir_prefix d" and ?b = "[(''.'', inode, 4), (''..'', inode, 4)] :: dirent list"
  have wf: "bt_wf (fs_files s)" using assms by (simp add: fs_wf_def)
  obtain rest seen where run: "foldl (dir_scan_step (fs_inode_map s) ?pre) (?b, [''..'', ''.''])
      (fs_files s) = (dir_entries s inode d, seen)"
    and es: "dir_entries s inode d = ?b @ rest" "distinct (map fst (dir_entries s inode d))"
    "fst ` set (dir_entries s inode d) =
       {''.'', ''..''} \<union> {n. \<exists>x \<in> set (fs_files s). listed_name ?pre (fst x) = Some n}"
    by (rule dir_entries_scan)
  have "fs_lookup s (?pre @ n) = Some i \<and> ty = (if file_len f = 0 then 4 else 8)"
    if mem: "(n, i, ty) \<in> set rest" and n: "n \<noteq> []" and f: "bt_get (fs_files s) (?pre @ n) = Some f" for n i ty f
  proof -
    have "(n, i, ty) \<notin> set ?b" using es(1,2) mem by (auto simp: image_iff)
    moreover have "(n, i, ty) \<in> set (dir_entries s inode d)" using mem by (simp add: es(1))
    ultimately obtain q g where q: "first_listed ?pre (fs_files s) n (q, g)"
      "i = path_inode (fs_inode_map s) q" "ty = (if file_len g = 0 then 4 else 8)"
      using dir_scan_source [OF run] by blast
    then have "q = ?pre @ n" "g = f" using first_listed_child [OF wf f n q(1)] by simp_all
    moreover have "fs_lookup s (?pre @ n) \<noteq> None"
      using f by (simp add: fs_lookup_None [OF assms])
    ultimately show ?thesis
      using q(2,3) by (auto simp: fs_lookup_def path_inode_def)
  qed
  moreover have "(\<exists>x \<in> set (fs_files s). listed_name ?pre (fst x) = Some n) \<longleftrightarrow>
      (\<exists>path. bt_get (fs_files s) path \<noteq> None \<and> listed_name ?pre path = Some n)" for n
    using bt.entries_get [OF wf] by force
  moreover have "take 2 (dir_entries s inode d) = ?b" "drop 2 (dir_entries s inode d) = rest"
    by (simp_all add: es(1))
  ultimately show ?thesis
    using es(2,3) by auto
qed

lemma demo_fs_entries: "dir_entries demo_fs 1 ''/'' = [(''.'', 1, 4), (''..'', 1, 4), (''log'', 2, 8)]"
  by (simp add: dir_entries_def demo_fs_def create_file_dynamic_def fs_mkdir_def create_file_static_def
      create_file_def fs_empty_def dir_scan_step_def dir_prefix_def entry_name_def file_len_def Let_def)

theorem dir_listing_correct_witness:
  "bt_get (fs_files demo_fs) ''/log'' = Some \<lparr>file_data = Dynamic [1, 2, 3]\<rparr> \<and>
   fs_lookup demo_fs ''/log'' = Some 2 \<and> dir_entries demo_fs 1 ''/'' ! 2 = (''log'', 2, 8)"
proof -
  have f: "bt_get (fs_files demo_fs) ''/log'' = Some \<lparr>file_data = Dynamic [1, 2, 3]\<rparr>"
    using demo_fs_inode by (simp add: inode_fileD)
  have "(''log'', 2, 8) \<in> set (drop 2 (dir_entries demo_fs 1 ''/''))"
    by (simp add: demo_fs_entries)
  then have "fs_lookup demo_fs (dir_prefix ''/'' @ ''log'') = Some 2"
    using dir_listing_correct [OF demo_fs_wf, of 1 "''/''"] f by (simp add: dir_prefix_def)
  with f show ?thesis
    by (simp add: dir_prefix_def demo_fs_entries)
qed

section \<open>Records\<close>

lemma length_dirent_bytes: "length (dirent_bytes idx d) = dirent_reclen (fst d)"
proof -
  obtain name ino ty where d: "d = (name, ino, ty)" by (cases d)
  have "19 + (length name + 1) \<le> dirent_reclen name"
  proof -
    have "19 + (length name + 1) + 7 = dirent_reclen name + (19 + (length name + 1) + 7) mod 8"
      unfolding dirent_reclen_def by (rule div_mult_mod_eq [symmetric])
    moreover have "(19 + (length name + 1) + 7) mod 8 \<le> 7"
      using mod_less_divisor [of 8 "19 + (length name + 1) + 7"] by linarith
    ultimately show ?thesis by linarith
  qed
  then show ?thesis
    by (simp add: d dirent_bytes_def string_bytes_def)
qed

text \<open>The filling loop packs the longest run of entries that fits.\<close>

lemma dir_fill_spec:
  assumes "dir_fill bl off idx ds = (bs, n)" "off \<le> bl"
  shows "n \<le> length ds \<and> bs = concat (map (\<lambda>k. dirent_bytes (idx + k) (ds ! k)) [0..<n]) \<and>
    off + length bs \<le> bl \<and> (n < length ds \<longrightarrow> bl < off + length bs + dirent_reclen (fst (ds ! n)))"
  using assms
proof (induction bl off idx ds arbitrary: bs n rule: dir_fill.induct)
  case (2 bl off idx d ds)
  show ?case
  proof (cases "bl < off + dirent_reclen (fst d)")
    case True
    then show ?thesis using "2.prems" by simp
  next
    case False
    obtain cs k where run: "dir_fill bl (off + dirent_reclen (fst d)) (idx + 1) ds = (cs, k)" by fastforce
    then have bs: "bs = dirent_bytes idx d @ cs" "n = k + 1"
      using "2.prems"(1) False by auto
    have "[0..<k + 1] = 0 # map Suc [0..<k]"
      by (simp add: map_Suc_upt upt_conv_Cons del: upt_Suc)
    then have "map (\<lambda>k. dirent_bytes (idx + k) ((d # ds) ! k)) [0..<k + 1] =
        dirent_bytes idx d # map (\<lambda>j. dirent_bytes (idx + 1 + j) (ds ! j)) [0..<k]"
      by (simp only:) simp
    moreover have IH: "k \<le> length ds" "cs = concat (map (\<lambda>j. dirent_bytes (idx + 1 + j) (ds ! j)) [0..<k])"
      "off + dirent_reclen (fst d) + length cs \<le> bl"
      "k < length ds \<longrightarrow> bl < off + dirent_reclen (fst d) + length cs + dirent_reclen (fst (ds ! k))"
      using "2.IH" [OF refl False run] False by (simp_all only: not_less, blast+)
    ultimately have "bs = concat (map (\<lambda>k. dirent_bytes (idx + k) ((d # ds) ! k)) [0..<n])"
      by (simp only: bs concat.simps)
    moreover have "length bs = dirent_reclen (fst d) + length cs"
      by (simp add: bs length_dirent_bytes)
    ultimately show ?thesis
      using IH(1,3,4) bs(2) by (simp del: upt_Suc add: add.assoc [symmetric])
  qed
qed simp

text \<open>How a caller of \<^verbatim>\<open>getdents64\<close> walks the buffer: inode, next index, type and name.\<close>

function parse_dirents :: "u8 list \<Rightarrow> (u64 \<times> u64 \<times> u8 \<times> u8 list) list" where
  "parse_dirents bs =
     (if length bs < 19 then []
      else
        (let reclen = unat (le_word (take 2 (drop 16 bs)) :: u16) in
         if reclen = 0 then []
         else (le_word (take 8 bs), le_word (take 8 (drop 8 bs)), bs ! 18,
               takeWhile (\<lambda>b. b \<noteq> 0) (drop 19 bs)) # parse_dirents (drop reclen bs)))"
  by pat_completeness auto
termination
  by (relation "measure length") auto

declare parse_dirents.simps [simp del]

lemma dirent_reclen_bounds: "19 + (length name + 1) \<le> dirent_reclen name" "dirent_reclen name \<le> 27 + length name"
proof -
  have "19 + (length name + 1) + 7 = dirent_reclen name + (19 + (length name + 1) + 7) mod 8"
    unfolding dirent_reclen_def by (rule div_mult_mod_eq [symmetric])
  moreover have "(19 + (length name + 1) + 7) mod 8 \<le> 7"
    using mod_less_divisor [of 8 "19 + (length name + 1) + 7"] by linarith
  ultimately show "19 + (length name + 1) \<le> dirent_reclen name" "dirent_reclen name \<le> 27 + length name"
    by linarith+
qed

lemma unat_of_char: "unat (of_char c :: u8) = of_char c"
proof -
  have "(of_char c :: nat) < 256"
    by (metis mod_less_divisor of_char_mod_256 zero_less_numeral)
  then have "unat (of_nat (of_char c) :: u8) = of_char c"
    by (simp only: unat_of_nat) simp
  then show ?thesis by (simp only: of_nat_of_char)
qed

lemma string_bytes_nonzero:
  assumes "CHR 0x00 \<notin> set name"
  shows "0 \<notin> set (string_bytes name)"
proof -
  have "c = CHR 0x00" if "(of_char c :: u8) = 0" for c
  proof -
    have "(of_char c :: nat) = of_char CHR 0x00"
      using that unat_of_char [of c] by simp
    then show ?thesis by (simp only: of_char_eq_iff)
  qed
  then show ?thesis using assms by (auto simp: string_bytes_def image_iff)
qed

lemma string_bytes_inj: "string_bytes x = string_bytes y \<longleftrightarrow> x = y"
proof -
  have "inj (of_char :: char \<Rightarrow> u8)"
    by (rule injI) (metis of_char_eq_iff unat_of_char)
  then show ?thesis by (simp add: string_bytes_def inj_map_eq_map)
qed

lemma parse_dirent_bytes:
  assumes "CHR 0x00 \<notin> set (fst d)" "length (fst d) < 60000"
  shows "parse_dirents (dirent_bytes idx d @ bs) =
    (fst (snd d), of_nat idx + 1, snd (snd d), string_bytes (fst d)) # parse_dirents bs"
proof -
  obtain name ino ty where d: "d = (name, ino, ty)" by (cases d)
  let ?rl = "dirent_reclen name"
  let ?pad = "replicate (?rl - (19 + (length name + 1))) (0 :: u8)"
  let ?x = "le_bytes 8 ino @ le_bytes 8 (of_nat idx + 1 :: u64) @ le_bytes 2 (of_nat ?rl :: u16) @ [ty] @
      (string_bytes name @ [0] @ ?pad @ bs)"
  have x: "dirent_bytes idx d @ bs = ?x"
    by (simp add: d dirent_bytes_def)
  note rb = dirent_reclen_bounds [of name]
  have rl: "unat (of_nat ?rl :: u16) = ?rl"
    using rb(2) assms(2) by (simp add: unat_of_nat d)
  have lens: "length (le_bytes 8 ino @ le_bytes 8 (of_nat idx + 1 :: u64)) = 16"
    "length (le_bytes 8 ino @ le_bytes 8 (of_nat idx + 1 :: u64) @ le_bytes 2 (of_nat ?rl :: u16)) = 18"
    by simp_all
  have fields: "take 8 ?x = le_bytes 8 ino" "take 8 (drop 8 ?x) = le_bytes 8 (of_nat idx + 1 :: u64)"
    "take 2 (drop 16 ?x) = le_bytes 2 (of_nat ?rl :: u16)" "?x ! 18 = ty"
    "drop 19 ?x = string_bytes name @ [0] @ ?pad @ bs"
    by (simp_all add: nth_append)
  have "drop ?rl (dirent_bytes idx d @ bs) = bs"
    using length_dirent_bytes [of idx d] by (simp add: d)
  moreover have "takeWhile (\<lambda>b. b \<noteq> 0) (string_bytes name @ [0] @ ?pad @ bs) = string_bytes name"
    using string_bytes_nonzero [of name] assms(1) by (subst takeWhile_append2) (auto simp: d)
  moreover have "le_word (le_bytes 8 ino) = ino" "le_word (le_bytes 8 (of_nat idx + 1 :: u64)) = (of_nat idx + 1 :: u64)"
    "le_word (le_bytes 2 (of_nat ?rl :: u16)) = (of_nat ?rl :: u16)"
    by (simp_all add: le_word_le_bytes)
  moreover have "\<not> length ?x < 19" "?rl \<noteq> 0" using rb(1) by simp_all
  ultimately have "parse_dirents ?x = (ino, of_nat idx + 1, ty, string_bytes name) # parse_dirents bs"
    by (subst parse_dirents.simps) (simp only: fields Let_def rl if_False x)
  then show ?thesis unfolding x by (simp only: d fst_conv snd_conv)
qed

definition dirent_ok :: "dirent \<Rightarrow> bool" where
  "dirent_ok d \<longleftrightarrow> CHR 0x00 \<notin> set (fst d) \<and> length (fst d) < 60000"

definition dirent_view :: "nat \<Rightarrow> dirent \<Rightarrow> u64 \<times> u64 \<times> u8 \<times> u8 list" where
  "dirent_view idx d = (fst (snd d), of_nat idx + 1, snd (snd d), string_bytes (fst d))"

lemma parse_dirents_concat:
  "\<forall>k \<in> set ks. dirent_ok (f k) \<Longrightarrow>
   parse_dirents (concat (map (\<lambda>k. dirent_bytes (idx + k) (f k)) ks)) = map (\<lambda>k. dirent_view (idx + k) (f k)) ks"
proof (induction ks)
  case Nil
  then show ?case by (simp add: parse_dirents.simps)
next
  case (Cons k ks)
  then show ?case
    by (simp add: parse_dirent_bytes dirent_ok_def dirent_view_def)
qed



end
