(* ===== verification/Ring_Pipe.thy ===== *)
theory Ring_Pipe
  imports BTree_Map
begin

text \<open>
  The pipe buffer of \<^verbatim>\<open>src/src/syscall.rs\<close>: \<^verbatim>\<open>PipeInner\<close>, a ring of 4096 bytes with a head and
  a tail index.  One slot always stays free, so the ring is a first-in first-out queue of at
  most 4095 bytes.  The queue contract is the locale \<open>byte_queue\<close>: from the laws of a single
  write and a single read it derives that any interleaving of writes and reads delivers the
  accepted bytes in order, none lost and none duplicated.
\<close>

section \<open>The ring\<close>

record pipe_inner =
  pi_buf :: "u8 list"
  pi_head :: usize
  pi_tail :: usize
  pi_write_closed :: bool
  pi_read_closed :: bool

definition pipe_new :: pipe_inner where
  "pipe_new = \<lparr>pi_buf = replicate 4096 0, pi_head = 0, pi_tail = 0,
     pi_write_closed = False, pi_read_closed = False\<rparr>"

text \<open>Advancing an index; \<^verbatim>\<open>% 0\<close> panics.\<close>

definition ring_next :: "pipe_inner \<Rightarrow> usize \<Rightarrow> usize res" where
  "ring_next p i =
     (if pi_buf p = [] then Inl (Panic ''attempt to calculate the remainder with a divisor of zero'')
      else Inr ((i + 1) mod of_nat (length (pi_buf p))))"

fun pipe_write_loop :: "pipe_inner \<Rightarrow> usize \<Rightarrow> u8 list \<Rightarrow> (usize \<times> pipe_inner) res" where
  "pipe_write_loop p written [] = Inr (written, p)"
| "pipe_write_loop p written (b # data) =
     res_bind (ring_next p (pi_tail p)) (\<lambda>next.
       if next = pi_head p then Inr (written, p)
       else if length (pi_buf p) \<le> unat (pi_tail p) then Inl (Panic ''index out of bounds'')
       else pipe_write_loop (p\<lparr>pi_buf := (pi_buf p)[unat (pi_tail p) := b], pi_tail := next\<rparr>)
              (written + 1) data)"

definition pipe_write :: "pipe_inner \<Rightarrow> u8 list \<Rightarrow> (usize \<times> pipe_inner) res" where
  "pipe_write p data = (if pi_read_closed p then Inr (0, p) else pipe_write_loop p 0 data)"

function pipe_read_loop :: "pipe_inner \<Rightarrow> u8 list \<Rightarrow> usize \<Rightarrow> (usize \<times> u8 list \<times> pipe_inner) res" where
  "pipe_read_loop p out n =
     (if n < of_nat (length out) \<and> pi_head p \<noteq> pi_tail p then
        if length (pi_buf p) \<le> unat (pi_head p) \<or> length out \<le> unat n then Inl (Panic ''index out of bounds'')
        else res_bind (ring_next p (pi_head p)) (\<lambda>next.
          pipe_read_loop (p\<lparr>pi_head := next\<rparr>) (out[unat n := pi_buf p ! unat (pi_head p)]) (n + 1))
      else Inr (n, out, p))"
  by pat_completeness auto

termination
proof (relation "measure (\<lambda>(p, out, n). 2 ^ 64 - unat n)")
  fix p :: pipe_inner and out :: "u8 list" and n x :: usize
  assume "n < of_nat (length out) \<and> pi_head p \<noteq> pi_tail p"
  then have "unat (n + 1) = unat n + 1"
    by (blast intro: unat_succ)
  moreover have "unat n < 2 ^ 64"
    using unsigned_less [of n] by simp
  ultimately show "((p\<lparr>pi_head := x\<rparr>, out[unat n := pi_buf p ! unat (pi_head p)], n + 1), p, out, n) \<in>
      measure (\<lambda>(p, out, n). 2 ^ 64 - unat n)"
    by simp
qed simp

definition pipe_read :: "pipe_inner \<Rightarrow> u8 list \<Rightarrow> (usize \<times> u8 list \<times> pipe_inner) res" where
  "pipe_read p out = pipe_read_loop p out 0"

declare pipe_read_loop.simps [simp del]

section \<open>The queue a ring stands for\<close>

definition pipe_inv :: "pipe_inner \<Rightarrow> bool" where
  "pipe_inv p \<longleftrightarrow> length (pi_buf p) = 4096 \<and> unat (pi_head p) < 4096 \<and> unat (pi_tail p) < 4096"

definition pipe_len :: "pipe_inner \<Rightarrow> nat" where
  "pipe_len p = (unat (pi_tail p) + 4096 - unat (pi_head p)) mod 4096"

definition pipe_contents :: "pipe_inner \<Rightarrow> u8 list" where
  "pipe_contents p = map (\<lambda>i. pi_buf p ! ((unat (pi_head p) + i) mod 4096)) [0..<pipe_len p]"

text \<open>A byte queue of bounded capacity, by what one write and one read do.\<close>

locale byte_queue =
  fixes put :: "'q \<Rightarrow> u8 list \<Rightarrow> (usize \<times> 'q) res"
    and get :: "'q \<Rightarrow> u8 list \<Rightarrow> (usize \<times> u8 list \<times> 'q) res"
    and contents :: "'q \<Rightarrow> u8 list"
    and cap :: nat
    and inv :: "'q \<Rightarrow> bool"
  assumes cap_small: "cap < 2 ^ 64"
    and bounded: "inv q \<Longrightarrow> length (contents q) \<le> cap"
    and put_law: "inv q \<Longrightarrow>
      \<exists>q'. put q xs = Inr (of_nat (min (length xs) (cap - length (contents q))), q') \<and> inv q' \<and>
        contents q' = contents q @ take (cap - length (contents q)) xs"
    and get_law: "inv q \<Longrightarrow> length out < 2 ^ 64 \<Longrightarrow>
      \<exists>q'. get q out = Inr (of_nat (min (length out) (length (contents q))),
          take (length out) (contents q) @ drop (length (contents q)) out, q') \<and> inv q' \<and>
        contents q' = drop (length out) (contents q)"

datatype pipe_op = PutBytes "u8 list" | GetBytes nat

text \<open>
  A run of operations: the bytes accepted by the writes and the bytes returned by the reads,
  both in order.
\<close>

fun queue_run ::
  "('q \<Rightarrow> u8 list \<Rightarrow> (usize \<times> 'q) res) \<Rightarrow> ('q \<Rightarrow> u8 list \<Rightarrow> (usize \<times> u8 list \<times> 'q) res) \<Rightarrow>
   'q \<Rightarrow> pipe_op list \<Rightarrow> (u8 list \<times> u8 list \<times> 'q) res"
where
  "queue_run put get q [] = Inr ([], [], q)"
| "queue_run put get q (PutBytes xs # ops) =
     res_bind (put q xs) (\<lambda>(n, q).
     res_bind (queue_run put get q ops) (\<lambda>(w, r, q). Inr (take (unat n) xs @ w, r, q)))"
| "queue_run put get q (GetBytes k # ops) =
     res_bind (get q (replicate k 0)) (\<lambda>(n, out, q).
     res_bind (queue_run put get q ops) (\<lambda>(w, r, q). Inr (w, take (unat n) out @ r, q)))"

fun op_ok :: "pipe_op \<Rightarrow> bool" where
  "op_ok (PutBytes xs) = True"
| "op_ok (GetBytes k) = (k < 2 ^ 64)"

context byte_queue
begin

lemma unat_count: "k \<le> cap \<Longrightarrow> unat (of_nat k :: usize) = k"
  using cap_small by (simp add: unat_of_nat)

lemma run_stream:
  assumes "inv q" "list_all op_ok ops"
  shows "\<exists>w r q'. queue_run put get q ops = Inr (w, r, q') \<and> inv q' \<and>
     contents q @ w = r @ contents q'"
  using assms
proof (induction ops arbitrary: q)
  case Nil
  then show ?case by simp
next
  case (Cons a ops)
  show ?case
  proof (cases a)
    case (PutBytes xs)
    let ?k = "cap - length (contents q)"
    obtain q1 where q1: "put q xs = Inr (of_nat (min (length xs) ?k), q1)" "inv q1"
        "contents q1 = contents q @ take ?k xs"
      using put_law [OF Cons.prems(1)] by blast
    have "list_all op_ok ops"
      using Cons.prems(2) by simp
    then obtain w r q' where run: "queue_run put get q1 ops = Inr (w, r, q')" "inv q'"
        "contents q1 @ w = r @ contents q'"
      using Cons.IH [OF q1(2)] by blast
    have "unat (of_nat (min (length xs) ?k) :: usize) = min (length xs) ?k"
      by (rule unat_count) simp
    moreover have "take (min (length xs) ?k) xs = take ?k xs"
      by (cases "length xs \<le> ?k") simp_all
    ultimately show ?thesis
      using run q1 by (simp add: PutBytes)
  next
    case (GetBytes k)
    have small: "length (replicate k (0::u8)) < 2 ^ 64"
      using Cons.prems(2) by (simp add: GetBytes)
    obtain q1 where q1: "get q (replicate k 0) = Inr (of_nat (min k (length (contents q))),
          take k (contents q) @ drop (length (contents q)) (replicate k 0), q1)" "inv q1"
        "contents q1 = drop k (contents q)"
      using get_law [OF Cons.prems(1) small] by auto
    have "list_all op_ok ops"
      using Cons.prems(2) by simp
    then obtain w r q' where run: "queue_run put get q1 ops = Inr (w, r, q')" "inv q'"
        "contents q1 @ w = r @ contents q'"
      using Cons.IH [OF q1(2)] by blast
    have "unat (of_nat (min k (length (contents q))) :: usize) = min k (length (contents q))"
      using bounded [OF Cons.prems(1)] by (intro unat_count) simp
    then have "take (unat (of_nat (min k (length (contents q))) :: usize))
        (take k (contents q) @ drop (length (contents q)) (replicate k 0)) = take k (contents q)"
      by (simp add: min_def)
    moreover have "contents q @ w = take k (contents q) @ r @ contents q'"
      using run(3) q1(3) by (metis append.assoc append_take_drop_id)
    ultimately show ?thesis
      using run q1 by (simp add: GetBytes)
  qed
qed

end

section \<open>The ring implements the queue\<close>

lemma pipe_len_less: "pipe_len p < 4096"
  by (simp add: pipe_len_def)

lemma tail_of_len: "pipe_inv p \<Longrightarrow> unat (pi_tail p) = (unat (pi_head p) + pipe_len p) mod 4096"
  unfolding pipe_inv_def pipe_len_def by (simp add: mod_simps)

lemma length_contents [simp]: "length (pipe_contents p) = pipe_len p"
  by (simp add: pipe_contents_def)

lemma ring_next_eq:
  assumes "pipe_inv p" "unat i < 4096"
  shows "ring_next p i = Inr (of_nat ((unat i + 1) mod 4096))"
proof -
  have "(i + 1) mod 4096 = of_nat ((unat i + 1) mod 4096)"
    using assms(2) by (intro word_eq_unatI) (simp add: unat_mod unat_of_nat unat_word_ariths)
  then show ?thesis
    using assms(1) by (auto simp: ring_next_def pipe_inv_def)
qed

lemma pipe_len_eqI:
  "unat (pi_head p) < 4096 \<Longrightarrow> n < 4096 \<Longrightarrow> unat (pi_tail p) = (unat (pi_head p) + n) mod 4096 \<Longrightarrow>
    pipe_len p = n"
  unfolding pipe_len_def by (cases "unat (pi_head p) + n < 4096") (simp_all add: mod_if)

text \<open>One byte in: the loop stops exactly when 4095 bytes are queued.\<close>

lemma pipe_put_step:
  fixes b :: u8
  assumes inv: "pipe_inv p"
  defines "t' \<equiv> of_nat ((unat (pi_tail p) + 1) mod 4096) :: usize"
  defines "p' \<equiv> p\<lparr>pi_buf := (pi_buf p)[unat (pi_tail p) := b], pi_tail := t'\<rparr>"
  shows "t' = pi_head p \<longleftrightarrow> pipe_len p = 4095"
    and "pipe_len p < 4095 \<Longrightarrow> pipe_inv p' \<and> pipe_contents p' = pipe_contents p @ [b]"
proof -
  let ?h = "unat (pi_head p)" and ?n = "pipe_len p"
  have h: "?h < 4096" and len: "length (pi_buf p) = 4096"
    using inv by (simp_all add: pipe_inv_def)
  have t: "unat (pi_tail p) = (?h + ?n) mod 4096"
    by (rule tail_of_len [OF inv])
  have n: "?n < 4096" by (rule pipe_len_less)
  have ut: "unat t' = (?h + ?n + 1) mod 4096"
    unfolding t'_def by (simp add: unat_of_nat t mod_simps)
  show "t' = pi_head p \<longleftrightarrow> ?n = 4095"
    using h n by (simp add: word_unat_eq_iff ut mod_if; arith)
  assume small: "?n < 4095"
  have inv': "pipe_inv p'"
    using inv by (simp add: pipe_inv_def p'_def ut)
  moreover have len': "pipe_len p' = ?n + 1"
    using h small ut by (intro pipe_len_eqI) (simp_all add: p'_def)
  have "unat (pi_tail p) \<noteq> (?h + i) mod 4096" if "i < ?n" for i
    using that h n by (simp add: t mod_if; arith)
  then have "pipe_contents p' = pipe_contents p @ [b]"
    using len h t by (simp add: pipe_contents_def len') (simp add: p'_def)
  ultimately show "pipe_inv p' \<and> pipe_contents p' = pipe_contents p @ [b]" by simp
qed

lemma pipe_write_loop_eq:
  assumes "pipe_inv p" "unat w + min (length data) (4095 - pipe_len p) < 2 ^ 64"
  shows "\<exists>p'. pipe_write_loop p w data = Inr (w + of_nat (min (length data) (4095 - pipe_len p)), p') \<and>
     pipe_inv p' \<and> pi_read_closed p' = pi_read_closed p \<and>
     pipe_contents p' = pipe_contents p @ take (4095 - pipe_len p) data"
  using assms
proof (induction data arbitrary: p w)
  case Nil
  then show ?case by simp
next
  case (Cons b data)
  let ?t = "of_nat ((unat (pi_tail p) + 1) mod 4096) :: usize"
  let ?p = "p\<lparr>pi_buf := (pi_buf p)[unat (pi_tail p) := b], pi_tail := ?t\<rparr>"
  have nxt: "ring_next p (pi_tail p) = Inr ?t"
    using Cons.prems(1) by (intro ring_next_eq) (simp_all add: pipe_inv_def)
  note step = pipe_put_step(1) [OF Cons.prems(1)] pipe_put_step(2) [OF Cons.prems(1), of b]
  show ?case
  proof (cases "pipe_len p = 4095")
    case True
    then show ?thesis
      using Cons.prems(1) step(1) by (simp add: nxt)
  next
    case False
    with pipe_len_less [of p] have small: "pipe_len p < 4095" by simp
    have p': "pipe_inv ?p" "pipe_contents ?p = pipe_contents p @ [b]"
      using step(2) [OF small] by simp_all
    have len: "pipe_len ?p = pipe_len p + 1"
      using arg_cong [OF p'(2), of length] by simp
    have run: "pipe_write_loop p w (b # data) = pipe_write_loop ?p (w + 1) data"
      using False step(1) Cons.prems(1) by (simp add: nxt pipe_inv_def)
    have min: "min (length (b # data)) (4095 - pipe_len p) = 1 + min (length data) (4095 - pipe_len ?p)"
      unfolding len using small by simp
    have "unat (w + 1) = unat w + 1"
      using Cons.prems(2) unfolding min by (simp add: unat_word_ariths)
    then have "unat (w + 1) + min (length data) (4095 - pipe_len ?p) < 2 ^ 64"
      using Cons.prems(2) min by simp
    from Cons.IH [OF p'(1) this] obtain p'' where p'':
        "pipe_write_loop ?p (w + 1) data = Inr (w + 1 + of_nat (min (length data) (4095 - pipe_len ?p)), p'')"
        "pipe_inv p''" "pi_read_closed p'' = pi_read_closed p"
        "pipe_contents p'' = pipe_contents ?p @ take (4095 - pipe_len ?p) data"
      by auto
    have "take (4095 - pipe_len p) (b # data) = b # take (4095 - pipe_len ?p) data"
      unfolding len using small by (simp add: take_Cons' Suc_diff_Suc)
    then show ?thesis
      unfolding run min using p'' p'(2) by (simp add: algebra_simps)
  qed
qed

lemma pipe_empty_iff: "pipe_inv p \<Longrightarrow> pi_head p = pi_tail p \<longleftrightarrow> pipe_len p = 0"
  using tail_of_len [of p] pipe_len_less [of p]
  by (simp add: word_unat_eq_iff pipe_inv_def mod_if; arith)

text \<open>One byte out.\<close>

lemma pipe_get_step:
  assumes inv: "pipe_inv p" and some: "0 < pipe_len p"
  defines "p' \<equiv> p\<lparr>pi_head := of_nat ((unat (pi_head p) + 1) mod 4096)\<rparr>"
  shows "pipe_inv p'" "pipe_contents p = pi_buf p ! unat (pi_head p) # pipe_contents p'"
proof -
  let ?h = "unat (pi_head p)" and ?n = "pipe_len p"
  have h: "?h < 4096"
    using inv by (simp add: pipe_inv_def)
  have uh: "unat (pi_head p') = (?h + 1) mod 4096"
    unfolding p'_def by (simp add: unat_of_nat)
  show "pipe_inv p'"
    using inv uh by (simp add: pipe_inv_def p'_def)
  have "(?h + ?n) mod 4096 = ((?h + 1) mod 4096 + (?n - 1)) mod 4096"
    using some by (cases ?n) (simp_all add: mod_simps)
  then have len: "pipe_len p' = ?n - 1"
    using pipe_len_less [of p] tail_of_len [OF inv] uh
    by (intro pipe_len_eqI) (simp_all add: p'_def less_imp_diff_less)
  have "[0..<?n] = 0 # map Suc [0..<?n - 1]"
    using some by (simp add: upt_conv_Cons map_Suc_upt)
  moreover have "(?h + Suc i) mod 4096 = ((?h + 1) mod 4096 + i) mod 4096" for i
    by (simp add: mod_simps)
  ultimately show "pipe_contents p = pi_buf p ! ?h # pipe_contents p'"
    using h uh by (simp add: pipe_contents_def len) (simp add: p'_def)
qed

lemma pipe_read_step:
  assumes "pipe_inv p" "0 < pipe_len p" "unat n < length out" "length out < 2 ^ 64"
  shows "pipe_read_loop p out n = pipe_read_loop (p\<lparr>pi_head := of_nat ((unat (pi_head p) + 1) mod 4096)\<rparr>)
      (out[unat n := pi_buf p ! unat (pi_head p)]) (n + 1)"
    and "unat (n + 1) = unat n + 1"
proof -
  have lt: "n < of_nat (length out)"
    using assms(3,4) by (simp add: word_less_nat_alt unat_of_nat)
  then show "unat (n + 1) = unat n + 1" by (rule unat_succ)
  have "unat (pi_head p) < 4096" "length (pi_buf p) = 4096"
    using assms(1) by (simp_all add: pipe_inv_def)
  then show "pipe_read_loop p out n = pipe_read_loop (p\<lparr>pi_head := of_nat ((unat (pi_head p) + 1) mod 4096)\<rparr>)
      (out[unat n := pi_buf p ! unat (pi_head p)]) (n + 1)"
    using lt assms by (subst pipe_read_loop.simps) (simp add: pipe_empty_iff ring_next_eq)
qed

lemma pipe_read_loop_eq:
  assumes "pipe_inv p" "length out < 2 ^ 64" "unat n \<le> length out"
  shows "\<exists>p'. pipe_read_loop p out n =
       Inr (n + of_nat (min (length out - unat n) (pipe_len p)),
         take (unat n) out @ take (length out - unat n) (pipe_contents p) @ drop (unat n + pipe_len p) out, p') \<and>
     pipe_inv p' \<and> pi_read_closed p' = pi_read_closed p \<and>
     pipe_contents p' = drop (length out - unat n) (pipe_contents p)"
  using assms
proof (induction "pipe_len p" arbitrary: p out n)
  case 0
  then show ?case
    by (subst pipe_read_loop.simps) (simp add: pipe_empty_iff pipe_contents_def)
next
  case (Suc k)
  show ?case
  proof (cases "unat n < length out")
    case False
    then have "\<not> n < of_nat (length out)" "unat n = length out"
      using Suc.prems(2,3) by (simp_all add: word_less_nat_alt unat_of_nat)
    then show ?thesis
      using Suc.prems(1) by (subst pipe_read_loop.simps) simp
  next
    case True
    let ?p = "p\<lparr>pi_head := of_nat ((unat (pi_head p) + 1) mod 4096)\<rparr>"
    let ?out = "out[unat n := pi_buf p ! unat (pi_head p)]"
    have some: "0 < pipe_len p" using Suc.hyps(2) by simp
    note step = pipe_get_step [OF Suc.prems(1) some] and run = pipe_read_step [OF Suc.prems(1) some True Suc.prems(2)]
    have len: "pipe_len p = Suc (pipe_len ?p)"
      using arg_cong [OF step(2), of length] by simp
    then have "k = pipe_len ?p" "length ?out < 2 ^ 64" "unat (n + 1) \<le> length ?out"
      using Suc.hyps(2) Suc.prems(2) True run(2) by simp_all
    from Suc.hyps(1) [OF this(1) step(1) this(2,3)] obtain p' where p':
      "pipe_read_loop ?p ?out (n + 1) =
         Inr (n + 1 + of_nat (min (length ?out - unat (n + 1)) (pipe_len ?p)),
           take (unat (n + 1)) ?out @ take (length ?out - unat (n + 1)) (pipe_contents ?p) @
             drop (unat (n + 1) + pipe_len ?p) ?out, p')"
      "pipe_inv p'" "pi_read_closed p' = pi_read_closed ?p"
      "pipe_contents p' = drop (length ?out - unat (n + 1)) (pipe_contents ?p)"
      by blast
    have left: "length out - unat n = Suc (length ?out - unat (n + 1))"
      using True run(2) by simp
    have "take (unat (n + 1)) ?out @ xs = take (unat n) out @ pi_buf p ! unat (pi_head p) # xs"
        "drop (unat (n + 1) + l) ?out = drop (unat n + Suc l) out" for xs l
      using True run(2) by (simp_all add: take_Suc_conv_app_nth)
    then show ?thesis
      unfolding run(1) p'(1) step(2) left len using p'(2-4) by simp
  qed
qed

lemma pipe_inv_new: "pipe_inv pipe_new" "pipe_contents pipe_new = []"
  by (simp_all add: pipe_inv_def pipe_new_def pipe_contents_def pipe_len_def)

interpretation pipe: byte_queue pipe_write pipe_read pipe_contents 4095
  "\<lambda>p. pipe_inv p \<and> \<not> pi_read_closed p"
proof unfold_locales
  fix q :: pipe_inner and xs out :: "u8 list"
  assume inv: "pipe_inv q \<and> \<not> pi_read_closed q"
  show "length (pipe_contents q) \<le> 4095"
    using pipe_len_less [of q] by simp
  show "\<exists>q'. pipe_write q xs = Inr (of_nat (min (length xs) (4095 - length (pipe_contents q))), q') \<and>
      (pipe_inv q' \<and> \<not> pi_read_closed q') \<and>
      pipe_contents q' = pipe_contents q @ take (4095 - length (pipe_contents q)) xs"
    using pipe_write_loop_eq [of q 0 xs] inv by (auto simp: pipe_write_def)
  assume "length out < 2 ^ 64"
  then show "\<exists>q'. pipe_read q out = Inr (of_nat (min (length out) (length (pipe_contents q))),
        take (length out) (pipe_contents q) @ drop (length (pipe_contents q)) out, q') \<and>
      (pipe_inv q' \<and> \<not> pi_read_closed q') \<and>
      pipe_contents q' = drop (length out) (pipe_contents q)"
    using pipe_read_loop_eq [of q out 0] inv by (auto simp: pipe_read_def)
qed simp

section \<open>Properties\<close>

text \<open>
  C16. The ring of \<^verbatim>\<open>PipeInner\<close> refines a bounded queue.  On a well-formed ring whose
  read end is open neither
  \<^verbatim>\<open>write\<close> nor \<^verbatim>\<open>read\<close> panics.  A write appends the longest prefix of the data that keeps the
  queue within 4095 bytes and returns its length; a read moves as many bytes as fit from the
  front of the queue to the front of the output buffer, leaves the rest of the buffer alone
  and returns their number.  Both keep the ring well formed.
\<close>

theorem pipe_refines_queue:
  assumes "pipe_inv p" "\<not> pi_read_closed p" "length out < 2 ^ 64"
  shows "(\<exists>p'. pipe_write p data = Inr (of_nat (min (length data) (4095 - length (pipe_contents p))), p') \<and>
      pipe_inv p' \<and> pipe_contents p' = pipe_contents p @ take (4095 - length (pipe_contents p)) data \<and>
      length (pipe_contents p') \<le> 4095) \<and>
    (\<exists>p'. pipe_read p out = Inr (of_nat (min (length out) (length (pipe_contents p))),
        take (length out) (pipe_contents p) @ drop (length (pipe_contents p)) out, p') \<and>
      pipe_inv p' \<and> pipe_contents p' = drop (length out) (pipe_contents p))"
  using pipe.put_law [of p data] pipe.get_law [of p out] pipe.bounded assms by blast

theorem pipe_refines_queue_witness:
  "(\<exists>p'. pipe_write pipe_new [1, 2] = Inr (2, p') \<and> pipe_inv p' \<and> pipe_contents p' = [1, 2]) \<and>
   (\<exists>p'. pipe_read pipe_new [7, 7, 7] = Inr (0, [7, 7, 7], p') \<and> pipe_inv p' \<and> pipe_contents p' = [])"
proof -
  have "\<not> pi_read_closed pipe_new"
    by (simp add: pipe_new_def)
  then show ?thesis
    using pipe_refines_queue [of pipe_new "[7, 7, 7]" "[1, 2]"] pipe_inv_new by auto
qed

text \<open>
  C36. No byte of a pipe is lost, duplicated or reordered, however writes and reads interleave:
  from a new pipe, the bytes the reads returned followed by the bytes still queued are exactly
  the bytes the writes accepted, and no operation panics.
\<close>

theorem pipe_stream:
  assumes "list_all op_ok ops"
  shows "\<exists>written read p. queue_run pipe_write pipe_read pipe_new ops = Inr (written, read, p) \<and>
     pipe_inv p \<and> written = read @ pipe_contents p"
proof -
  have "\<not> pi_read_closed pipe_new"
    by (simp add: pipe_new_def)
  then show ?thesis
    using pipe.run_stream [of pipe_new ops] assms pipe_inv_new by auto
qed

theorem pipe_stream_witness:
  "\<exists>written read p.
     queue_run pipe_write pipe_read pipe_new [PutBytes [1, 2, 3], GetBytes 2, PutBytes [4], GetBytes 5] =
       Inr (written, read, p) \<and> written = read @ pipe_contents p"
  using pipe_stream [of "[PutBytes [1, 2, 3], GetBytes 2, PutBytes [4], GetBytes 5]"] by auto

end
