(* ===== verification/Fd_Table.thy ===== *)
theory Fd_Table
  imports Ram_Fs
begin

text \<open>
  The descriptor table \<^verbatim>\<open>FdTable\<close> of \<^verbatim>\<open>src/src/syscall.rs\<close>: a vector of optional open files.
  The contract its clients rely on is the locale \<open>descriptor_table\<close>, stated over the view of a
  table as a function from descriptors to open files: \<^verbatim>\<open>alloc\<close> takes the least free
  descriptor, \<^verbatim>\<open>close\<close> and \<^verbatim>\<open>dup2\<close> change exactly one.
\<close>

section \<open>The table\<close>

record fd_table =
  fd_files :: "open_file option list"

definition std_stream :: open_file where
  "std_stream = \<lparr>of_inode = 0, of_offset = 0, of_readable = True, of_writable = True, of_pipe_id = None\<rparr>"

definition fd_table_new :: fd_table where
  "fd_table_new = \<lparr>fd_files = [Some std_stream, Some std_stream, Some std_stream]\<rparr>"

text \<open>The scan of \<^verbatim>\<open>alloc\<close> for the first empty slot, with the index counted along.\<close>

fun first_free :: "nat \<Rightarrow> 'a option list \<Rightarrow> nat option" where
  "first_free i [] = None"
| "first_free i (f # files) = (case f of None \<Rightarrow> Some i | Some _ \<Rightarrow> first_free (i + 1) files)"

definition fd_alloc :: "fd_table \<Rightarrow> open_file \<Rightarrow> usize \<times> fd_table" where
  "fd_alloc t f =
     (case first_free 0 (fd_files t) of
        Some i \<Rightarrow> (of_nat i, t\<lparr>fd_files := (fd_files t)[i := Some f]\<rparr>)
      | None \<Rightarrow> (of_nat (length (fd_files t)), t\<lparr>fd_files := fd_files t @ [Some f]\<rparr>))"

definition fd_get :: "fd_table \<Rightarrow> usize \<Rightarrow> open_file option" where
  "fd_get t fd = (if unat fd < length (fd_files t) then fd_files t ! unat fd else None)"

text \<open>A write through the reference \<^verbatim>\<open>get\<close> returned.\<close>

definition fd_set :: "fd_table \<Rightarrow> usize \<Rightarrow> open_file \<Rightarrow> fd_table" where
  "fd_set t fd f = t\<lparr>fd_files := (fd_files t)[unat fd := Some f]\<rparr>"

definition fd_close :: "fd_table \<Rightarrow> usize \<Rightarrow> fd_table" where
  "fd_close t fd =
     (if fd < of_nat (length (fd_files t)) then t\<lparr>fd_files := (fd_files t)[unat fd := None]\<rparr> else t)"

text \<open>
  \<^verbatim>\<open>Vec::resize(n, None)\<close>.  An element takes 40 bytes, and a vector of more than
  \<^verbatim>\<open>isize::MAX\<close> bytes panics.
\<close>

definition files_resize :: "open_file option list \<Rightarrow> usize \<Rightarrow> open_file option list res" where
  "files_resize v n =
     (if length v < unat n \<and> 2 ^ 63 \<le> 40 * unat n then Inl (Panic ''capacity overflow'')
      else Inr (take (unat n) v @ replicate (unat n - length v) None))"

definition fd_dup2 :: "fd_table \<Rightarrow> usize \<Rightarrow> usize \<Rightarrow> (bool \<times> fd_table) res" where
  "fd_dup2 t oldfd newfd =
     (if of_nat (length (fd_files t)) \<le> oldfd \<or> fd_files t ! unat oldfd = None then Inr (False, t)
      else
        res_bind
          (if of_nat (length (fd_files t)) \<le> newfd then files_resize (fd_files t) (newfd + 1)
           else Inr (fd_files t))
          (\<lambda>files.
            if length files \<le> unat oldfd \<or> length files \<le> unat newfd then Inl (Panic ''index out of bounds'')
            else Inr (True, t\<lparr>fd_files := files[unat newfd := files ! unat oldfd]\<rparr>)))"

definition fd_wf :: "fd_table \<Rightarrow> bool" where
  "fd_wf t \<longleftrightarrow> 40 * length (fd_files t) < 2 ^ 63"

section \<open>The contract\<close>

locale descriptor_table =
  fixes view :: "'t \<Rightarrow> usize \<Rightarrow> 'f option"
    and alloc :: "'t \<Rightarrow> 'f \<Rightarrow> usize \<times> 't"
    and close :: "'t \<Rightarrow> usize \<Rightarrow> 't"
    and dup :: "'t \<Rightarrow> usize \<Rightarrow> usize \<Rightarrow> (bool \<times> 't) res"
    and inv :: "'t \<Rightarrow> bool"
    and limit :: nat
  assumes alloc_free: "inv t \<Longrightarrow> alloc t f = (fd, t') \<Longrightarrow> view t fd = None"
    and alloc_least: "inv t \<Longrightarrow> alloc t f = (fd, t') \<Longrightarrow> fd' < fd \<Longrightarrow> view t fd' \<noteq> None"
    and alloc_view: "inv t \<Longrightarrow> alloc t f = (fd, t') \<Longrightarrow> view t' = (view t)(fd \<mapsto> f)"
    and close_view: "inv t \<Longrightarrow> view (close t fd) = (view t)(fd := None)"
    and close_inv: "inv t \<Longrightarrow> inv (close t fd)"
    and dup_bad: "inv t \<Longrightarrow> view t old = None \<Longrightarrow> dup t old new = Inr (False, t)"
    and dup_view: "inv t \<Longrightarrow> view t old = Some f \<Longrightarrow> unat new < limit \<Longrightarrow>
      \<exists>t'. dup t old new = Inr (True, t') \<and> inv t' \<and> view t' = (view t)(new \<mapsto> f)"
begin

lemma alloc_eqI:
  assumes "inv t" "view t fd = None" "\<And>fd'. fd' < fd \<Longrightarrow> view t fd' \<noteq> None"
  shows "\<exists>t'. alloc t f = (fd, t') \<and> view t' = (view t)(fd \<mapsto> f)"
proof -
  obtain fd' t' where a: "alloc t f = (fd', t')" by fastforce
  have "view t fd' = None" "\<And>i. i < fd' \<Longrightarrow> view t i \<noteq> None"
    using alloc_free [OF assms(1) a] alloc_least [OF assms(1) a] by blast+
  then have "fd' = fd"
    using assms(2,3) by (metis linorder_neqE)
  with a alloc_view [OF assms(1) a] show ?thesis by blast
qed

text \<open>
  The redirection idiom of a shell, in both its forms: close a descriptor whose predecessors
  are all open and open another file, or duplicate an open file onto it and close the original.
\<close>

lemma close_reopen:
  assumes "inv t" "\<And>fd'. fd' < fd \<Longrightarrow> view t fd' \<noteq> None"
  shows "\<exists>t'. alloc (close t fd) f = (fd, t') \<and> view t' = (view t)(fd \<mapsto> f)"
proof -
  have "\<exists>t'. alloc (close t fd) f = (fd, t') \<and> view t' = (view (close t fd))(fd \<mapsto> f)"
    using assms by (intro alloc_eqI) (simp_all add: close_inv close_view)
  then show ?thesis
    using assms(1) by (simp add: close_view)
qed

lemma dup_close:
  assumes "inv t" "view t old = Some f" "unat new < limit" "old \<noteq> new"
  shows "\<exists>t'. dup t old new = Inr (True, t') \<and> view (close t' old) = (view t)(old := None, new \<mapsto> f)"
proof -
  obtain t' where t': "dup t old new = Inr (True, t')" "inv t'" "view t' = (view t)(new \<mapsto> f)"
    using dup_view [OF assms(1-3)] by blast
  then have "view (close t' old) = (view t)(old := None, new \<mapsto> f)"
    using assms(4) by (simp add: close_view fun_upd_twist)
  with t'(1) show ?thesis by blast
qed

end

section \<open>The vector implements it\<close>

lemma first_free_Some:
  "first_free k xs = Some i \<Longrightarrow>
    k \<le> i \<and> i - k < length xs \<and> xs ! (i - k) = None \<and> (\<forall>j < i - k. xs ! j \<noteq> None)"
proof (induction k xs rule: first_free.induct)
  case (2 k f xs)
  show ?case
  proof (cases f)
    case None
    then show ?thesis using "2.prems" by simp
  next
    case (Some g)
    then have ih: "k + 1 \<le> i" "i - (k + 1) < length xs" "xs ! (i - (k + 1)) = None"
        "\<forall>j < i - (k + 1). xs ! j \<noteq> None"
      using 2 by simp_all
    have "i - k = Suc (i - (k + 1))"
      using ih(1) by simp
    with ih Some show ?thesis
      by (auto simp: nth_Cons split: nat.split)
  qed
qed simp

lemma first_free_None: "first_free k xs = None \<longleftrightarrow> None \<notin> set xs"
  by (induction k xs rule: first_free.induct) (auto split: option.splits)

lemma fd_wf_len: "fd_wf t \<Longrightarrow> n \<le> length (fd_files t) \<Longrightarrow> unat (of_nat n :: usize) = n"
  by (simp add: fd_wf_def unat_of_nat)

lemma fd_wf_less: "fd_wf t \<Longrightarrow> (fd::usize) < of_nat (length (fd_files t)) \<longleftrightarrow> unat fd < length (fd_files t)"
  using fd_wf_len [of t "length (fd_files t)"] by (simp add: word_less_nat_alt)

lemma fd_wf_le: "fd_wf t \<Longrightarrow> of_nat (length (fd_files t)) \<le> (fd::usize) \<longleftrightarrow> length (fd_files t) \<le> unat fd"
  using fd_wf_len [of t "length (fd_files t)"] by (simp add: word_le_nat_alt)

lemma fd_alloc_cases:
  assumes "fd_wf t"
  obtains i where "i < length (fd_files t)" "fd_files t ! i = None" "\<forall>j < i. fd_files t ! j \<noteq> None"
      "fd_alloc t f = (of_nat i, t\<lparr>fd_files := (fd_files t)[i := Some f]\<rparr>)"
  | "None \<notin> set (fd_files t)"
      "fd_alloc t f = (of_nat (length (fd_files t)), t\<lparr>fd_files := fd_files t @ [Some f]\<rparr>)"
proof (cases "first_free 0 (fd_files t)")
  case None
  then show ?thesis
    by (intro that(2)) (simp_all add: first_free_None [of 0, symmetric] fd_alloc_def)
next
  case (Some i)
  then show ?thesis
    using first_free_Some [OF Some] by (intro that(1) [of i]) (simp_all add: fd_alloc_def)
qed

lemma unat_eq_of_nat: "n < 2 ^ 64 \<Longrightarrow> unat (w::usize) = n \<longleftrightarrow> w = of_nat n"
  by (auto simp: unat_of_nat intro: word_eq_unatI)

lemma some_nth: "None \<notin> set xs \<Longrightarrow> i < length xs \<Longrightarrow> \<exists>y. xs ! i = Some y"
  by (metis nth_mem option.exhaust)

lemma fd_alloc_free:
  assumes "fd_wf t" "fd_alloc t f = (fd, t')"
  shows "fd_get t fd = None" "fd' < fd \<Longrightarrow> fd_get t fd' \<noteq> None" "fd_get t' = (fd_get t)(fd \<mapsto> f)"
proof -
  have len: "length (fd_files t) < 2 ^ 64"
    using assms(1) by (simp add: fd_wf_def)
  show "fd_get t fd = None"
    using assms by (cases rule: fd_alloc_cases [OF assms(1), of f]) (auto simp: fd_get_def fd_wf_len)
  show "fd_get t' = (fd_get t)(fd \<mapsto> f)"
  proof
    fix x
    show "fd_get t' x = ((fd_get t)(fd \<mapsto> f)) x"
      using assms len by (cases rule: fd_alloc_cases [OF assms(1), of f])
        (auto simp: fd_get_def fd_wf_len nth_list_update nth_append unat_eq_of_nat less_Suc_eq)
  qed
  show "fd_get t fd' \<noteq> None" if "fd' < fd"
    using assms that by (cases rule: fd_alloc_cases [OF assms(1), of f])
      (auto simp: fd_get_def fd_wf_len word_less_nat_alt
        intro: some_nth)
qed

lemma fd_wf_alloc: "40 * (length (fd_files t) + 1) < 2 ^ 63 \<Longrightarrow> fd_wf (snd (fd_alloc t f))"
  by (auto simp: fd_wf_def fd_alloc_def split: option.splits)

lemma fd_close_view: "fd_wf t \<Longrightarrow> fd_get (fd_close t fd) = (fd_get t)(fd := None)"
  by (auto simp: fun_eq_iff fd_get_def fd_close_def fd_wf_less nth_list_update word_unat_eq_iff)

lemma fd_close_wf: "fd_wf t \<Longrightarrow> fd_wf (fd_close t fd)"
  by (simp add: fd_wf_def fd_close_def)

lemma fd_set_view: "fd_get t fd \<noteq> None \<Longrightarrow> fd_get (fd_set t fd f) = (fd_get t)(fd \<mapsto> f)"
  by (auto simp: fun_eq_iff fd_get_def fd_set_def nth_list_update word_unat_eq_iff split: if_splits)

lemma fd_set_wf: "fd_wf t \<Longrightarrow> fd_wf (fd_set t fd f)"
  by (simp add: fd_wf_def fd_set_def)

text \<open>The largest descriptor plus one for which \<^verbatim>\<open>dup2\<close> can extend the vector.\<close>

definition fd_limit :: nat where
  "fd_limit = (2 ^ 63 - 1) div 40"

lemma fd_dup2_bad: "fd_wf t \<Longrightarrow> fd_get t old = None \<Longrightarrow> fd_dup2 t old new = Inr (False, t)"
  by (auto simp: fd_dup2_def fd_wf_le fd_get_def split: if_splits)

lemma fd_dup2_ok:
  assumes wf: "fd_wf t" and old: "fd_get t old = Some f" and new: "unat new < fd_limit"
  shows "\<exists>t'. fd_dup2 t old new = Inr (True, t') \<and> fd_wf t' \<and> fd_get t' = (fd_get t)(new \<mapsto> f)"
proof -
  let ?v = "fd_files t"
  have o: "unat old < length ?v" "?v ! unat old = Some f"
    using old by (simp_all add: fd_get_def split: if_splits)
  show ?thesis
  proof (cases "unat new < length ?v")
    case True
    then show ?thesis
      using o wf by (auto simp: fd_dup2_def fd_wf_le fd_wf_def fd_get_def fun_eq_iff nth_list_update word_unat_eq_iff)
  next
    case False
    define v where "v = ?v @ replicate (unat new + 1 - length ?v) None"
    have un: "unat (new + 1) = unat new + 1"
      using new by (simp add: unat_word_ariths fd_limit_def)
    have lv: "length v = unat new + 1"
      using False by (simp add: v_def)
    have resize: "files_resize ?v (new + 1) = Inr v"
      using new False by (simp add: files_resize_def un v_def fd_limit_def)
    have vold: "v ! unat old = Some f"
      using o by (simp add: v_def nth_append)
    have run: "fd_dup2 t old new = Inr (True, t\<lparr>fd_files := v[unat new := Some f]\<rparr>)"
      using o False wf lv vold by (simp add: fd_dup2_def fd_wf_le resize)
    have get: "fd_get (t\<lparr>fd_files := v[unat new := Some f]\<rparr>) fd = ((fd_get t)(new \<mapsto> f)) fd" for fd
      using False lv by (auto simp: fd_get_def nth_list_update word_unat_eq_iff) (auto simp: v_def nth_append)
    have "fd_wf (t\<lparr>fd_files := v[unat new := Some f]\<rparr>)"
      using new lv by (simp add: fd_wf_def fd_limit_def)
    with run get show ?thesis by blast
  qed
qed

lemma fd_dup2_panic:
  assumes wf: "fd_wf t" and old: "fd_get t old \<noteq> None" and new: "fd_limit \<le> unat new"
  shows "\<exists>msg. fd_dup2 t old new = Inl (Panic msg)"
proof -
  have o: "unat old < length (fd_files t)" "fd_files t ! unat old \<noteq> None"
    using old by (simp_all add: fd_get_def split: if_splits)
  have big: "length (fd_files t) \<le> unat new"
    using wf new by (simp add: fd_wf_def fd_limit_def)
  show ?thesis
  proof (cases "new + 1 = 0")
    case True
    then show ?thesis
      using o big wf by (auto simp: fd_dup2_def fd_wf_le files_resize_def)
  next
    case False
    then have un: "unat (new + 1) = unat new + 1"
      by (metis add.commute unat_plus_simple unatSuc Suc_eq_plus1 plus_1_eq_Suc)
    have "2 ^ 63 \<le> 40 * unat (new + 1)"
      using new by (simp add: un fd_limit_def)
    then show ?thesis
      using o big wf un by (auto simp: fd_dup2_def fd_wf_le files_resize_def)
  qed
qed

interpretation fdt: descriptor_table fd_get fd_alloc fd_close fd_dup2 fd_wf fd_limit
  by (unfold_locales; rule fd_alloc_free fd_close_view fd_close_wf fd_dup2_bad fd_dup2_ok; assumption)

section \<open>Properties\<close>

text \<open>
  \<^verbatim>\<open>FdTable::alloc\<close> takes the lowest free descriptor: the one it returns was free, every
  smaller one was in use, and afterwards \<^verbatim>\<open>get\<close> finds the new file there and every other
  descriptor as before.
\<close>

theorem fd_alloc_lowest:
  assumes "fd_wf t" "fd_alloc t f = (fd, t')"
  shows "fd_get t fd = None \<and> (\<forall>fd'. fd' < fd \<longrightarrow> fd_get t fd' \<noteq> None) \<and>
    fd_get t' = (fd_get t)(fd \<mapsto> f)"
  using fdt.alloc_free [OF assms] fdt.alloc_least [OF assms] fdt.alloc_view [OF assms] by blast

theorem fd_alloc_lowest_witness:
  "\<exists>t'. fd_alloc fd_table_new std_stream = (3, t') \<and>
     fd_get fd_table_new 3 = None \<and> fd_get t' = (fd_get fd_table_new)(3 \<mapsto> std_stream)"
proof -
  have "fd_alloc fd_table_new std_stream =
      (3, \<lparr>fd_files = [Some std_stream, Some std_stream, Some std_stream, Some std_stream]\<rparr>)"
    by (simp add: fd_alloc_def fd_table_new_def)
  moreover have "fd_wf fd_table_new"
    by (simp add: fd_wf_def fd_table_new_def)
  ultimately show ?thesis
    using fd_alloc_lowest by blast
qed



text \<open>
  C31. Redirection.  Closing a descriptor whose predecessors are all open makes the next
  \<^verbatim>\<open>alloc\<close> return exactly that descriptor; duplicating an open file onto another descriptor and
  closing the original moves it, with no other descriptor touched.
\<close>

theorem fd_redirection:
  assumes "fd_wf t"
  shows "((\<forall>fd'. fd' < fd \<longrightarrow> fd_get t fd' \<noteq> None) \<longrightarrow>
      (\<exists>t'. fd_alloc (fd_close t fd) f = (fd, t') \<and> fd_get t' = (fd_get t)(fd \<mapsto> f))) \<and>
    (fd_get t old = Some g \<longrightarrow> unat new < fd_limit \<longrightarrow> old \<noteq> new \<longrightarrow>
      (\<exists>t'. fd_dup2 t old new = Inr (True, t') \<and>
         fd_get (fd_close t' old) = (fd_get t)(old := None, new \<mapsto> g)))"
  using fdt.close_reopen [OF assms] fdt.dup_close [OF assms] by blast

theorem fd_redirection_witness:
  "(\<exists>t'. fd_dup2 fd_table_new 2 5 = Inr (True, t') \<and>
     fd_get (fd_close t' 2) = (fd_get fd_table_new)(2 := None, 5 \<mapsto> std_stream))"
proof -
  have "fd_wf fd_table_new" "fd_get fd_table_new 2 = Some std_stream" "unat (5::usize) < fd_limit"
    by (simp_all add: fd_wf_def fd_table_new_def fd_get_def fd_limit_def)
  then show ?thesis
    using fd_redirection [of fd_table_new 0 std_stream 2 std_stream 5] by simp
qed

end
