(* ===== verification/Kernel_State.thy ===== *)
theory Kernel_State
  imports Clone_Space Fs_Dir Ring_Pipe Fd_Table
begin

text \<open>
  The state of the running kernel: every global of the crate as a field of one record, the
  processes and their saved registers, and what the kernel sees of the machine and of the
  crates it links.  The machine side (address translation, the timer, the UART) and the
  linked crates (\<^verbatim>\<open>xmas-elf\<close>, \<^verbatim>\<open>smoltcp\<close> over \<^verbatim>\<open>virtio-drivers\<close>) are the fields of \<open>env\<close>,
  an argument of every definition that uses them.

  Rust collections are values; growing one is assumed to find heap memory, except for the
  buffers \<^verbatim>\<open>vec![0u8; n]\<close> whose size a system call chooses, which are charged to the bump heap
  that never takes memory back.
\<close>

section \<open>Trap frames and processes\<close>

record trap_frame =
  tf_regs :: "usize list"
  tf_fregs :: "usize list"
  tf_satp :: usize
  tf_sepc :: usize
  tf_sstatus :: usize
  tf_scause :: usize
  tf_stval :: usize

definition trap_frame_new :: trap_frame where
  "trap_frame_new = \<lparr>tf_regs = replicate 32 0, tf_fregs = replicate 32 0, tf_satp = 0, tf_sepc = 0,
     tf_sstatus = 0, tf_scause = 0, tf_stval = 0\<rparr>"

datatype proc_state = Ready | Running | Waiting | Zombie

record process =
  p_pid :: usize
  p_ppid :: usize
  p_state :: proc_state
  p_page_table :: page_table
  p_trap_frame :: trap_frame
  p_kernel_stack :: usize
  p_brk :: usize
  p_exit_code :: isize
  p_fd_table :: fd_table

section \<open>Descriptors that are not files\<close>

datatype nscd_phase = Header | Data | Done

record nscd_state =
  ns_phase :: nscd_phase
  ns_header :: "u8 list"
  ns_data :: "u8 list"
  ns_offset :: usize

datatype fake_fd_type = Nscd nscd_state | InetSocket | Epoll | EventFd

section \<open>The network stack and the machine\<close>

text \<open>
  \<open>'s\<close> is the state of the linked network crates (device, interface and socket set), \<open>'h\<close> the
  type of socket handles.  The state is absent until \<^verbatim>\<open>net::init\<close> has built it.
\<close>

record ('s, 'h) net_state =
  nt_device :: bool
  nt_stack :: "'s option"
  nt_fd_to_handle :: "(usize, 'h) btree"
  nt_epoll_data :: "(usize, u64) btree"
  nt_listen_fd :: "usize option"

record ('s, 'h) tcp_ops =
  tcp_add :: "'s \<Rightarrow> ('h \<times> 's) res"
  tcp_listen :: "'s \<Rightarrow> 'h \<Rightarrow> u16 \<Rightarrow> (bool \<times> 's)"
  tcp_remove :: "'s \<Rightarrow> 'h \<Rightarrow> 's res"
  tcp_live :: "'s \<Rightarrow> 'h \<Rightarrow> bool"
  tcp_is_listening :: "'s \<Rightarrow> 'h \<Rightarrow> bool"
  tcp_is_open :: "'s \<Rightarrow> 'h \<Rightarrow> bool"
  tcp_can_recv :: "'s \<Rightarrow> 'h \<Rightarrow> bool"
  tcp_can_send :: "'s \<Rightarrow> 'h \<Rightarrow> bool"
  tcp_rx_data :: "'s \<Rightarrow> 'h \<Rightarrow> u8 list option"
  tcp_rx_take :: "'s \<Rightarrow> 'h \<Rightarrow> nat \<Rightarrow> 's"
  tcp_tx_room :: "'s \<Rightarrow> 'h \<Rightarrow> nat option"
  tcp_tx_put :: "'s \<Rightarrow> 'h \<Rightarrow> u8 list \<Rightarrow> 's"
  tcp_poll :: "usize \<Rightarrow> 's \<Rightarrow> 's"
  tcp_stack_new :: "u8 list \<Rightarrow> usize \<Rightarrow> u8 list \<times> nat \<Rightarrow> u8 list \<Rightarrow> 's"
  tcp_send_raw :: "'s \<Rightarrow> u8 list \<Rightarrow> u8 list option \<times> 's"
  tcp_mac :: "u8 list"

record elf_phdr =
  ph_type_load :: "bool option"
  ph_vaddr :: usize
  ph_memsz :: usize
  ph_filesz :: usize
  ph_offset :: usize
  ph_read :: bool
  ph_write :: bool
  ph_exec :: bool

record elf_file =
  elf_entry :: usize
  elf_ph_offset :: usize
  elf_ph_entry_size :: usize
  elf_ph_count :: usize
  elf_phdrs :: "elf_phdr list"

text \<open>The levels of the \<^verbatim>\<open>log\<close> crate, from the most to the least urgent.\<close>

datatype log_level = Error | Warn | Info | Debug | Trace

primrec level_rank :: "log_level \<Rightarrow> nat" where
  "level_rank Error = 1"
| "level_rank Warn = 2"
| "level_rank Info = 3"
| "level_rank Debug = 4"
| "level_rank Trace = 5"

instantiation log_level :: linorder
begin

definition less_eq_log_level :: "log_level \<Rightarrow> log_level \<Rightarrow> bool" where
  "less_eq_log_level a b \<longleftrightarrow> level_rank a \<le> level_rank b"

definition less_log_level :: "log_level \<Rightarrow> log_level \<Rightarrow> bool" where
  "less_log_level a b \<longleftrightarrow> level_rank a < level_rank b"

instance
proof
  fix a b :: log_level
  show "a \<le> b \<Longrightarrow> b \<le> a \<Longrightarrow> a = b"
    by (cases a; cases b) (simp_all add: less_eq_log_level_def)
qed (auto simp: less_eq_log_level_def less_log_level_def)

end

record ('s, 'h) env =
  mmu :: "memory \<Rightarrow> usize \<Rightarrow> bool \<Rightarrow> usize \<Rightarrow> usize option"
  rdtime :: "nat \<Rightarrow> usize"
  uart_lsr :: "nat \<Rightarrow> u8"
  uart_rhr :: "nat \<Rightarrow> u8"
  spin_fuel :: nat
  log_enabled :: "log_level \<Rightarrow> log_level \<Rightarrow> bool"
  elf_parse :: "u8 list \<Rightarrow> elf_file option"
  tcp :: "('s, 'h) tcp_ops"

section \<open>The kernel\<close>

record ('s, 'h) kernel =
  k_mm :: mm_state
  k_fs :: fs_state
  k_procs :: "(usize, process) btree"
  k_current :: usize
  k_next_pid :: usize
  k_ctf :: trap_frame
  k_last_tp :: usize
  k_fds :: fd_table
  k_fake :: "(usize, fake_fd_type) btree"
  k_fake_next :: usize
  k_pipes :: "(usize, pipe_inner) btree"
  k_next_pipe :: usize
  k_mmap_base :: usize
  k_net :: "('s, 'h) net_state"
  k_satp :: usize
  k_out :: "u8 list"
  k_polls :: nat
  k_ticks :: nat

abbreviation (input) set_ram :: "('s, 'h) kernel \<Rightarrow> memory \<Rightarrow> ('s, 'h) kernel" where
  "set_ram k m \<equiv> k\<lparr>k_mm := (k_mm k)\<lparr>ram := m\<rparr>\<rparr>"

abbreviation (input) kram :: "('s, 'h) kernel \<Rightarrow> memory" where
  "kram k \<equiv> ram (k_mm k)"

section \<open>The current process\<close>

definition with_current_proc_ref :: "('s, 'h) kernel \<Rightarrow> (process \<Rightarrow> 'r) \<Rightarrow> 'r option" where
  "with_current_proc_ref k f = map_option f (bt_get (k_procs k) (k_current k))"

text \<open>
  A closure that may change the process and the rest of the kernel; the process it leaves
  behind is written back to the table.
\<close>

definition with_current_proc ::
  "('s, 'h) kernel \<Rightarrow> (process \<Rightarrow> ('s, 'h) kernel \<Rightarrow> ('r \<times> process \<times> ('s, 'h) kernel) res) \<Rightarrow>
   ('r option \<times> ('s, 'h) kernel) res"
where
  "with_current_proc k f =
     (case bt_get (k_procs k) (k_current k) of
        None \<Rightarrow> Inr (None, k)
      | Some p \<Rightarrow>
          res_bind (f p k) (\<lambda>(r, p', k').
          Inr (Some r, k'\<lparr>k_procs := bt_modify (k_procs k') (k_current k) (\<lambda>_. p')\<rparr>)))"

definition current_trap_frame :: "('s, 'h) kernel \<Rightarrow> trap_frame option" where
  "current_trap_frame k = map_option p_trap_frame (bt_get (k_procs k) (k_current k))"

definition set_current_trap_frame :: "('s, 'h) kernel \<Rightarrow> trap_frame \<Rightarrow> ('s, 'h) kernel" where
  "set_current_trap_frame k tf =
     k\<lparr>k_procs := bt_modify (k_procs k) (k_current k) (\<lambda>p. p\<lparr>p_trap_frame := tf\<rparr>)\<rparr>"

section \<open>Accesses through user pointers\<close>

text \<open>
  The kernel runs on the page table of the current process, so a raw user pointer is
  translated by the hardware, one access at a time; an access without a translation traps
  inside the kernel and does not come back.
\<close>

fun vload :: "('s, 'h) env \<Rightarrow> ('s, 'h) kernel \<Rightarrow> usize \<Rightarrow> nat \<Rightarrow> u8 list res" where
  "vload E k va 0 = Inr []"
| "vload E k va (Suc n) =
     (case mmu E (kram k) (k_satp k) False va of
        None \<Rightarrow> Inl (PageFault va)
      | Some pa \<Rightarrow> res_bind (vload E k (va + 1) n) (\<lambda>bs. Inr (kram k pa # bs)))"

fun vstore :: "('s, 'h) env \<Rightarrow> ('s, 'h) kernel \<Rightarrow> usize \<Rightarrow> u8 list \<Rightarrow> ('s, 'h) kernel res" where
  "vstore E k va [] = Inr k"
| "vstore E k va (b # bs) =
     (case mmu E (kram k) (k_satp k) True va of
        None \<Rightarrow> Inl (PageFault va)
      | Some pa \<Rightarrow> vstore E (set_ram k ((kram k)(pa := b))) (va + 1) bs)"

definition vload_u64 :: "('s, 'h) env \<Rightarrow> ('s, 'h) kernel \<Rightarrow> usize \<Rightarrow> u64 res" where
  "vload_u64 E k va = res_bind (vload E k va 8) (\<lambda>bs. Inr (le_word bs))"

definition vstore_u16 :: "('s, 'h) env \<Rightarrow> ('s, 'h) kernel \<Rightarrow> usize \<Rightarrow> u16 \<Rightarrow> ('s, 'h) kernel res" where
  "vstore_u16 E k va v = vstore E k va (le_bytes 2 v)"

definition vstore_u32 :: "('s, 'h) env \<Rightarrow> ('s, 'h) kernel \<Rightarrow> usize \<Rightarrow> u32 \<Rightarrow> ('s, 'h) kernel res" where
  "vstore_u32 E k va v = vstore E k va (le_bytes 4 v)"

definition vstore_u64 :: "('s, 'h) env \<Rightarrow> ('s, 'h) kernel \<Rightarrow> usize \<Rightarrow> u64 \<Rightarrow> ('s, 'h) kernel res" where
  "vstore_u64 E k va v = vstore E k va (le_bytes 8 v)"

text \<open>\<^verbatim>\<open>core::ptr::write_bytes\<close> on a user pointer\<close>

definition vfill :: "('s, 'h) env \<Rightarrow> ('s, 'h) kernel \<Rightarrow> usize \<Rightarrow> u8 \<Rightarrow> usize \<Rightarrow> ('s, 'h) kernel res" where
  "vfill E k va b n = vstore E k va (replicate (unat n) b)"

section \<open>Time and buffers\<close>

definition read_time :: "('s, 'h) env \<Rightarrow> ('s, 'h) kernel \<Rightarrow> usize \<times> ('s, 'h) kernel" where
  "read_time E k = (rdtime E (k_ticks k), k\<lparr>k_ticks := k_ticks k + 1\<rparr>)"

text \<open>
  \<^verbatim>\<open>vec![0u8; n]\<close>: an allocation of \<open>n\<close> bytes from the kernel heap, none for an empty vector.
  The contents of a vector are values of the model, so only the allocator changes.
\<close>

definition vec_zeroed :: "('s, 'h) kernel \<Rightarrow> usize \<Rightarrow> (usize \<times> ('s, 'h) kernel) res" where
  "vec_zeroed k n =
     (if 0x7fffffffffffffff < n then Inl (Panic ''capacity overflow'')
      else if n = 0 then Inr (1, k)
      else (case heap_grant (heap_alloc (k_mm k)) \<lparr>lay_size = n, lay_align = 1\<rparr> of
              (None, h) \<Rightarrow> Inl (Panic ''memory allocation failed'')
            | (Some ptr, h) \<Rightarrow>
                Inr (ptr, k\<lparr>k_mm := (k_mm k)\<lparr>heap_alloc := h\<rparr>\<rparr>)))"

lemma length_vload: "vload E k va n = Inr bs \<Longrightarrow> length bs = n"
  by (induction n arbitrary: va bs) (auto split: option.splits simp: res_bind_Inr_iff)

section \<open>A small instance\<close>

text \<open>
  A machine without address translation and without input, and a kernel with two processes,
  for evaluating the model.
\<close>

definition demo_tcp :: "(unit, unit) tcp_ops" where
  "demo_tcp = \<lparr>tcp_add = (\<lambda>s. Inr ((), s)), tcp_listen = (\<lambda>s h p. (True, s)), tcp_remove = (\<lambda>s h. Inr s),
     tcp_live = (\<lambda>s h. True), tcp_is_listening = (\<lambda>s h. False), tcp_is_open = (\<lambda>s h. True),
     tcp_can_recv = (\<lambda>s h. False), tcp_can_send = (\<lambda>s h. True), tcp_rx_data = (\<lambda>s h. None),
     tcp_rx_take = (\<lambda>s h n. s), tcp_tx_room = (\<lambda>s h. Some 4096), tcp_tx_put = (\<lambda>s h d. s),
     tcp_poll = (\<lambda>t s. s), tcp_stack_new = (\<lambda>mac t ip gw. ()), tcp_send_raw = (\<lambda>s d. (None, s)),
     tcp_mac = [0x52, 0x54, 0, 0x12, 0x34, 0x56]\<rparr>"

definition demo_env :: "(unit, unit) env" where
  "demo_env = \<lparr>mmu = (\<lambda>m satp w va. Some va), rdtime = of_nat, uart_lsr = (\<lambda>n. 0), uart_rhr = (\<lambda>n. 0),
     spin_fuel = 10, log_enabled = (\<lambda>m l. l \<le> m), elf_parse = (\<lambda>d. None), tcp = demo_tcp\<rparr>"

definition demo_proc :: "usize \<Rightarrow> proc_state \<Rightarrow> process" where
  "demo_proc pid st = \<lparr>p_pid = pid, p_ppid = 1, p_state = st, p_page_table = \<lparr>root_ppn = 0x80500\<rparr>,
     p_trap_frame = trap_frame_new, p_kernel_stack = 0x80600000 + pid * 0x2000, p_brk = 0x20000,
     p_exit_code = 0, p_fd_table = fd_table_new\<rparr>"

definition demo_kernel :: "(unit, unit) kernel" where
  "demo_kernel = \<lparr>k_mm = init_heap demo_mm, k_fs = demo_fs,
     k_procs = [(1, demo_proc 1 Running), (2, demo_proc 2 Ready)], k_current = 1, k_next_pid = 3,
     k_ctf = trap_frame_new, k_last_tp = 0, k_fds = fd_table_new, k_fake = [], k_fake_next = 100,
     k_pipes = [], k_next_pipe = 1, k_mmap_base = 0,
     k_net = \<lparr>nt_device = True, nt_stack = Some (), nt_fd_to_handle = [], nt_epoll_data = [], nt_listen_fd = None\<rparr>,
     k_satp = 0, k_out = [], k_polls = 0, k_ticks = 0\<rparr>"

end
