(* ===== verification/Word_Cells.thy ===== *)
theory Word_Cells
  imports Prelude
begin

text \<open>
  Runs of eight-byte cells in byte memory, as trap frames and the initial user stack use them.
  Addresses are taken relative to a base, so that stores at different offsets from the same
  base are compared as natural numbers.
\<close>

fun store_words :: "memory \<Rightarrow> usize \<Rightarrow> usize list \<Rightarrow> memory" where
  "store_words m p [] = m"
| "store_words m p (w # ws) = store_words (store_u64 m p w) (p + 8) ws"

definition load_words :: "memory \<Rightarrow> usize \<Rightarrow> nat \<Rightarrow> usize list" where
  "load_words m p n = map (\<lambda>i. load_u64 m (p + of_nat (8 * i))) [0..<n]"

lemma length_load_words [simp]: "length (load_words m p n) = n"
  by (simp add: load_words_def)

lemma nth_load_words [simp]: "i < n \<Longrightarrow> load_words m p n ! i = load_u64 m (p + of_nat (8 * i))"
  by (simp add: load_words_def)

lemma offset_distance:
  assumes "c < 2 ^ 64" "d < 2 ^ 64"
  shows "unat (of_nat d - of_nat c :: usize) = (if c \<le> d then d - c else 2 ^ 64 - (c - d))"
proof (cases "c \<le> d")
  case True
  then have "of_nat d - of_nat c = (of_nat (d - c) :: usize)"
    by (simp only: of_nat_diff)
  then show ?thesis
    using True assms by (simp only: if_True unat_of_nat) simp
next
  case False
  let ?x = "of_nat (c - d) :: usize"
  have ux: "unat ?x = c - d"
    using False assms by (simp only: unat_of_nat) simp
  then have nz: "?x \<noteq> 0"
    using False by (metis diff_is_0_eq nle_le unsigned_0)
  have "of_nat d - of_nat c = - ?x"
    using False by (simp only: of_nat_diff [of d c, where ?'a = usize]) simp
  moreover have "unat (- ?x) = 2 ^ 64 - unat ?x"
    using unat_diff_sum [of 0 ?x] nz by simp
  ultimately show ?thesis
    using False ux by simp
qed

lemma store_bytes_window:
  assumes "c + length xs \<le> 2 ^ 64" "d < 2 ^ 64"
  shows "store_bytes m (p + of_nat c) xs (p + of_nat d) =
    (if c \<le> d \<and> d < c + length xs then xs ! (d - c) else m (p + of_nat d))"
proof (cases "xs = []")
  case False
  then have c: "c < 2 ^ 64"
    using assms by (cases xs) simp_all
  have "p + of_nat d - (p + of_nat c) = (of_nat d - of_nat c :: usize)"
    by simp
  then show ?thesis
    unfolding store_bytes_def
    by (simp only: offset_distance [OF c assms(2)]) (use assms c in auto)
qed (auto simp: store_bytes_def)

lemma load_u64_window_cong:
  assumes "\<And>i. i < 8 \<Longrightarrow> m (p + of_nat (d + i)) = m' (p + of_nat (d + i))"
  shows "load_u64 m (p + of_nat d) = load_u64 m' (p + of_nat d)"
  using assms by (intro load_u64_cong) (simp add: algebra_simps)

lemma load_u64_store_bytes_window:
  assumes "c + length xs \<le> 2 ^ 64" "d + 8 \<le> 2 ^ 64" "d + 8 \<le> c \<or> c + length xs \<le> d"
  shows "load_u64 (store_bytes m (p + of_nat c) xs) (p + of_nat d) = load_u64 m (p + of_nat d)"
  using assms by (intro load_u64_window_cong) (auto simp only: store_bytes_window split: if_splits)

lemma load_u64_window:
  assumes "c + 8 \<le> 2 ^ 64" "d + 8 \<le> 2 ^ 64" "d + 8 \<le> c \<or> c + 8 \<le> d \<or> d = c"
  shows "load_u64 (store_u64 m (p + of_nat c) v) (p + of_nat d) =
    (if d = c then v else load_u64 m (p + of_nat d))"
proof (cases "d = c")
  case False
  then show ?thesis
    using assms load_u64_store_bytes_window [of c "le_bytes 8 v" d m p]
    by (simp add: store_u64_def)
qed simp

lemma store_u64_window:
  assumes "c + 8 \<le> 2 ^ 64" "d < 2 ^ 64" "d < c \<or> c + 8 \<le> d"
  shows "store_u64 m (p + of_nat c) v (p + of_nat d) = m (p + of_nat d)"
  using assms by (auto simp: store_u64_def store_bytes_window)

lemma store_words_window:
  assumes "c + 8 * length ws \<le> 2 ^ 64" "d < 2 ^ 64" "d < c \<or> c + 8 * length ws \<le> d"
  shows "store_words m (p + of_nat c) ws (p + of_nat d) = m (p + of_nat d)"
  using assms
proof (induction ws arbitrary: m c)
  case (Cons w ws)
  have "store_words (store_u64 m (p + of_nat c) w) (p + of_nat (c + 8)) ws (p + of_nat d) =
      store_u64 m (p + of_nat c) w (p + of_nat d)"
    using Cons.prems by (intro Cons.IH) auto
  also have "\<dots> = m (p + of_nat d)"
    using Cons.prems by (intro store_u64_window) auto
  finally show ?case
    by (simp add: algebra_simps)
qed simp

lemma load_u64_store_words_window:
  assumes "c + 8 * length ws \<le> 2 ^ 64" "d + 8 \<le> 2 ^ 64" "d + 8 \<le> c \<or> c + 8 * length ws \<le> d"
  shows "load_u64 (store_words m (p + of_nat c) ws) (p + of_nat d) = load_u64 m (p + of_nat d)"
  using assms by (intro load_u64_window_cong store_words_window) auto

lemma load_u64_store_words:
  assumes "c + 8 * length ws \<le> 2 ^ 64" "i < length ws"
  shows "load_u64 (store_words m (p + of_nat c) ws) (p + of_nat (c + 8 * i)) = ws ! i"
  using assms
proof (induction ws arbitrary: m c i)
  case (Cons w ws)
  have step: "store_words m (p + of_nat c) (w # ws) =
      store_words (store_u64 m (p + of_nat c) w) (p + of_nat (c + 8)) ws"
    by (simp add: algebra_simps)
  show ?case
  proof (cases i)
    case 0
    have "load_u64 (store_words (store_u64 m (p + of_nat c) w) (p + of_nat (c + 8)) ws) (p + of_nat c) =
        load_u64 (store_u64 m (p + of_nat c) w) (p + of_nat c)"
      using Cons.prems by (intro load_u64_store_words_window) auto
    then show ?thesis
      unfolding step by (simp add: 0)
  next
    case (Suc j)
    have "load_u64 (store_words (store_u64 m (p + of_nat c) w) (p + of_nat (c + 8)) ws)
        (p + of_nat (c + 8 + 8 * j)) = ws ! j"
      using Cons.prems Suc by (intro Cons.IH) auto
    moreover have "c + 8 * i = c + 8 + 8 * j"
      by (simp add: Suc)
    ultimately show ?thesis
      unfolding step by (simp only: Suc nth_Cons_Suc)
  qed
qed simp

lemma load_store_words:
  assumes "8 * length ws \<le> 2 ^ 64"
  shows "load_words (store_words m p ws) p (length ws) = ws"
  using load_u64_store_words [of 0 ws _ m p] assms by (intro nth_equalityI) auto

lemma store_words_append:
  "store_words m p (xs @ ys) = store_words (store_words m p xs) (p + of_nat (8 * length xs)) ys"
  by (induction xs arbitrary: m p) (simp_all add: algebra_simps)

end
