(* ===== verification/Trap_Vector.thy ===== *)
theory Trap_Vector
  imports Word_Cells
begin

text \<open>
  The trap entry and exit code of \<^verbatim>\<open>src/src/trap.rs\<close>: \<^verbatim>\<open>trap_vector\<close> as a list of instructions
  over the integer registers, the control registers it touches and memory.  The two calls in
  its middle are those of the Rust functions \<^verbatim>\<open>rust_trap_handler\<close> and \<^verbatim>\<open>do_schedule\<close>; the
  frame they share with the assembly is \<^verbatim>\<open>TrapFrameRaw\<close>.  The kernel stack lies in the
  identity-mapped range, so its cells are cells of physical memory.
\<close>

section \<open>The raw frame\<close>

record trap_frame_raw =
  raw_x :: "usize list"
  raw_orig_sp :: usize
  raw_sepc :: usize
  raw_sstatus :: usize

definition read_raw :: "memory \<Rightarrow> usize \<Rightarrow> trap_frame_raw" where
  "read_raw m p = \<lparr>raw_x = load_words m p 32, raw_orig_sp = load_u64 m (p + 256),
     raw_sepc = load_u64 m (p + 264), raw_sstatus = load_u64 m (p + 272)\<rparr>"

definition write_raw :: "memory \<Rightarrow> usize \<Rightarrow> trap_frame_raw \<Rightarrow> memory" where
  "write_raw m p r = store_words m p (raw_x r @ [raw_orig_sp r, raw_sepc r, raw_sstatus r])"

section \<open>Instructions\<close>

datatype csr = Sscratch | Sepc | Sstatus | Stvec

datatype instr =
    Csrrw nat csr nat
  | Addi nat nat usize
  | Li nat usize
  | Mv nat nat
  | Sd nat usize nat
  | Ld nat usize nat
  | Csrr nat csr
  | Csrw csr nat
  | Csrs csr nat

record machine =
  m_regs :: "nat \<Rightarrow> usize"
  m_csrs :: "csr \<Rightarrow> usize"
  m_mem :: memory

text \<open>Register 0 reads as zero and ignores writes.\<close>

definition rd :: "machine \<Rightarrow> nat \<Rightarrow> usize" where
  "rd s r = (if r = 0 then 0 else m_regs s r)"

definition wr :: "machine \<Rightarrow> nat \<Rightarrow> usize \<Rightarrow> machine" where
  "wr s r v = (if r = 0 then s else s\<lparr>m_regs := (m_regs s)(r := v)\<rparr>)"

definition wcsr :: "machine \<Rightarrow> csr \<Rightarrow> usize \<Rightarrow> machine" where
  "wcsr s c v = s\<lparr>m_csrs := (m_csrs s)(c := v)\<rparr>"

fun step_instr :: "machine \<Rightarrow> instr \<Rightarrow> machine" where
  "step_instr s (Csrrw d c r) = wr (wcsr s c (rd s r)) d (m_csrs s c)"
| "step_instr s (Addi d r i) = wr s d (rd s r + i)"
| "step_instr s (Li d v) = wr s d v"
| "step_instr s (Mv d r) = wr s d (rd s r)"
| "step_instr s (Sd r off b) = s\<lparr>m_mem := store_u64 (m_mem s) (rd s b + off) (rd s r)\<rparr>"
| "step_instr s (Ld d off b) = wr s d (load_u64 (m_mem s) (rd s b + off))"
| "step_instr s (Csrr d c) = wr s d (m_csrs s c)"
| "step_instr s (Csrw c r) = wcsr s c (rd s r)"
| "step_instr s (Csrs c r) = wcsr s c (m_csrs s c OR rd s r)"

definition exec_instrs :: "machine \<Rightarrow> instr list \<Rightarrow> machine" where
  "exec_instrs = foldl step_instr"

text \<open>\<^verbatim>\<open>trap::init\<close> installs the address of the vector.\<close>

definition trap_init :: "usize \<Rightarrow> machine \<Rightarrow> machine" where
  "trap_init trap_vector s = wcsr s Stvec trap_vector"

text \<open>
  The three straight-line parts of \<^verbatim>\<open>trap_vector\<close>: up to the call of \<^verbatim>\<open>rust_trap_handler\<close>, up to
  the call of \<^verbatim>\<open>do_schedule\<close>, and up to \<^verbatim>\<open>sret\<close>.  Registers: \<^verbatim>\<open>sp\<close> is 2, \<^verbatim>\<open>t0\<close> is 5, \<^verbatim>\<open>a0\<close> is 10.
\<close>

definition trap_entry :: "instr list" where
  "trap_entry =
     [Csrrw 2 Sscratch 2, Addi 2 2 (- 288)] @
     map (\<lambda>r. Sd r (of_nat (8 * r)) 2) [0..<32] @
     [Csrr 5 Sscratch, Sd 5 256 2, Csrr 5 Sepc, Sd 5 264 2, Csrr 5 Sstatus, Sd 5 272 2,
      Li 5 (push_bit 18 1), Csrs Sstatus 5, Mv 10 2]"

definition trap_between :: "instr list" where
  "trap_between = [Mv 10 2]"

text \<open>\<^verbatim>\<open>t0\<close> serves as a scratch register and \<^verbatim>\<open>sp\<close> as the base, so both are restored last.\<close>

definition restored_first :: "nat list" where
  "restored_first = [0, 1, 3, 4] @ [6..<32]"

definition trap_exit :: "instr list" where
  "trap_exit =
     [Mv 2 10] @
     map (\<lambda>r. Ld r (of_nat (8 * r)) 2) restored_first @
     [Ld 5 264 2, Csrw Sepc 5, Ld 5 272 2, Csrw Sstatus 5, Addi 5 2 288, Csrw Sscratch 5,
      Ld 5 40 2, Ld 2 256 2]"

section \<open>What the three parts do\<close>

lemma read_write_raw:
  assumes "length (raw_x r) = 32"
  shows "read_raw (write_raw m p r) p = r"
proof -
  let ?ws = "raw_x r @ [raw_orig_sp r, raw_sepc r, raw_sstatus r]"
  have len: "0 + 8 * length ?ws \<le> 2 ^ 64"
    using assms by simp
  have cell: "load_u64 (write_raw m p r) (p + of_nat (8 * i)) = ?ws ! i" if "i < 35" for i
    using load_u64_store_words [OF len, of i m p] assms that by (simp add: write_raw_def)
  have "load_words (write_raw m p r) p 32 = raw_x r"
    using assms cell by (intro nth_equalityI) (simp_all add: nth_append)
  moreover have "load_u64 (write_raw m p r) (p + 256) = raw_orig_sp r"
      "load_u64 (write_raw m p r) (p + 264) = raw_sepc r"
      "load_u64 (write_raw m p r) (p + 272) = raw_sstatus r"
    using cell [of 32] cell [of 33] cell [of 34] assms by (simp_all add: nth_append)
  ultimately show ?thesis
    by (simp add: read_raw_def)
qed

lemma exec_instrs_simps [simp]:
  "exec_instrs s [] = s"
  "exec_instrs s (i # is) = exec_instrs (step_instr s i) is"
  "exec_instrs s (is @ js) = exec_instrs (exec_instrs s is) js"
  by (simp_all add: exec_instrs_def)

lemma exec_saves:
  "exec_instrs s (map (\<lambda>r. Sd r (of_nat (8 * r)) 2) [0..<n]) =
     s\<lparr>m_mem := store_words (m_mem s) (rd s 2) (map (rd s) [0..<n])\<rparr>"
proof (induction n)
  case (Suc n)
  then show ?case
    by (simp add: store_words_append rd_def)
qed simp

lemma exec_restores:
  assumes "2 \<notin> set rs"
  shows "exec_instrs s (map (\<lambda>r. Ld r (of_nat (8 * r)) 2) rs) =
     s\<lparr>m_regs := \<lambda>r. if r \<in> set rs \<and> r \<noteq> 0 then load_u64 (m_mem s) (rd s 2 + of_nat (8 * r)) else m_regs s r\<rparr>"
  using assms
proof (induction rs arbitrary: s)
  case (Cons r rs)
  let ?s = "wr s r (load_u64 (m_mem s) (rd s 2 + of_nat (8 * r)))"
  have "rd ?s 2 = rd s 2" "m_mem ?s = m_mem s"
    using Cons.prems by (simp_all add: rd_def wr_def)
  moreover have "?s\<lparr>m_regs := f\<rparr> = s\<lparr>m_regs := f\<rparr>" for f
    by (simp add: wr_def)
  ultimately show ?case
    using Cons by (simp add: wr_def) (auto simp: fun_eq_iff wr_def intro!: arg_cong [where f = "\<lambda>f. s\<lparr>m_regs := f\<rparr>"])
qed simp

text \<open>The frame that the entry code leaves on the kernel stack.\<close>

definition user_raw :: "machine \<Rightarrow> trap_frame_raw" where
  "user_raw s = \<lparr>raw_x = (map (rd s) [0..<32])[2 := m_csrs s Sscratch - 288], raw_orig_sp = m_regs s 2,
     raw_sepc = m_csrs s Sepc, raw_sstatus = m_csrs s Sstatus\<rparr>"

lemma trap_entry_state:
  fixes s :: machine
  defines "p \<equiv> m_csrs s Sscratch - 288"
  shows "exec_instrs s trap_entry =
    s\<lparr>m_regs := (m_regs s)(2 := p, 5 := push_bit 18 1, 10 := p),
      m_csrs := (m_csrs s)(Sscratch := m_regs s 2, Sstatus := m_csrs s Sstatus OR push_bit 18 1),
      m_mem := write_raw (m_mem s) p (user_raw s)\<rparr>"
proof -
  define s1 where "s1 = s\<lparr>m_regs := (m_regs s)(2 := p), m_csrs := (m_csrs s)(Sscratch := m_regs s 2)\<rparr>"
  let ?ws = "(map (rd s) [0..<32])[2 := p]"
  have s1: "exec_instrs s [Csrrw 2 Sscratch 2, Addi 2 2 (- 288)] = s1"
    by (simp add: s1_def p_def wr_def wcsr_def rd_def)
  have regs: "map (rd s1) [0..<32] = ?ws" "rd s1 2 = p"
    by (rule nth_equalityI) (auto simp: s1_def rd_def nth_list_update)
  have saves: "exec_instrs s1 (map (\<lambda>r. Sd r (of_nat (8 * r)) 2) [0..<32]) =
      s1\<lparr>m_mem := store_words (m_mem s) p ?ws\<rparr>"
    unfolding exec_saves regs by (simp add: s1_def)
  have "write_raw (m_mem s) p (user_raw s) =
      store_u64 (store_u64 (store_u64 (store_words (m_mem s) p ?ws) (p + 256) (m_regs s 2))
        (p + 264) (m_csrs s Sepc)) (p + 272) (m_csrs s Sstatus)"
    unfolding write_raw_def user_raw_def
    by (simp add: store_words_append p_def)
  then show ?thesis
    unfolding trap_entry_def exec_instrs_simps(3) s1 saves
    by (simp add: s1_def wr_def wcsr_def rd_def)
qed

lemma set_restored_first: "i \<in> set restored_first \<longleftrightarrow> i < 32 \<and> i \<noteq> 2 \<and> i \<noteq> 5"
  unfolding restored_first_def by (simp del: upt_rec_numeral) arith

lemma trap_exit_state:
  fixes s :: machine
  defines "r \<equiv> read_raw (m_mem s) (m_regs s 10)"
  defines "s' \<equiv> exec_instrs s trap_exit"
  shows "m_mem s' = m_mem s"
    "m_csrs s' = (m_csrs s)(Sepc := raw_sepc r, Sstatus := raw_sstatus r, Sscratch := m_regs s 10 + 288)"
    "m_regs s' 2 = raw_orig_sp r"
    "\<And>i. 0 < i \<Longrightarrow> i < 32 \<Longrightarrow> i \<noteq> 2 \<Longrightarrow> m_regs s' i = raw_x r ! i"
proof -
  let ?p = "m_regs s 10"
  let ?rs = "restored_first"
  define s1 where "s1 = s\<lparr>m_regs := \<lambda>i. if i \<in> set ?rs \<and> i \<noteq> 0 then load_u64 (m_mem s) (?p + of_nat (8 * i))
      else ((m_regs s)(2 := ?p)) i\<rparr>"
  have sp_free: "2 \<notin> set ?rs" by (simp add: set_restored_first)
  have "exec_instrs (s\<lparr>m_regs := (m_regs s)(2 := ?p)\<rparr>) (map (\<lambda>r. Ld r (of_nat (8 * r)) 2) ?rs) = s1"
    unfolding exec_restores [OF sp_free] by (simp add: s1_def rd_def cong: if_cong)
  then have run: "s' = exec_instrs s1 [Ld 5 264 2, Csrw Sepc 5, Ld 5 272 2, Csrw Sstatus 5, Addi 5 2 288,
      Csrw Sscratch 5, Ld 5 40 2, Ld 2 256 2]"
    unfolding s'_def trap_exit_def exec_instrs_simps(3) by (simp add: wr_def rd_def)
  have sp: "m_regs s1 2 = ?p" "m_mem s1 = m_mem s" "m_csrs s1 = m_csrs s"
    using sp_free by (simp_all add: s1_def)
  show "m_mem s' = m_mem s"
    "m_csrs s' = (m_csrs s)(Sepc := raw_sepc r, Sstatus := raw_sstatus r, Sscratch := ?p + 288)"
    "m_regs s' 2 = raw_orig_sp r"
    by (simp_all add: run wr_def wcsr_def rd_def sp r_def read_raw_def)
  fix i :: nat
  assume i: "0 < i" "i < 32" "i \<noteq> 2"
  show "m_regs s' i = raw_x r ! i"
  proof (cases "i = 5")
    case True
    then show ?thesis
      by (simp add: run wr_def wcsr_def rd_def sp r_def read_raw_def)
  next
    case False
    then have "i \<in> set ?rs"
      using i by (simp add: set_restored_first)
    then have "m_regs s1 i = load_u64 (m_mem s) (?p + of_nat (8 * i))"
      using i by (simp add: s1_def)
    then show ?thesis
      using False i by (simp add: run wr_def wcsr_def rd_def sp r_def read_raw_def)
  qed
qed

section \<open>Properties\<close>

text \<open>
  C8. A trap is transparent to user code apart from what the handlers change.  On entry the
  kernel stack receives all integer registers, the user stack pointer, the program counter and
  the status register, 288 bytes below its top, and no other byte of memory changes.  If the
  handlers leave that frame as it is and return its address, the exit code gives back every
  integer register, the program counter and the status register, and \<^verbatim>\<open>sscratch\<close> points to the
  top of the kernel stack again.
\<close>

theorem trap_roundtrip:
  fixes s t :: machine
  defines "p \<equiv> m_csrs s Sscratch - 288"
  assumes "m_regs t 10 = p" "read_raw (m_mem t) p = read_raw (m_mem (exec_instrs s trap_entry)) p"
  shows "(\<forall>a. 280 \<le> a - p \<longrightarrow> m_mem (exec_instrs s trap_entry) a = m_mem s a) \<and>
    (\<forall>i. 0 < i \<longrightarrow> i < 32 \<longrightarrow> m_regs (exec_instrs t trap_exit) i = m_regs s i) \<and>
    m_csrs (exec_instrs t trap_exit) Sepc = m_csrs s Sepc \<and>
    m_csrs (exec_instrs t trap_exit) Sstatus = m_csrs s Sstatus \<and>
    m_csrs (exec_instrs t trap_exit) Sscratch = m_csrs s Sscratch"
proof -
  have mem: "m_mem (exec_instrs s trap_entry) = write_raw (m_mem s) p (user_raw s)"
    by (simp add: trap_entry_state p_def)
  have len: "length (raw_x (user_raw s)) = 32"
    by (simp add: user_raw_def)
  have frame: "read_raw (m_mem t) p = user_raw s"
    by (simp add: assms(3) mem read_write_raw [OF len])
  have out: "write_raw (m_mem s) p (user_raw s) a = m_mem s a" if "280 \<le> a - p" for a
    using store_words_window [of 0 "raw_x (user_raw s) @ [raw_orig_sp (user_raw s), raw_sepc (user_raw s),
        raw_sstatus (user_raw s)]" "unat (a - p)" "m_mem s" p] that len unsigned_less [of "a - p"]
    by (simp add: write_raw_def word_le_nat_alt)
  note exit = trap_exit_state [where s = t, unfolded assms(2) frame]
  have "m_regs (exec_instrs t trap_exit) i = m_regs s i" if "0 < i" "i < 32" for i
    using exit(3,4) that by (cases "i = 2") (simp_all add: user_raw_def rd_def)
  then show ?thesis
    using out exit(2) by (simp add: mem user_raw_def p_def)
qed

theorem trap_roundtrip_witness:
  "m_regs (exec_instrs (exec_instrs \<lparr>m_regs = of_nat, m_csrs = (\<lambda>_. 0x80401000), m_mem = (\<lambda>_. 0)\<rparr>
     trap_entry) trap_exit) 2 = 2"
proof -
  let ?s = "\<lparr>m_regs = of_nat, m_csrs = (\<lambda>_. 0x80401000), m_mem = (\<lambda>_. 0)\<rparr>"
  have "m_regs (exec_instrs ?s trap_entry) 10 = m_csrs ?s Sscratch - 288"
    by (simp add: trap_entry_state)
  from trap_roundtrip [of "exec_instrs ?s trap_entry" ?s, OF this refl] show ?thesis
    by (simp only:) simp
qed

end
