(* ===== verification/Scheduler.thy ===== *)
theory Scheduler
  imports Kernel_State Trap_Vector
begin

text \<open>
  \<^verbatim>\<open>do_schedule\<close> of \<^verbatim>\<open>src/src/trap.rs\<close>: it saves the interrupted process, picks the next ready
  one round-robin, switches the address space and puts the saved frame of that process on its
  kernel stack.  The choice rule is the locale \<open>round_robin\<close>, which shows that a process that
  stays ready gets the processor after at most as many switches as there are processes.
\<close>

section \<open>Definitions\<close>

text \<open>The interrupted process: its frame is taken from the kernel stack.\<close>

definition saved :: "('s, 'h) kernel \<Rightarrow> usize \<Rightarrow> process \<Rightarrow> process" where
  "saved k tf_sp p =
     (let raw = read_raw (kram k) tf_sp in
      p\<lparr>p_state := (if p_state p = Running then Ready else p_state p),
        p_trap_frame := (p_trap_frame p)
          \<lparr>tf_regs := (raw_x raw)[2 := raw_orig_sp raw], tf_sepc := raw_sepc raw,
           tf_sstatus := raw_sstatus raw\<rparr>\<rparr>)"

definition save_current :: "('s, 'h) kernel \<Rightarrow> usize \<Rightarrow> ('s, 'h) kernel" where
  "save_current k tf_sp = k\<lparr>k_procs := bt_modify (k_procs k) (k_current k) (saved k tf_sp)\<rparr>"

definition ready_pids :: "('s, 'h) kernel \<Rightarrow> usize list" where
  "ready_pids k = map fst (filter (\<lambda>(pid, p). p_state p = Ready) (k_procs k))"

definition pick_next :: "'a::linorder list \<Rightarrow> 'a \<Rightarrow> 'a" where
  "pick_next pids current =
     (case find (\<lambda>p. current < p) pids of Some p \<Rightarrow> p | None \<Rightarrow> pids ! 0)"

text \<open>
  No process is left: the kernel page table, which also maps the test finisher, is installed
  and the finisher is told to stop the machine.
\<close>

definition power_off :: "('s, 'h) env \<Rightarrow> ('s, 'h) kernel \<Rightarrow> kerror" where
  "power_off E k =
     (case kernel_page_table (k_mm k) of
        None \<Rightarrow> Panic ''kernel page table missing''
      | Some ppn \<Rightarrow>
          (case mmu E (kram k) (push_bit 60 8 OR ppn) True 0x100000 of
             None \<Rightarrow> PageFault 0x100000
           | Some _ \<Rightarrow> PowerOff))"

definition raw_of_frame :: "trap_frame \<Rightarrow> trap_frame_raw" where
  "raw_of_frame tf = \<lparr>raw_x = tf_regs tf, raw_orig_sp = tf_regs tf ! 2, raw_sepc = tf_sepc tf,
     raw_sstatus = tf_sstatus tf\<rparr>"

definition switch_to :: "('s, 'h) kernel \<Rightarrow> usize \<Rightarrow> (usize \<times> ('s, 'h) kernel) res" where
  "switch_to k next =
     (case bt_get (k_procs k) next of
        None \<Rightarrow> Inl (Panic ''next proc missing'')
      | Some p \<Rightarrow>
          (let new_tf_sp = p_kernel_stack p - 288 in
           Inr (new_tf_sp,
             k\<lparr>k_procs := bt_modify (k_procs k) next (\<lambda>p. p\<lparr>p_state := Running\<rparr>),
               k_current := next,
               k_satp := satp_of (p_page_table p),
               k_mm := (k_mm k)\<lparr>ram := write_raw (kram k) new_tf_sp (raw_of_frame (p_trap_frame p))\<rparr>\<rparr>)))"

definition do_schedule :: "('s, 'h) env \<Rightarrow> ('s, 'h) kernel \<Rightarrow> usize \<Rightarrow> (usize \<times> ('s, 'h) kernel) res" where
  "do_schedule E k tf_sp =
     (let k = save_current k tf_sp; current = k_current k; pids = ready_pids k in
      if pids = [] then
        (case bt_get (k_procs k) current of
           None \<Rightarrow> Inr (tf_sp, k)
         | Some p \<Rightarrow>
             if p_state p = Zombie then Inl (power_off E k)
             else Inr (tf_sp, k\<lparr>k_procs := bt_modify (k_procs k) current (\<lambda>p. p\<lparr>p_state := Running\<rparr>)\<rparr>))
      else if pick_next pids current = current then Inr (tf_sp, k)
      else switch_to k (pick_next pids current))"

definition proc_of :: "('s, 'h) kernel \<Rightarrow> usize \<Rightarrow> process option" where
  "proc_of k pid = bt_get (k_procs k) pid"

definition is_ready :: "('s, 'h) kernel \<Rightarrow> usize \<Rightarrow> bool" where
  "is_ready k pid = (case proc_of k pid of None \<Rightarrow> False | Some p \<Rightarrow> p_state p = Ready)"

text \<open>
  What every kernel path keeps of the process table: keys in order, full register files, and
  no process marked as running but the current one.
\<close>

definition sched_inv :: "('s, 'h) kernel \<Rightarrow> bool" where
  "sched_inv k \<longleftrightarrow> bt_wf (k_procs k) \<and>
     (\<forall>pid p. proc_of k pid = Some p \<longrightarrow>
        length (tf_regs (p_trap_frame p)) = 32 \<and> (p_state p = Running \<longrightarrow> pid = k_current k))"

section \<open>Round robin\<close>

lemma card_lessI: "finite B \<Longrightarrow> A \<subseteq> B \<Longrightarrow> x \<in> B \<Longrightarrow> x \<notin> A \<Longrightarrow> card A < card B"
  by (rule psubset_card_mono) auto

locale round_robin =
  fixes pick :: "'a::linorder set \<Rightarrow> 'a \<Rightarrow> 'a"
  assumes pick_above: "finite R \<Longrightarrow> r \<in> R \<Longrightarrow> c < r \<Longrightarrow> pick R c \<in> R \<and> c < pick R c \<and> pick R c \<le> r"
    and pick_wrap: "finite R \<Longrightarrow> r \<in> R \<Longrightarrow> (\<forall>x \<in> R. x \<le> c) \<Longrightarrow> pick R c \<in> R \<and> pick R c \<le> r"
begin

lemma pick_mem:
  assumes "finite R" "R \<noteq> {}"
  shows "pick R c \<in> R"
proof (cases "\<exists>r \<in> R. c < r")
  case True
  then show ?thesis using pick_above [OF assms(1)] by blast
next
  case False
  then show ?thesis using pick_wrap [OF assms(1)] assms(2) by (metis all_not_in_conv leI)
qed

text \<open>How many members of \<open>U\<close> come after \<open>c\<close> and before \<open>t\<close> in cyclic order.\<close>

definition gap :: "'a set \<Rightarrow> 'a \<Rightarrow> 'a \<Rightarrow> nat" where
  "gap U t c = (if c < t then card {u \<in> U. c < u \<and> u < t}
     else card {u \<in> U. c < u} + card {u \<in> U. u < t})"

lemma gap_less:
  assumes "finite U" "t \<in> U" "c \<noteq> t"
  shows "gap U t c < card U"
proof (cases "c < t")
  case True
  then show ?thesis
    using assms card_lessI [OF assms(1), of "{u \<in> U. c < u \<and> u < t}" t] by (simp add: gap_def)
next
  case False
  then have "t < c" using assms(3) by simp
  then have "card {u \<in> U. c < u} + card {u \<in> U. u < t} = card ({u \<in> U. c < u} \<union> {u \<in> U. u < t})"
    using assms(1) by (subst card_Un_disjoint) auto
  also have "\<dots> < card U"
    using assms \<open>t < c\<close> by (intro card_lessI [where x = t]) auto
  finally show ?thesis using False by (simp add: gap_def)
qed

lemma gap_decreases:
  assumes U: "finite U" "R \<subseteq> U" and t: "t \<in> R" and c: "c \<noteq> t" and d: "pick R c \<noteq> t"
  shows "gap U t (pick R c) < gap U t c"
proof -
  let ?d = "pick R c"
  have R: "finite R" using U finite_subset by blast
  show ?thesis
  proof (cases "c < t")
    case True
    then have d: "?d \<in> U" "c < ?d" "?d < t"
      using pick_above [OF R t] U(2) d by (auto simp: order.strict_iff_order)
    have "card {u \<in> U. ?d < u \<and> u < t} < card {u \<in> U. c < u \<and> u < t}"
      using U(1) d by (intro card_lessI [where x = ?d]) auto
    then show ?thesis using True d by (simp add: gap_def)
  next
    case False
    then have tc: "t < c" using c by simp
    show ?thesis
    proof (cases "\<exists>r \<in> R. c < r")
      case True
      then have d: "?d \<in> U" "c < ?d"
        using pick_above [OF R] U(2) by blast+
      have "card {u \<in> U. ?d < u} < card {u \<in> U. c < u}"
        using U(1) d by (intro card_lessI [where x = ?d]) auto
      moreover have "\<not> ?d < t" "\<not> c < t"
        using tc d by auto
      ultimately show ?thesis by (simp add: gap_def)
    next
      case False
      then have "\<forall>x \<in> R. x \<le> c" by (auto simp: not_less)
      then have d: "?d \<in> U" "?d < t"
        using pick_wrap [OF R t] U(2) d by (auto simp: order.strict_iff_order)
      have "card {u \<in> U. ?d < u \<and> u < t} < card {u \<in> U. u < t}"
        using U(1) d by (intro card_lessI [where x = ?d]) auto
      then show ?thesis using tc d by (simp add: gap_def)
    qed
  qed
qed

lemma fair:
  fixes c :: "nat \<Rightarrow> 'a"
  assumes U: "finite U" and t: "\<And>i. i < card U \<Longrightarrow> t \<in> R i \<and> R i \<subseteq> U"
    and step: "\<And>i. i < card U \<Longrightarrow> c (Suc i) = pick (R i) (c i)" and ne: "U \<noteq> {}"
  shows "\<exists>i \<le> card U. c i = t"
proof (rule ccontr)
  assume none: "\<not> (\<exists>i \<le> card U. c i = t)"
  have "gap U t (c i) + i \<le> gap U t (c 0)" if "i \<le> card U" for i
    using that
  proof (induction i)
    case (Suc i)
    then have "c i \<noteq> t" "pick (R i) (c i) \<noteq> t"
      using none step [of i] by (auto simp: Suc_le_eq)
    then have "gap U t (c (Suc i)) < gap U t (c i)"
      using Suc.prems t [of i] step [of i] U by (auto intro: gap_decreases)
    then show ?case using Suc by simp
  qed simp
  then have "card U \<le> gap U t (c 0)"
    by (metis add_leD2 order_refl)
  moreover have "gap U t (c 0) < card U"
    using none t [of 0] U ne by (intro gap_less) (auto simp: card_gt_0_iff)
  ultimately show False by simp
qed

end

lemma pick_next_above:
  assumes "sorted_wrt (<) pids" "r \<in> set pids" "c < r"
  shows "pick_next pids c \<in> set pids \<and> c < pick_next pids c \<and> pick_next pids c \<le> r"
  using assms
proof (induction pids)
  case (Cons a pids)
  then show ?case
    by (cases "c < a") (auto simp: pick_next_def split: option.splits simp: find_None_iff)
qed simp

lemma pick_next_wrap:
  assumes "sorted_wrt (<) pids" "r \<in> set pids" "\<forall>x \<in> set pids. x \<le> c"
  shows "pick_next pids c \<in> set pids \<and> pick_next pids c \<le> r"
proof -
  have "find (\<lambda>p. c < p) pids = None"
    using assms(3) by (auto simp: find_None_iff not_less)
  then show ?thesis
    using assms(1,2) by (cases pids) (auto simp: pick_next_def)
qed

interpretation rr: round_robin "\<lambda>R c. pick_next (sorted_list_of_set R) c"
proof unfold_locales
  fix R :: "'a set" and r c
  assume R: "finite R" "r \<in> R"
  then have sorted: "sorted_wrt (<) (sorted_list_of_set R)" "r \<in> set (sorted_list_of_set R)"
    by simp_all
  show "pick_next (sorted_list_of_set R) c \<in> R \<and> c < pick_next (sorted_list_of_set R) c \<and>
      pick_next (sorted_list_of_set R) c \<le> r" if "c < r"
    using pick_next_above [OF sorted that] R by simp
  show "pick_next (sorted_list_of_set R) c \<in> R \<and> pick_next (sorted_list_of_set R) c \<le> r"
    if "\<forall>x \<in> R. x \<le> c"
    using pick_next_wrap [OF sorted] that R by simp
qed

section \<open>The process table\<close>

lemma sorted_ready_pids: "bt_wf (k_procs k) \<Longrightarrow> sorted_wrt (<) (ready_pids k)"
  by (simp add: ready_pids_def bt_wf_def sorted_wrt_map sorted_wrt_filter)

lemma set_ready_pids: "bt_wf (k_procs k) \<Longrightarrow> set (ready_pids k) = {pid. is_ready k pid}"
  using bt.entries_get [of "k_procs k"]
  by (force simp: ready_pids_def is_ready_def proc_of_def split: option.splits)

lemma ready_pids_set:
  "bt_wf (k_procs k) \<Longrightarrow> ready_pids k = sorted_list_of_set {pid. is_ready k pid}"
  using sorted_ready_pids [of k] set_ready_pids [of k]
  by (metis sorted_list_of_set.idem_if_sorted_distinct strict_sorted_iff)

lemma proc_of_save:
  "bt_wf (k_procs k) \<Longrightarrow>
    proc_of (save_current k sp) pid = (if pid = k_current k then map_option (saved k sp) else id) (proc_of k pid)"
  by (auto simp: save_current_def proc_of_def bt.get_upd)

lemma save_current_simps [simp]:
  "k_current (save_current k sp) = k_current k"
  "k_mm (save_current k sp) = k_mm k"
  "k_satp (save_current k sp) = k_satp k"
  by (simp_all add: save_current_def)

lemma sched_inv_wf: "sched_inv k \<Longrightarrow> bt_wf (k_procs k)"
  by (simp add: sched_inv_def)

lemma saved_fields:
  "p_state (saved k sp p) = (if p_state p = Running then Ready else p_state p)"
  "p_kernel_stack (saved k sp p) = p_kernel_stack p"
  "p_page_table (saved k sp p) = p_page_table p"
  by (simp_all add: saved_def Let_def)

lemma wf_save: "bt_wf (k_procs k) \<Longrightarrow> bt_wf (k_procs (save_current k sp))"
  by (simp add: save_current_def bt.inv_upd)

lemma sched_inv_save:
  assumes "sched_inv k"
  shows "sched_inv (save_current k sp)"
  using assms wf_save [of k sp] unfolding sched_inv_def
  by (auto simp: proc_of_save saved_def read_raw_def Let_def split: if_splits)

text \<open>A process that may run next: ready, or the current one if it was running.\<close>

definition runnable :: "('s, 'h) kernel \<Rightarrow> usize \<Rightarrow> bool" where
  "runnable k pid \<longleftrightarrow> (\<exists>p. proc_of k pid = Some p \<and>
     (p_state p = Ready \<or> pid = k_current k \<and> p_state p = Running))"

lemma is_ready_save: "bt_wf (k_procs k) \<Longrightarrow> is_ready (save_current k sp) pid = runnable k pid"
  by (auto simp: is_ready_def runnable_def proc_of_save saved_def Let_def split: option.splits)

definition next_pid :: "('s, 'h) kernel \<Rightarrow> usize" where
  "next_pid k = pick_next (sorted_list_of_set {pid. runnable k pid}) (k_current k)"

lemma ready_pids_save:
  "bt_wf (k_procs k) \<Longrightarrow> ready_pids (save_current k sp) = sorted_list_of_set {pid. runnable k pid}"
  using wf_save [of k sp] by (simp add: ready_pids_set is_ready_save)

lemma finite_runnable: "bt_wf (k_procs k) \<Longrightarrow> finite {pid. runnable k pid}"
  using set_ready_pids [OF wf_save, of k 0] is_ready_save [of k 0] by (metis Collect_cong List.finite_set)

lemma next_pid_runnable: "bt_wf (k_procs k) \<Longrightarrow> runnable k t \<Longrightarrow> runnable k (next_pid k)"
  using rr.pick_mem [OF finite_runnable, of k "k_current k"] unfolding next_pid_def by blast

lemma next_pid_above:
  "bt_wf (k_procs k) \<Longrightarrow> runnable k t \<Longrightarrow> k_current k < t \<Longrightarrow> k_current k < next_pid k \<and> next_pid k \<le> t"
  using rr.pick_above [OF finite_runnable, of k t "k_current k"] unfolding next_pid_def by blast

lemma next_pid_wrap:
  "bt_wf (k_procs k) \<Longrightarrow> runnable k t \<Longrightarrow> (\<forall>u. runnable k u \<longrightarrow> u \<le> k_current k) \<Longrightarrow> next_pid k \<le> t"
  using rr.pick_wrap [OF finite_runnable, of k t "k_current k"] unfolding next_pid_def by blast

text \<open>What one call of the scheduler does, by cases.\<close>

lemma do_schedule_stay:
  assumes "bt_wf (k_procs k)" "runnable k t" "next_pid k = k_current k"
  shows "do_schedule E k sp = Inr (sp, save_current k sp)"
proof -
  have "ready_pids (save_current k sp) \<noteq> []"
    using assms(1,2) set_ready_pids [OF wf_save [OF assms(1)], of sp] is_ready_save [OF assms(1)] by fastforce
  then show ?thesis
    using assms by (auto simp: do_schedule_def Let_def ready_pids_save next_pid_def)
qed

definition switched :: "('s, 'h) kernel \<Rightarrow> usize \<Rightarrow> process \<Rightarrow> usize \<Rightarrow> ('s, 'h) kernel" where
  "switched k sp p pid =
     (save_current k sp)\<lparr>k_procs := bt_modify (k_procs (save_current k sp)) pid (\<lambda>p. p\<lparr>p_state := Running\<rparr>),
       k_current := pid, k_satp := satp_of (p_page_table p),
       k_mm := (k_mm k)\<lparr>ram := write_raw (kram k) (p_kernel_stack p - 288) (raw_of_frame (p_trap_frame p))\<rparr>\<rparr>"

lemma do_schedule_switch:
  assumes "bt_wf (k_procs k)" "runnable k t" "next_pid k \<noteq> k_current k"
  obtains p where "proc_of k (next_pid k) = Some p" "p_state p = Ready"
    "do_schedule E k sp = Inr (p_kernel_stack p - 288, switched k sp p (next_pid k))"
proof -
  obtain p where p: "proc_of k (next_pid k) = Some p" "p_state p = Ready"
    using next_pid_runnable [OF assms(1,2)] assms(3) by (auto simp: runnable_def)
  have "ready_pids (save_current k sp) \<noteq> []"
    using assms(1,2) set_ready_pids [OF wf_save [OF assms(1)], of sp] is_ready_save [OF assms(1)] by fastforce
  moreover have "proc_of (save_current k sp) (next_pid k) = Some p"
    using assms p by (simp add: proc_of_save)
  ultimately have "do_schedule E k sp = Inr (p_kernel_stack p - 288, switched k sp p (next_pid k))"
    using assms by (auto simp: do_schedule_def Let_def ready_pids_save next_pid_def [symmetric] switch_to_def
        proc_of_def switched_def)
  with p show ?thesis by (rule that)
qed

lemma do_schedule_idle:
  assumes "bt_wf (k_procs k)" "\<forall>t. \<not> runnable k t"
  shows "do_schedule E k sp =
    (case proc_of k (k_current k) of
       None \<Rightarrow> Inr (sp, save_current k sp)
     | Some p \<Rightarrow> if p_state p = Zombie then Inl (power_off E k)
        else Inr (sp, (save_current k sp)\<lparr>k_procs :=
            bt_modify (k_procs (save_current k sp)) (k_current k) (\<lambda>p. p\<lparr>p_state := Running\<rparr>)\<rparr>))"
proof -
  have "ready_pids (save_current k sp) = []"
    using assms set_ready_pids [OF wf_save [OF assms(1)], of sp] is_ready_save [OF assms(1)] by force
  moreover have "bt_get (k_procs (save_current k sp)) (k_current k) =
      map_option (saved k sp) (proc_of k (k_current k))"
    using proc_of_save [OF assms(1), of sp "k_current k"] by (simp add: proc_of_def)
  ultimately show ?thesis
    unfolding do_schedule_def Let_def save_current_simps
    by (auto simp: saved_def power_off_def Let_def split: option.splits)
qed

lemma proc_of_switched:
  assumes "bt_wf (k_procs k)"
  shows "proc_of (switched k sp p pid) u =
    (if u = pid then map_option (\<lambda>p. p\<lparr>p_state := Running\<rparr>) else id) (proc_of (save_current k sp) u)"
  using bt.get_upd [OF wf_save [OF assms, of sp], of pid "\<lambda>p. p\<lparr>p_state := Running\<rparr>" u]
  by (simp add: switched_def proc_of_def)

lemma sched_invD:
  "sched_inv k \<Longrightarrow> proc_of k u = Some q \<Longrightarrow>
    length (tf_regs (p_trap_frame q)) = 32 \<and> (p_state q = Running \<longrightarrow> u = k_current k)"
  unfolding sched_inv_def by blast

lemma saved_not_running:
  assumes "sched_inv k" "proc_of (save_current k sp) u = Some q"
  shows "p_state q \<noteq> Running"
proof (cases "u = k_current k")
  case True
  then show ?thesis
    using assms by (auto simp: proc_of_save sched_inv_wf saved_fields split: if_split_asm)
next
  case False
  then have "proc_of k u = Some q"
    using assms by (simp add: proc_of_save sched_inv_wf)
  then show ?thesis
    using False sched_invD [OF assms(1)] by blast
qed

lemma sched_inv_switched:
  assumes "sched_inv k" "runnable k t" "next_pid k \<noteq> k_current k"
  shows "sched_inv (switched k sp p (next_pid k))"
proof -
  have wf: "bt_wf (k_procs k)"
    using assms(1) by (simp add: sched_inv_def)
  have inv: "sched_inv (save_current k sp)"
    by (rule sched_inv_save [OF assms(1)])
  have "bt_wf (k_procs (switched k sp p (next_pid k)))"
    by (simp add: switched_def bt.inv_upd wf_save wf)
  moreover have "length (tf_regs (p_trap_frame q)) = 32 \<and> (p_state q = Running \<longrightarrow> u = next_pid k)"
    if q: "proc_of (switched k sp p (next_pid k)) u = Some q" for u q
  proof -
    obtain q' where q': "proc_of (save_current k sp) u = Some q'"
        "q = (if u = next_pid k then q'\<lparr>p_state := Running\<rparr> else q')"
      using q unfolding proc_of_switched [OF wf] by (cases "u = next_pid k") auto
    then show ?thesis
      using saved_not_running [OF assms(1) q'(1)] sched_invD [OF inv q'(1)] by simp
  qed
  moreover have "k_current (switched k sp p (next_pid k)) = next_pid k"
    by (simp add: switched_def)
  ultimately show ?thesis
    by (simp add: sched_inv_def)
qed

lemma switched_frame:
  assumes "length (tf_regs (p_trap_frame p)) = 32"
  shows "read_raw (kram (switched k sp p pid)) (p_kernel_stack p - 288) = raw_of_frame (p_trap_frame p)"
  using assms by (simp add: switched_def read_write_raw raw_of_frame_def)

lemma schedule_current:
  assumes "bt_wf (k_procs k)" "runnable k t" "do_schedule E k sp = Inr (sp', k')"
  shows "k_current k' = next_pid k"
proof (cases "next_pid k = k_current k")
  case True
  then show ?thesis
    using do_schedule_stay [OF assms(1,2) True, of E sp] assms(3) by auto
next
  case False
  obtain p where "do_schedule E k sp = Inr (p_kernel_stack p - 288, switched k sp p (next_pid k))"
    by (rule do_schedule_switch [OF assms(1,2) False])
  then show ?thesis
    using assms(3) by (auto simp: switched_def)
qed

lemma idle_inv:
  assumes "sched_inv k" "\<forall>t. \<not> runnable k t" "do_schedule E k sp = Inr (sp', k')"
  shows "sched_inv k' \<and> (\<forall>p. proc_of k' (k_current k') = Some p \<longrightarrow> p_state p \<in> {Ready, Running})"
proof -
  note wf = sched_inv_wf [OF assms(1)]
  note save = sched_inv_save [OF assms(1), of sp]
  note run = assms(3) [unfolded do_schedule_idle [OF wf assms(2)]]
  show ?thesis
  proof (cases "proc_of k (k_current k)")
    case None
    then have k': "k' = save_current k sp"
      using run by auto
    have "proc_of k' (k_current k') = None"
      by (simp add: k' proc_of_save [OF wf] None)
    then show ?thesis
      using save by (simp add: k')
  next
    case (Some p)
    let ?run = "\<lambda>p. p\<lparr>p_state := Running\<rparr>"
    have k': "k' = (save_current k sp)\<lparr>k_procs := bt_modify (k_procs (save_current k sp)) (k_current k) ?run\<rparr>"
      using run Some by (auto split: if_split_asm)
    have get: "proc_of k' u = (if u = k_current k then map_option ?run else id) (proc_of (save_current k sp) u)" for u
      using bt.get_upd [OF wf_save [OF wf, of sp], of "k_current k" ?run u] by (simp add: k' proc_of_def)
    have cur: "k_current k' = k_current k"
      by (simp add: k')
    have "bt_wf (k_procs k')"
      by (simp add: k' bt.inv_upd wf_save wf)
    moreover have "length (tf_regs (p_trap_frame q)) = 32 \<and> (p_state q = Running \<longrightarrow> u = k_current k)"
      if q: "proc_of k' u = Some q" for u q
      using q sched_invD [OF save] unfolding get by (cases "u = k_current k") auto
    ultimately have "sched_inv k'"
      by (simp add: sched_inv_def cur)
    then show ?thesis
      using get [of "k_current k"] by (auto simp: cur)
  qed
qed

lemma demo_kernel_inv: "sched_inv demo_kernel" "runnable demo_kernel 2" "k_current demo_kernel = 1"
  by (auto simp: sched_inv_def demo_kernel_def bt_wf_def proc_of_def bt_get_def demo_proc_def trap_frame_new_def
      runnable_def split: if_splits)

definition waiting_kernel :: "(unit, unit) kernel" where
  "waiting_kernel = demo_kernel\<lparr>k_procs := [(1, demo_proc 1 Waiting), (2, demo_proc 2 Ready)]\<rparr>"

lemma waiting_kernel_inv:
  "sched_inv waiting_kernel" "runnable waiting_kernel 2" "next_pid waiting_kernel \<noteq> k_current waiting_kernel"
  "{pid. runnable waiting_kernel pid} = {2}" "k_current waiting_kernel = 1"
proof -
  show inv: "sched_inv waiting_kernel" and run: "{pid. runnable waiting_kernel pid} = {2}"
    and cur: "k_current waiting_kernel = 1"
    by (auto simp: sched_inv_def runnable_def proc_of_def bt_get_def waiting_kernel_def demo_kernel_def
        demo_proc_def bt_wf_def trap_frame_new_def split: if_splits)
  then show two: "runnable waiting_kernel 2" by auto
  show "next_pid waiting_kernel \<noteq> k_current waiting_kernel"
    by (simp add: next_pid_def run cur pick_next_def)
qed

lemma demo_proc_one: "proc_of demo_kernel 1 = Some (demo_proc 1 Running)"
  by (simp add: demo_kernel_def proc_of_def bt_get_def)

lemma demo_next: "next_pid demo_kernel = 2" "k_current demo_kernel = 1"
proof -
  have "{pid. runnable demo_kernel pid} = {1, 2}"
    by (auto simp: runnable_def proc_of_def bt_get_def demo_kernel_def demo_proc_def split: if_splits)
  then show "next_pid demo_kernel = 2"
    by (simp add: next_pid_def demo_kernel_inv pick_next_def)
qed (rule demo_kernel_inv(3))

section \<open>Properties\<close>

text \<open>
  C7. Whenever some process can run, \<^verbatim>\<open>do_schedule\<close> returns, and it picks the process with the
  least process id above the current one, or the least of all if there is none above.  If that
  is the interrupted process itself, it goes on with its own frame.  Otherwise the frame of the
  interrupted process is saved in its table entry, the address space of the chosen one becomes
  active, and the returned stack pointer is where exactly the saved frame of the chosen process
  now lies.
\<close>

theorem schedule_choice:
  assumes "sched_inv k" "runnable k t"
  shows "\<exists>n sp' k'. do_schedule E k sp = Inr (sp', k') \<and> k_current k' = n \<and> runnable k n \<and>
    (\<forall>u. runnable k u \<longrightarrow> k_current k < u \<longrightarrow> k_current k < n \<and> n \<le> u) \<and>
    ((\<forall>u. runnable k u \<longrightarrow> u \<le> k_current k) \<longrightarrow> (\<forall>u. runnable k u \<longrightarrow> n \<le> u)) \<and>
    (n = k_current k \<longrightarrow> sp' = sp \<and> kram k' = kram k \<and> k_satp k' = k_satp k) \<and>
    (n \<noteq> k_current k \<longrightarrow> (\<exists>p. proc_of k n = Some p \<and> sp' = p_kernel_stack p - 288 \<and>
       k_satp k' = satp_of (p_page_table p) \<and>
       read_raw (kram k') sp' = raw_of_frame (p_trap_frame p)) \<and>
       proc_of k' (k_current k) = map_option (saved k sp) (proc_of k (k_current k)))"
proof -
  note wf = sched_inv_wf [OF assms(1)]
  have choice: "runnable k (next_pid k)"
    "\<forall>u. runnable k u \<longrightarrow> k_current k < u \<longrightarrow> k_current k < next_pid k \<and> next_pid k \<le> u"
    "(\<forall>u. runnable k u \<longrightarrow> u \<le> k_current k) \<longrightarrow> (\<forall>u. runnable k u \<longrightarrow> next_pid k \<le> u)"
    using next_pid_runnable [OF wf assms(2)] next_pid_above [OF wf] next_pid_wrap [OF wf] by blast+
  show ?thesis
  proof (cases "next_pid k = k_current k")
    case True
    then show ?thesis
      using do_schedule_stay [OF wf assms(2) True, of E sp] choice
      by (intro exI [of _ "next_pid k"] exI [of _ sp] exI [of _ "save_current k sp"]) simp
  next
    case False
    obtain p where p: "proc_of k (next_pid k) = Some p"
        "do_schedule E k sp = Inr (p_kernel_stack p - 288, switched k sp p (next_pid k))"
      by (rule do_schedule_switch [OF wf assms(2) False])
    have len: "length (tf_regs (p_trap_frame p)) = 32"
      using assms(1) p(1) by (auto simp: sched_inv_def)
    have cur: "k_current (switched k sp p (next_pid k)) = next_pid k"
      "k_satp (switched k sp p (next_pid k)) = satp_of (p_page_table p)"
      by (simp_all add: switched_def)
    moreover have "proc_of (switched k sp p (next_pid k)) (k_current k) = map_option (saved k sp) (proc_of k (k_current k))"
      unfolding proc_of_switched [OF wf] proc_of_save [OF wf] using False by simp
    ultimately show ?thesis
      using p choice False switched_frame [OF len, of k sp "next_pid k"]
      by (intro exI [of _ "next_pid k"] exI [of _ "p_kernel_stack p - 288"]
          exI [of _ "switched k sp p (next_pid k)"] conjI impI) simp_all
  qed
qed

theorem schedule_choice_witness:
  "\<exists>sp' k'. do_schedule demo_env demo_kernel 0x80602ee0 = Inr (sp', k') \<and> 1 < k_current k' \<and> k_current k' \<le> 2"
proof -
  from schedule_choice [OF demo_kernel_inv(1,2), of demo_env "0x80602ee0"] obtain sp' k' where
    run: "do_schedule demo_env demo_kernel 0x80602ee0 = Inr (sp', k')" and
    least: "\<forall>u. runnable demo_kernel u \<longrightarrow> k_current demo_kernel < u \<longrightarrow>
      k_current demo_kernel < k_current k' \<and> k_current k' \<le> u"
    by blast
  from least demo_kernel_inv(2,3) have "1 < k_current k' \<and> k_current k' \<le> 2"
    by simp
  with run show ?thesis by blast
qed

text \<open>
  C24. The scheduler keeps the process table in order: after every call that returns, entries
  are still keyed in ascending order with full register files, no process but the current one
  is marked as running, and the current process is neither a zombie nor left waiting.
\<close>

theorem schedule_invariant:
  assumes "sched_inv k" "do_schedule E k sp = Inr (sp', k')"
  shows "sched_inv k' \<and> (\<forall>p. proc_of k' (k_current k') = Some p \<longrightarrow> p_state p \<in> {Ready, Running})"
proof (cases "\<exists>t. runnable k t")
  case False
  then have none: "\<forall>t. \<not> runnable k t" by blast
  show ?thesis
    using idle_inv [OF assms(1) none assms(2)] by blast
next
  case True
  then obtain t where t: "runnable k t" by blast
  note wf = sched_inv_wf [OF assms(1)]
  note save = sched_inv_save [OF assms(1), of sp]
  show ?thesis
  proof (cases "next_pid k = k_current k")
    case True
    then have "k' = save_current k sp" "runnable k (k_current k)"
      using do_schedule_stay [OF wf t True, of E sp] assms(2) next_pid_runnable [OF wf t] by simp_all
    then show ?thesis
      using save is_ready_save [OF wf, of sp "k_current k"] by (auto simp: is_ready_def)
  next
    case False
    obtain p where p: "proc_of k (next_pid k) = Some p"
        "do_schedule E k sp = Inr (p_kernel_stack p - 288, switched k sp p (next_pid k))"
      by (rule do_schedule_switch [OF wf t False])
    have k': "k' = switched k sp p (next_pid k)"
      using p(2) assms(2) by simp
    have "proc_of k' (next_pid k) = Some (p\<lparr>p_state := Running\<rparr>)"
      unfolding k' proc_of_switched [OF wf] proc_of_save [OF wf] using p(1) False by simp
    then show ?thesis
      using sched_inv_switched [OF assms(1) t False, of sp p] schedule_current [OF wf t assms(2)]
      by (simp add: k')
  qed
qed

theorem schedule_invariant_witness:
  "\<exists>sp' k'. do_schedule demo_env demo_kernel 0x80602ee0 = Inr (sp', k') \<and> sched_inv k' \<and>
     (\<forall>p. proc_of k' (k_current k') = Some p \<longrightarrow> p_state p \<in> {Ready, Running})"
proof -
  note wf = sched_inv_wf [OF demo_kernel_inv(1)]
  have above: "k_current demo_kernel < next_pid demo_kernel"
    using next_pid_above [OF wf demo_kernel_inv(2)] demo_kernel_inv(3) by simp
  then have ne: "next_pid demo_kernel \<noteq> k_current demo_kernel" by simp
  obtain p where "do_schedule demo_env demo_kernel 0x80602ee0 =
      Inr (p_kernel_stack p - 288, switched demo_kernel 0x80602ee0 p (next_pid demo_kernel))"
    by (rule do_schedule_switch [OF wf demo_kernel_inv(2) ne])
  then show ?thesis
    using schedule_invariant [OF demo_kernel_inv(1)] by blast
qed

text \<open>
  C23. No process that stays able to run is passed over for ever.  Take any sequence of calls of
  the scheduler, with arbitrary kernel activity between them that leaves the current process
  alone, such that at each call the process \<open>t\<close> can run and all that can run come from a finite
  set \<open>U\<close> of process ids.  Then \<open>t\<close> is the current process at the latest after as many calls as
  \<open>U\<close> has members.
\<close>

theorem schedule_fair:
  fixes before after :: "nat \<Rightarrow> ('s, 'h) kernel"
  assumes "finite U" "t \<in> U"
    and "\<forall>i < card U. sched_inv (before i) \<and> runnable (before i) t \<and> {pid. runnable (before i) pid} \<subseteq> U"
    and "\<forall>i < card U. k_current (before i) = k_current (after i)"
    and "\<forall>i < card U. \<exists>sp sp'. do_schedule E (before i) sp = Inr (sp', after (Suc i))"
  shows "\<exists>i \<le> card U. k_current (after i) = t"
proof (rule rr.fair [where R = "\<lambda>i. {pid. runnable (before i) pid}"])
  show "finite U" "U \<noteq> {}"
    using assms(1,2) by auto
  fix i
  assume i: "i < card U"
  show "t \<in> {pid. runnable (before i) pid} \<and> {pid. runnable (before i) pid} \<subseteq> U"
    using assms(3) i by simp
  have inv: "sched_inv (before i)" and run: "runnable (before i) t"
    using assms(3) i by simp_all
  obtain sp sp' where "do_schedule E (before i) sp = Inr (sp', after (Suc i))"
    using assms(5) i by blast
  then have "k_current (after (Suc i)) = next_pid (before i)"
    using schedule_current [OF sched_inv_wf [OF inv] run] by blast
  then show "k_current (after (Suc i)) =
      pick_next (sorted_list_of_set {pid. runnable (before i) pid}) (k_current (after i))"
    using assms(4) i by (simp add: next_pid_def)
qed

theorem schedule_fair_witness:
  "\<exists>after. \<forall>i \<le> (1::nat). k_current (after i) = (if i = 0 then 1 else 2 :: usize) \<and>
     (\<exists>sp sp'. do_schedule demo_env waiting_kernel sp = Inr (sp', after 1))"
proof -
  obtain p where "do_schedule demo_env waiting_kernel 0 =
      Inr (p_kernel_stack p - 288, switched waiting_kernel 0 p (next_pid waiting_kernel))"
    by (rule do_schedule_switch [OF sched_inv_wf [OF waiting_kernel_inv(1)] waiting_kernel_inv(2,3)])
  then obtain sp' k' where run: "do_schedule demo_env waiting_kernel 0 = Inr (sp', k')" by blast
  define after where "after = (\<lambda>i::nat. if i = 0 then waiting_kernel else k')"
  have "\<exists>i \<le> card {2::usize}. k_current (after i) = 2"
    by (rule schedule_fair [where before = "\<lambda>_. waiting_kernel" and E = demo_env])
      (use run waiting_kernel_inv in \<open>auto simp: after_def\<close>)
  then have "k_current (after 1) = 2"
    using waiting_kernel_inv(5) by (auto simp: after_def split: if_splits)
  then show ?thesis
    using run waiting_kernel_inv(5) by (intro exI [of _ after]) (auto simp: after_def)
qed

text \<open>
  C10. A process resumes exactly where it was interrupted.  If the scheduler switches away from a
  process and a later call switches back to it, with its saved frame untouched in between, then
  the frame on its kernel stack from which the trap exit restores the registers is the one it
  was interrupted with: same program counter, status, user stack pointer and registers.
\<close>

theorem context_switch_roundtrip:
  assumes "sched_inv k" "do_schedule E k sp = Inr (sp1, k1)" "k_current k1 \<noteq> k_current k"
    and "proc_of k (k_current k) = Some p"
    and "sched_inv k2" "do_schedule E k2 sp2 = Inr (sp3, k3)" "k_current k3 = k_current k"
      "k_current k2 \<noteq> k_current k"
    and "map_option p_trap_frame (proc_of k2 (k_current k)) = map_option p_trap_frame (proc_of k1 (k_current k))"
    and "runnable k t" "runnable k2 t2"
  shows "let raw = read_raw (kram k) sp; raw' = read_raw (kram k3) sp3 in
    raw_sepc raw' = raw_sepc raw \<and> raw_sstatus raw' = raw_sstatus raw \<and>
    raw_orig_sp raw' = raw_orig_sp raw \<and>
    (\<forall>i < 32. i \<noteq> 2 \<longrightarrow> raw_x raw' ! i = raw_x raw ! i)"
proof -
  note wf = sched_inv_wf [OF assms(1)] and wf2 = sched_inv_wf [OF assms(5)]
  have ne: "next_pid k \<noteq> k_current k"
    using schedule_current [OF wf assms(10,2)] assms(3) by simp
  have next2: "next_pid k2 = k_current k"
    using schedule_current [OF wf2 assms(11,6)] assms(7) by simp
  then have ne2: "next_pid k2 \<noteq> k_current k2"
    using assms(8) by simp
  obtain q where "do_schedule E k sp = Inr (p_kernel_stack q - 288, switched k sp q (next_pid k))"
    by (rule do_schedule_switch [OF wf assms(10) ne])
  then have "k1 = switched k sp q (next_pid k)"
    using assms(2) by simp
  then have "proc_of k1 (k_current k) = Some (saved k sp p)"
    using proc_of_switched [OF wf, of sp q "next_pid k" "k_current k"] ne assms(4)
    by (simp add: proc_of_save [OF wf])
  then obtain r where r: "proc_of k2 (k_current k) = Some r" "p_trap_frame r = p_trap_frame (saved k sp p)"
    using assms(9) by auto
  obtain r' where "proc_of k2 (next_pid k2) = Some r'"
      "do_schedule E k2 sp2 = Inr (p_kernel_stack r' - 288, switched k2 sp2 r' (next_pid k2))"
    by (rule do_schedule_switch [OF wf2 assms(11) ne2])
  then have k3: "k3 = switched k2 sp2 r (next_pid k2)" "sp3 = p_kernel_stack r - 288"
    using assms(6) r(1) next2 by simp_all
  have "length (tf_regs (p_trap_frame r)) = 32"
    using sched_invD [OF assms(5) r(1)] by simp
  then have "read_raw (kram k3) sp3 = raw_of_frame (p_trap_frame (saved k sp p))"
    unfolding k3 r(2) [symmetric] by (rule switched_frame)
  then show ?thesis
    by (simp add: raw_of_frame_def saved_def Let_def read_raw_def)
qed

theorem context_switch_roundtrip_witness:
  "\<exists>sp1 k1 sp3 k3. do_schedule demo_env demo_kernel 0x80602ee0 = Inr (sp1, k1) \<and> k_current k1 = 2 \<and>
     do_schedule demo_env k1 sp1 = Inr (sp3, k3) \<and> k_current k3 = 1 \<and>
     raw_sepc (read_raw (kram k3) sp3) = raw_sepc (read_raw (kram demo_kernel) 0x80602ee0)"
proof -
  let ?sp = "0x80602ee0 :: usize"
  note wf = sched_inv_wf [OF demo_kernel_inv(1)]
  have ne: "next_pid demo_kernel \<noteq> k_current demo_kernel"
    by (simp add: demo_next)
  obtain p where run: "do_schedule demo_env demo_kernel ?sp =
      Inr (p_kernel_stack p - 288, switched demo_kernel ?sp p (next_pid demo_kernel))"
    by (rule do_schedule_switch [OF wf demo_kernel_inv(2) ne])
  define k1 where "k1 = switched demo_kernel ?sp p 2"
  have inv: "sched_inv k1" and cur: "k_current k1 = 2"
    using sched_inv_switched [OF demo_kernel_inv(1,2) ne, of ?sp p] by (simp_all add: k1_def demo_next)
      (simp add: switched_def)
  have procs: "proc_of k1 u = (if u = 1 then Some (saved demo_kernel ?sp (demo_proc 1 Running))
      else if u = 2 then Some (demo_proc 2 Running) else None)" for u
    unfolding k1_def proc_of_switched [OF wf] proc_of_save [OF wf]
    by (simp add: demo_kernel_def proc_of_def bt_get_def demo_proc_def)
  have set: "{pid. runnable k1 pid} = {1, 2}"
    by (auto simp: runnable_def procs cur saved_fields demo_proc_def split: if_splits)
  then have one: "runnable k1 1" by auto
  have next1: "next_pid k1 = 1"
    by (simp add: next_pid_def set cur pick_next_def)
  then have ne1: "next_pid k1 \<noteq> k_current k1"
    by (simp add: cur)
  obtain q where run1: "do_schedule demo_env k1 (p_kernel_stack p - 288) =
      Inr (p_kernel_stack q - 288, switched k1 (p_kernel_stack p - 288) q (next_pid k1))"
    by (rule do_schedule_switch [OF sched_inv_wf [OF inv] one ne1])
  let ?k3 = "switched k1 (p_kernel_stack p - 288) q 1"
  have "k_current ?k3 = 1"
    by (simp add: switched_def)
  with context_switch_roundtrip [of demo_kernel demo_env ?sp "p_kernel_stack p - 288" k1 "demo_proc 1 Running"
      k1 "p_kernel_stack p - 288" "p_kernel_stack q - 288" ?k3 2 1] show ?thesis
    using run run1 inv cur one next1 demo_kernel_inv
    by (simp add: k1_def [symmetric] demo_next demo_proc_one Let_def)
qed

text \<open>
  When no process can run, the scheduler does one of three things.  With no current process
  it just returns; a current process that is only waiting is resumed on its own frame, marked
  as running, so that it repeats its system call; and if the current process has exited, the
  machine is stopped through the kernel page table, or the kernel dies for lack of it.
\<close>

theorem schedule_idle:
  assumes "sched_inv k" "\<forall>t. \<not> runnable k t"
  shows "(proc_of k (k_current k) = None \<longrightarrow> do_schedule E k sp = Inr (sp, save_current k sp)) \<and>
    (\<forall>p. proc_of k (k_current k) = Some p \<longrightarrow> p_state p \<noteq> Zombie \<longrightarrow>
       p_state p = Waiting \<and>
       (\<exists>k'. do_schedule E k sp = Inr (sp, k') \<and> k_current k' = k_current k \<and> kram k' = kram k \<and>
          map_option p_state (proc_of k' (k_current k)) = Some Running)) \<and>
    (\<forall>p. proc_of k (k_current k) = Some p \<longrightarrow> p_state p = Zombie \<longrightarrow>
       do_schedule E k sp = Inl (power_off E k))"
proof -
  note wf = sched_inv_wf [OF assms(1)]
  note run = do_schedule_idle [OF wf assms(2), of E sp]
  let ?run = "\<lambda>p. p\<lparr>p_state := Running\<rparr>"
  have "p_state p = Waiting \<and> (\<exists>k'. do_schedule E k sp = Inr (sp, k') \<and> k_current k' = k_current k \<and>
      kram k' = kram k \<and> map_option p_state (proc_of k' (k_current k)) = Some Running)"
    if p: "proc_of k (k_current k) = Some p" "p_state p \<noteq> Zombie" for p
  proof
    have "p_state p \<noteq> Ready" "p_state p \<noteq> Running"
      using assms(2) p(1) by (auto simp: runnable_def)
    then show "p_state p = Waiting"
      using p(2) by (cases "p_state p") simp_all
    have "bt_get (bt_modify (k_procs (save_current k sp)) (k_current k) ?run) (k_current k) =
        Some (?run (saved k sp p))"
      using bt.get_upd [OF wf_save [OF wf, of sp], of "k_current k" ?run "k_current k"]
        proc_of_save [OF wf, of sp "k_current k"] p(1) by (simp add: proc_of_def)
    then show "\<exists>k'. do_schedule E k sp = Inr (sp, k') \<and> k_current k' = k_current k \<and>
        kram k' = kram k \<and> map_option p_state (proc_of k' (k_current k)) = Some Running"
      using run p by (simp add: proc_of_def)
  qed
  then show ?thesis
    using run by simp
qed

theorem schedule_idle_witness:
  "do_schedule demo_env (demo_kernel\<lparr>k_procs := [(1, demo_proc 1 Zombie)]\<rparr>) 0 =
     Inl (Panic ''kernel page table missing'')"
proof -
  let ?k = "demo_kernel\<lparr>k_procs := [(1, demo_proc 1 Zombie)]\<rparr>"
  have "sched_inv ?k" "\<forall>t. \<not> runnable ?k t" "proc_of ?k (k_current ?k) = Some (demo_proc 1 Zombie)"
    "power_off demo_env ?k = Panic ''kernel page table missing''"
    by (auto simp: sched_inv_def runnable_def proc_of_def bt_get_def demo_kernel_def demo_proc_def bt_wf_def
        trap_frame_new_def power_off_def init_heap_def demo_mm_def split: if_splits)
  then show ?thesis
    using schedule_idle [of ?k demo_env 0] by (auto simp: demo_proc_def)
qed

end
