(* ===== verification/Proc.thy ===== *)
theory Proc
  imports Scheduler
begin

text \<open>
  Processes, from \<^verbatim>\<open>src/src/proc.rs\<close>: creation, loading of an ELF image, the initial user stack,
  \<^verbatim>\<open>exec\<close>, \<^verbatim>\<open>fork\<close> and \<^verbatim>\<open>exit\<close>.  The ELF parser is a parameter; the loader copies from the
  aligned copy of the file on the kernel heap, which lies in physical memory.
\<close>

section \<open>New processes\<close>

definition process_new :: "mm_state \<Rightarrow> usize \<Rightarrow> (process option \<times> mm_state) res" where
  "process_new s pid =
     (case page_table_new s of
        (None, s) \<Rightarrow> Inr (None, s)
      | (Some pt, s) \<Rightarrow>
          (case alloc_pages s 2 of
             (None, s) \<Rightarrow> Inr (None, s)
           | (Some kstack, s) \<Rightarrow>
               res_bind (map_kernel_regions s pt) (\<lambda>s.
               Inr (Some \<lparr>p_pid = pid, p_ppid = 0, p_state = Ready, p_page_table = pt,
                      p_trap_frame = trap_frame_new, p_kernel_stack = kstack + 2 * 4096, p_brk = 0,
                      p_exit_code = 0, p_fd_table = fd_table_new\<rparr>, s))))"

section \<open>Loading an image\<close>

definition stack_top :: usize where
  "stack_top = 0x3ffffff000"

text \<open>The nine stack pages; the frame of the top one is remembered.\<close>

definition map_stack_page :: "page_table \<Rightarrow> usize \<times> mm_state \<Rightarrow> usize \<Rightarrow> (usize \<times> mm_state) flow res" where
  "map_stack_page pt st i =
     (case st of (first, s) \<Rightarrow>
        (case alloc_page s of
           (None, s) \<Rightarrow> Inr (Return (first, s))
         | (Some page, s) \<Rightarrow>
             res_bind (pt_map s pt (stack_top - i * 4096) page (PTE_U OR PTE_R OR PTE_W)) (\<lambda>s.
             Inr (Next (if i = 0 then page else first, s)))))"

definition map_stack :: "mm_state \<Rightarrow> page_table \<Rightarrow> (usize option \<times> mm_state) res" where
  "map_stack s pt =
     res_bind (flow_fold (map_stack_page pt) (0, s) (map of_nat [0..<9])) (\<lambda>r.
     case r of Next (first, s) \<Rightarrow> Inr (Some first, s) | Return (first, s) \<Rightarrow> Inr (None, s))"

text \<open>The copy of the file on the heap; only its address is used afterwards.\<close>

definition align_elf :: "mm_state \<Rightarrow> u8 list \<Rightarrow> usize option \<times> mm_state" where
  "align_elf s elf_data =
     (if 0x7ffffffffffffff0 < length elf_data then (None, s)
      else (case heap_grant (heap_alloc s) \<lparr>lay_size = of_nat (length elf_data), lay_align = 16\<rparr> of
              (None, h) \<Rightarrow> (None, s)
            | (Some ptr, h) \<Rightarrow>
                (Some ptr, s\<lparr>heap_alloc := h, ram := store_bytes (ram s) ptr elf_data\<rparr>)))"

definition sat_add :: "usize \<Rightarrow> usize \<Rightarrow> usize" where
  "sat_add a b = (if a + b < a then - 1 else a + b)"

definition phdr_flags :: "elf_phdr \<Rightarrow> pte_flags" where
  "phdr_flags ph =
     PTE_U OR (if ph_read ph then PTE_R else 0) OR (if ph_write ph then PTE_W else 0) OR
     (if ph_exec ph then PTE_X else 0)"

text \<open>The contents of one page of a segment, in the frame just taken for it.\<close>

definition fill_page :: "memory \<Rightarrow> usize \<Rightarrow> elf_phdr \<Rightarrow> usize \<Rightarrow> usize \<Rightarrow> memory" where
  "fill_page m data ph page paddr =
     (let seg_begin = ph_vaddr ph;
          seg_file_end = sat_add (ph_vaddr ph) (ph_filesz ph);
          seg_mem_end = sat_add (ph_vaddr ph) (ph_memsz ph);
          page_mem_end = min (page + 4096) seg_mem_end;
          zero_len = page_mem_end - page;
          m = write_bytes m paddr 0 zero_len;
          page_file_start = max page seg_begin;
          page_file_end = min (page + 4096) seg_file_end
      in if page_file_start < page_file_end then
           (let copy_offset = ph_offset ph + (page_file_start - seg_begin);
                dest_offset = page_file_start - page;
                copy_len = page_file_end - page_file_start
            in copy_nonoverlapping m (data + copy_offset) (paddr + dest_offset) copy_len)
         else m)"

text \<open>The page loop of one segment; the fuel bounds the number of pages.\<close>

fun load_pages :: "nat \<Rightarrow> mm_state \<Rightarrow> page_table \<Rightarrow> usize \<Rightarrow> elf_phdr \<Rightarrow> usize \<Rightarrow> usize \<Rightarrow> mm_state flow res" where
  "load_pages 0 s pt data ph last_page page = Inl Hang"
| "load_pages (Suc fuel) s pt data ph last_page page =
     (if page \<le> last_page then
        (case alloc_page s of
           (None, s) \<Rightarrow> Inr (Return s)
         | (Some paddr, s) \<Rightarrow>
             res_bind (pt_map s pt page paddr (phdr_flags ph)) (\<lambda>s.
             load_pages fuel (s\<lparr>ram := fill_page (ram s) data ph page paddr\<rparr>) pt data ph last_page (page + 4096)))
      else Inr (Next s))"

definition load_segment :: "nat \<Rightarrow> page_table \<Rightarrow> usize \<Rightarrow> usize \<times> mm_state \<Rightarrow> elf_phdr \<Rightarrow> (usize \<times> mm_state) flow res" where
  "load_segment fuel pt data st ph =
     (case st of (max_end, s) \<Rightarrow>
        (case ph_type_load ph of
           None \<Rightarrow> Inr (Return (max_end, s))
         | Some False \<Rightarrow> Inr (Next (max_end, s))
         | Some True \<Rightarrow>
             (let seg_mem_end = sat_add (ph_vaddr ph) (ph_memsz ph);
                  max_end = (if max_end < seg_mem_end then seg_mem_end else max_end);
                  first_page = ph_vaddr ph AND NOT (4096 - 1);
                  last_page = (seg_mem_end - 1) AND NOT (4096 - 1)
              in res_bind (load_pages fuel s pt data ph last_page first_page) (\<lambda>r.
                 case r of
                   Next s \<Rightarrow> Inr (Next (max_end, s))
                 | Return s \<Rightarrow> Inr (Return (max_end, s))))))"

text \<open>Every page takes a frame, so one more than the frames that are left is enough fuel.\<close>

definition load_elf_into :: "mm_state \<Rightarrow> page_table \<Rightarrow> usize \<Rightarrow> elf_file \<Rightarrow> (usize option \<times> mm_state) res" where
  "load_elf_into s pt data elf =
     res_bind (flow_fold (load_segment (frames_limit s - frames_used s + 1) pt data) (0, s) (elf_phdrs elf)) (\<lambda>r.
     case r of Next (max_end, s) \<Rightarrow> Inr (Some max_end, s) | Return (max_end, s) \<Rightarrow> Inr (None, s))"

definition load_elf :: "mm_state \<Rightarrow> process \<Rightarrow> usize \<Rightarrow> elf_file \<Rightarrow> (usize option \<times> mm_state) res" where
  "load_elf s p data elf = load_elf_into s (p_page_table p) data elf"

section \<open>The initial stack\<close>

definition aux_vector :: "usize \<Rightarrow> usize \<Rightarrow> usize \<Rightarrow> usize \<Rightarrow> usize \<Rightarrow> usize list" where
  "aux_vector stack at_phdr phent phnum entry =
     [6, 4096, 3, at_phdr, 4, phent, 5, phnum, 9, entry, 25, stack + 0x200, 17, 100, 0, 0]"

definition string_pointers :: "usize \<Rightarrow> nat \<Rightarrow> nat \<Rightarrow> usize list" where
  "string_pointers stack first n = map (\<lambda>i. stack + 0x400 + of_nat first * 0x100 + of_nat i * 0x100) [0..<n]"

fun store_strings :: "memory \<Rightarrow> usize \<Rightarrow> usize \<Rightarrow> u8 list list \<Rightarrow> usize \<times> memory" where
  "store_strings m base str_off [] = (str_off, m)"
| "store_strings m base str_off (s # ss) =
     (let m = store_bytes m (base + str_off) s;
          m = m(base + str_off + of_nat (length s) := 0)
      in store_strings m base (str_off + 0x100) ss)"

definition build_stack ::
  "memory \<Rightarrow> usize \<Rightarrow> usize \<Rightarrow> u8 list list \<Rightarrow> u8 list list \<Rightarrow> usize \<Rightarrow> usize \<Rightarrow> usize \<Rightarrow> usize \<Rightarrow> usize \<times> memory"
where
  "build_stack m base stack argv envp at_phdr phent phnum entry =
     (let m = store_words m base
            ([of_nat (length argv)] @
             string_pointers stack 0 (length argv) @ [0] @
             string_pointers stack (length argv) (length envp) @ [0] @
             aux_vector stack at_phdr phent phnum entry);
          (str_off, m) = store_strings m base 0x400 argv;
          (str_off, m) = store_strings m base str_off envp;
          m = write_bytes m (base + 0x200) 0xab 16
      in (stack, m))"

section \<open>Images of processes\<close>

record image_info =
  im_sp :: usize
  im_entry :: usize
  im_brk :: usize

definition base_vaddr :: "elf_file \<Rightarrow> usize" where
  "base_vaddr elf =
     (case map ph_vaddr (filter (\<lambda>ph. ph_type_load ph = Some True) (elf_phdrs elf)) of
        [] \<Rightarrow> 0
      | v # vs \<Rightarrow> fold min vs v)"

text \<open>
  The part \<^verbatim>\<open>init_user_proc\<close> and \<^verbatim>\<open>exec_process\<close> have in common: the stack, the parsed file, its
  segments and the arguments.
\<close>

definition load_image ::
  "('s, 'h) env \<Rightarrow> mm_state \<Rightarrow> page_table \<Rightarrow> u8 list \<Rightarrow> u8 list list \<Rightarrow> u8 list list \<Rightarrow>
   (image_info option \<times> mm_state) res"
where
  "load_image E s pt elf_data argv envp =
     res_bind (map_stack s pt) (\<lambda>(first, s).
     case first of None \<Rightarrow> Inr (None, s) | Some top_page_paddr \<Rightarrow>
     (case align_elf s elf_data of
        (None, s) \<Rightarrow> Inr (None, s)
      | (Some data, s) \<Rightarrow>
          (case elf_parse E elf_data of
             None \<Rightarrow> Inr (None, s)
           | Some elf \<Rightarrow>
               (let entry = elf_entry elf; at_phdr = base_vaddr elf + elf_ph_offset elf in
                res_bind (load_elf_into s pt data elf) (\<lambda>(r, s).
                case r of None \<Rightarrow> Inr (None, s) | Some max_end \<Rightarrow>
                  (let (sp, m) = build_stack (ram s) top_page_paddr stack_top argv envp at_phdr
                         (elf_ph_entry_size elf) (elf_ph_count elf) entry;
                       brk = (max_end + 4096 - 1) AND NOT (4096 - 1)
                   in Inr (Some \<lparr>im_sp = sp, im_entry = entry, im_brk = (if brk = 0 then 0x10000 else brk)\<rparr>,
                        s\<lparr>ram := m\<rparr>)))))))"

definition user_sstatus :: usize where
  "user_sstatus = push_bit 5 1 OR push_bit 13 1"

definition init_user_proc ::
  "('s, 'h) env \<Rightarrow> ('s, 'h) kernel \<Rightarrow> u8 list \<Rightarrow> u8 list list \<Rightarrow> (unit option \<times> ('s, 'h) kernel) res"
where
  "init_user_proc E k elf_data argv =
     res_bind (process_new (k_mm k) 1) (\<lambda>(proc, s).
     case proc of None \<Rightarrow> Inr (None, k\<lparr>k_mm := s\<rparr>) | Some proc \<Rightarrow>
     res_bind (load_image E s (p_page_table proc) elf_data argv [string_bytes ''PATH=/bin'']) (\<lambda>(info, s).
     case info of None \<Rightarrow> Inr (None, k\<lparr>k_mm := s\<rparr>) | Some im \<Rightarrow>
       (let tf = p_trap_frame proc;
            proc = proc\<lparr>p_brk := im_brk im,
              p_trap_frame := tf\<lparr>tf_sepc := im_entry im, tf_sstatus := user_sstatus,
                tf_regs := (tf_regs tf)[2 := im_sp im, 10 := of_nat (length argv)]\<rparr>,
              p_state := Running\<rparr>
        in Inr (Some (), k\<lparr>k_mm := s, k_current := 1, k_procs := bt_insert (k_procs k) 1 proc, k_next_pid := 2\<rparr>))))"

definition exec_process ::
  "('s, 'h) env \<Rightarrow> mm_state \<Rightarrow> process \<Rightarrow> u8 list \<Rightarrow> u8 list list \<Rightarrow> u8 list list \<Rightarrow>
   (usize option \<times> process \<times> mm_state) res"
where
  "exec_process E s proc elf_data argv envp =
     (case page_table_new s of
        (None, s) \<Rightarrow> Inr (None, proc, s)
      | (Some new_pt, s) \<Rightarrow>
          res_bind (map_kernel_regions s new_pt) (\<lambda>s.
          res_bind (load_image E s new_pt elf_data argv envp) (\<lambda>(info, s).
          case info of None \<Rightarrow> Inr (None, proc, s) | Some im \<Rightarrow>
            (let tf = p_trap_frame proc in
             Inr (Some (im_sp im),
               proc\<lparr>p_page_table := new_pt, p_brk := im_brk im,
                 p_trap_frame := tf\<lparr>tf_sepc := im_entry im, tf_sstatus := user_sstatus,
                   tf_regs := (tf_regs tf)[2 := im_sp im]\<rparr>\<rparr>, s)))))"

section \<open>Fork and exit\<close>

definition fork_process :: "('s, 'h) kernel \<Rightarrow> trap_frame \<Rightarrow> (usize option \<times> ('s, 'h) kernel) res" where
  "fork_process k parent_tf =
     (case bt_get (k_procs k) (k_current k) of
        None \<Rightarrow> Inr (None, k)
      | Some parent \<Rightarrow>
          res_bind (clone_user_space (k_mm k) (p_page_table parent)) (\<lambda>(pt, s).
          case pt of None \<Rightarrow> Inr (None, k\<lparr>k_mm := s\<rparr>) | Some child_pt \<Rightarrow>
          (case alloc_pages s 2 of
             (None, s) \<Rightarrow> Inr (None, k\<lparr>k_mm := s\<rparr>)
           | (Some child_kstack, s) \<Rightarrow>
               (let child_tf = parent_tf\<lparr>tf_regs := (tf_regs parent_tf)[10 := 0], tf_sepc := tf_sepc parent_tf + 4\<rparr>;
                    pid = k_next_pid k;
                    child = \<lparr>p_pid = pid, p_ppid = k_current k, p_state = Ready, p_page_table = child_pt,
                      p_trap_frame = child_tf, p_kernel_stack = child_kstack + 2 * 4096, p_brk = p_brk parent,
                      p_exit_code = 0, p_fd_table = p_fd_table parent\<rparr>
                in Inr (Some pid,
                     k\<lparr>k_mm := s, k_next_pid := pid + 1, k_procs := bt_insert (k_procs k) pid child\<rparr>)))))"

definition exit_process :: "('s, 'h) kernel \<Rightarrow> isize \<Rightarrow> ('s, 'h) kernel" where
  "exit_process k code =
     (let pid = k_current k;
          ppid = (case bt_get (k_procs k) pid of None \<Rightarrow> 0 | Some p \<Rightarrow> p_ppid p);
          procs = bt_modify (k_procs k) pid (\<lambda>p. p\<lparr>p_state := Zombie, p_exit_code := code\<rparr>);
          procs = bt_modify procs ppid (\<lambda>p. if p_state p = Waiting then p\<lparr>p_state := Ready\<rparr> else p)
      in k\<lparr>k_procs := procs\<rparr>)"

text \<open>The registers \<^verbatim>\<open>run_user\<close> loads before it enters user mode.\<close>

record user_start =
  us_sscratch :: usize
  us_satp :: usize
  us_sepc :: usize
  us_sstatus :: usize
  us_sp :: usize

definition run_user :: "('s, 'h) kernel \<Rightarrow> user_start res" where
  "run_user k =
     (case bt_get (k_procs k) (k_current k) of
        None \<Rightarrow> Inl (Panic ''no user process'')
      | Some p \<Rightarrow>
          Inr \<lparr>us_sscratch = p_kernel_stack p, us_satp = satp_of (p_page_table p),
            us_sepc = tf_sepc (p_trap_frame p), us_sstatus = tf_sstatus (p_trap_frame p),
            us_sp = tf_regs (p_trap_frame p) ! 2\<rparr>)"

end
