(* ===== verification/Elf_Load.thy ===== *)
theory Elf_Load
  imports Proc
begin

text \<open>
  Correctness of the ELF loader \<^verbatim>\<open>load_elf_into\<close>: it terminates for every program header table,
  and when it succeeds every byte of every loadable segment is where the header says, with the
  rights the header says.
\<close>

section \<open>What a segment means\<close>

definition seg_ok :: "elf_phdr \<Rightarrow> bool" where
  "seg_ok ph \<longleftrightarrow> 0 < ph_memsz ph \<and> ph_filesz ph \<le> ph_memsz ph \<and>
     unat (ph_vaddr ph) + unat (ph_memsz ph) + 4096 < 2 ^ 64"

definition first_page :: "elf_phdr \<Rightarrow> usize" where
  "first_page ph = ph_vaddr ph AND NOT (4096 - 1)"

definition last_page :: "elf_phdr \<Rightarrow> usize" where
  "last_page ph = (sat_add (ph_vaddr ph) (ph_memsz ph) - 1) AND NOT (4096 - 1)"

definition in_file :: "elf_phdr \<Rightarrow> usize \<Rightarrow> bool" where
  "in_file ph va \<longleftrightarrow> ph_vaddr ph \<le> va \<and> unat va < unat (ph_vaddr ph) + unat (ph_filesz ph)"

definition file_byte :: "usize \<Rightarrow> elf_phdr \<Rightarrow> usize \<Rightarrow> usize" where
  "file_byte data ph va = data + (ph_offset ph + (va - ph_vaddr ph))"

definition seg_byte :: "memory \<Rightarrow> usize \<Rightarrow> elf_phdr \<Rightarrow> usize \<Rightarrow> u8" where
  "seg_byte m data ph va = (if in_file ph va then m (file_byte data ph va) else 0)"

section \<open>One page\<close>

lemma copy_nonoverlapping_at:
  assumes "unat d + unat n \<le> 4096" "c < 4096"
  shows "copy_nonoverlapping m src (p + d) n (p + c) =
    (if d \<le> c \<and> unat c < unat d + unat n then m (src + (c - d)) else m (p + c))"
proof -
  have eq: "p + c - (p + d) = c - d" by simp
  have "c - d < n \<longleftrightarrow> d \<le> c \<and> unat c < unat d + unat n"
  proof (cases "d \<le> c")
    case True
    then show ?thesis
      by (auto simp: word_less_nat_alt unat_sub word_le_nat_alt)
  next
    case False
    then have lt: "unat c < unat d"
      by (simp add: word_le_nat_alt)
    then have "unat (c - d) + unat (d - c) = 2 ^ 64"
      by (intro unat_diff_sum) auto
    moreover have "unat (d - c) = unat d - unat c"
      using lt by (intro unat_sub) (simp add: word_le_nat_alt)
    ultimately show ?thesis
      using False lt assms by (simp add: word_less_nat_alt)
  qed
  then show ?thesis
    by (simp add: copy_nonoverlapping_def eq)
qed

lemma seg_ends:
  assumes "seg_ok ph"
  shows "unat (sat_add (ph_vaddr ph) (ph_memsz ph)) = unat (ph_vaddr ph) + unat (ph_memsz ph)"
    "unat (sat_add (ph_vaddr ph) (ph_filesz ph)) = unat (ph_vaddr ph) + unat (ph_filesz ph)"
proof -
  have m: "unat (ph_vaddr ph + ph_memsz ph) = unat (ph_vaddr ph) + unat (ph_memsz ph)"
    using assms by (intro unat_add_noov) (simp add: seg_ok_def)
  have f: "unat (ph_vaddr ph + ph_filesz ph) = unat (ph_vaddr ph) + unat (ph_filesz ph)"
    using assms by (intro unat_add_noov) (simp add: seg_ok_def word_le_nat_alt)
  show "unat (sat_add (ph_vaddr ph) (ph_memsz ph)) = unat (ph_vaddr ph) + unat (ph_memsz ph)"
    "unat (sat_add (ph_vaddr ph) (ph_filesz ph)) = unat (ph_vaddr ph) + unat (ph_filesz ph)"
    using m f by (simp_all add: sat_add_def word_less_nat_alt)
qed

definition page_in_seg :: "elf_phdr \<Rightarrow> usize \<Rightarrow> bool" where
  "page_in_seg ph page \<longleftrightarrow> page AND NOT (4096 - 1) = page \<and> first_page ph \<le> page \<and> page \<le> last_page ph"

lemma page_in_seg_bounds:
  assumes ok: "seg_ok ph" and page: "page_in_seg ph page"
  shows "unat page mod 4096 = 0" "unat page < unat (ph_vaddr ph) + unat (ph_memsz ph)"
    "unat (ph_vaddr ph) < unat page + 4096" "unat (page + 4096) = unat page + 4096"
proof -
  have "unat page = unat page div 4096 * 4096"
    using page unat_page_align_down [of page] by (simp add: page_in_seg_def page_align_down_def)
  then show mod: "unat page mod 4096 = 0"
    by (metis mod_mult_self2_is_0)
  have "sat_add (ph_vaddr ph) (ph_memsz ph) \<noteq> 0"
    using seg_ends(1) [OF ok] ok by (auto simp: seg_ok_def word_less_nat_alt)
  then have "unat (sat_add (ph_vaddr ph) (ph_memsz ph) - 1) = unat (ph_vaddr ph) + unat (ph_memsz ph) - 1"
    using seg_ends(1) [OF ok] by (simp add: unat_minus_one)
  moreover have "unat (last_page ph) \<le> unat (sat_add (ph_vaddr ph) (ph_memsz ph) - 1)"
    using unat_page_align_down [of "sat_add (ph_vaddr ph) (ph_memsz ph) - 1"]
    by (simp add: last_page_def page_align_down_def)
  ultimately show lt: "unat page < unat (ph_vaddr ph) + unat (ph_memsz ph)"
    using page ok unfolding page_in_seg_def word_le_nat_alt seg_ok_def word_less_nat_alt by auto
  have "unat (first_page ph) = unat (ph_vaddr ph) div 4096 * 4096"
    using unat_page_align_down [of "ph_vaddr ph"] by (simp add: first_page_def page_align_down_def)
  moreover have "unat (ph_vaddr ph) < 4096 + unat (ph_vaddr ph) div 4096 * 4096"
    by (rule dividend_less_div_times) simp
  ultimately show "unat (ph_vaddr ph) < unat page + 4096"
    using page by (simp add: page_in_seg_def word_le_nat_alt)
  show "unat (page + 4096) = unat page + 4096"
    using lt ok by (subst unat_add_noov) (simp_all add: seg_ok_def)
qed

text \<open>A write of at most a page from the start of a frame, or within it, stays in the frame.\<close>

lemma write_bytes_outside:
  assumes "frame_ok f" "unat n \<le> 4096" "drop_bit 12 a \<noteq> f"
  shows "write_bytes m (push_bit 12 f) b n a = m a"
proof -
  have "\<not> a - push_bit 12 f < 4096" using assms(3) in_page_iff [OF assms(1), of a] by simp
  then show ?thesis using assms(2) by (simp add: write_bytes_def word_less_nat_alt)
qed

lemma copy_nonoverlapping_outside:
  assumes f: "frame_ok f" and n: "unat d + unat n \<le> 4096" and a: "drop_bit 12 a \<noteq> f"
  shows "copy_nonoverlapping m src (push_bit 12 f + d) n a = m a"
proof -
  let ?p = "push_bit 12 f :: usize"
  have "\<not> a - (?p + d) < n"
  proof
    assume lt: "a - (?p + d) < n"
    have "a - ?p = (a - (?p + d)) + d" by simp
    moreover have "unat ((a - (?p + d)) + d) = unat (a - (?p + d)) + unat d"
      using lt n by (intro unat_add_noov) (simp add: word_less_nat_alt)
    ultimately have "unat (a - ?p) < 4096"
      using lt n by (simp add: word_less_nat_alt)
    then show False
      using a in_page_iff [OF f, of a] by (simp add: word_less_nat_alt)
  qed
  then show ?thesis by (simp add: copy_nonoverlapping_def)
qed

text \<open>The part of a page that the file covers is \<open>page_file_start ..< page_file_end\<close>.\<close>

lemma file_window:
  fixes ph page
  defines "st \<equiv> max page (ph_vaddr ph)" and "en \<equiv> min (page + 4096) (sat_add (ph_vaddr ph) (ph_filesz ph))"
  assumes ok: "seg_ok ph" and page: "page_in_seg ph page"
  shows "st < en \<Longrightarrow> unat (st - page) + unat (en - st) \<le> 4096"
    and "c < 4096 \<Longrightarrow> st < en \<Longrightarrow>
      (st - page \<le> c \<and> unat c < unat (st - page) + unat (en - st)) \<longleftrightarrow> in_file ph (page + c)"
    and "c < 4096 \<Longrightarrow> \<not> st < en \<Longrightarrow> \<not> in_file ph (page + c)"
proof -
  note b = page_in_seg_bounds [OF ok page]
  have st: "unat st = max (unat page) (unat (ph_vaddr ph))"
    and en: "unat en = min (unat page + 4096) (unat (ph_vaddr ph) + unat (ph_filesz ph))"
    using seg_ends(2) [OF ok] b(4) by (simp_all add: st_def en_def max_def min_def word_le_nat_alt)
  have dist: "unat (st - page) = unat st - unat page \<and> unat (en - st) = unat en - unat st" if "st < en"
    using that by (auto intro!: unat_sub simp: st_def)
  show "unat (st - page) + unat (en - st) \<le> 4096" if "st < en"
    using dist [OF that] st en that by (simp add: word_less_nat_alt)
  have uc: "unat (page + c) = unat page + unat c" if "c < 4096"
    using b(2) ok that by (intro unat_add_noov) (simp add: seg_ok_def word_less_nat_alt)
  have inf: "in_file ph (page + c) \<longleftrightarrow> st \<le> page + c \<and> unat (page + c) < unat en" if "c < 4096"
    using that by (auto simp: in_file_def st en word_le_nat_alt uc word_less_nat_alt)
  show "(st - page \<le> c \<and> unat c < unat (st - page) + unat (en - st)) \<longleftrightarrow> in_file ph (page + c)" if "c < 4096" "st < en"
    using st that by (auto simp: inf dist [OF that(2)] word_le_nat_alt uc word_less_nat_alt)
  show "\<not> in_file ph (page + c)" if "c < 4096" "\<not> st < en"
    using that by (auto simp: inf word_le_nat_alt word_less_nat_alt)
qed

lemma fill_page_at:
  assumes ok: "seg_ok ph" and page: "page_in_seg ph page" and f: "frame_ok f"
    and zero: "\<And>c. c < 4096 \<Longrightarrow> m (push_bit 12 f + c) = 0"
    and src: "\<And>va. in_file ph va \<Longrightarrow> drop_bit 12 (file_byte data ph va) \<noteq> f"
  shows "c < 4096 \<Longrightarrow> fill_page m data ph page (push_bit 12 f) (push_bit 12 f + c) = seg_byte m data ph (page + c)"
    and "drop_bit 12 a \<noteq> f \<Longrightarrow> fill_page m data ph page (push_bit 12 f) a = m a"
proof -
  note b = page_in_seg_bounds [OF ok page] and win = file_window [OF ok page]
  let ?p = "push_bit 12 f :: usize" and ?V = "ph_vaddr ph"
  define zl where "zl = min (page + 4096) (sat_add ?V (ph_memsz ph)) - page"
  define m1 where "m1 = write_bytes m ?p 0 zl"
  define st where "st = max page ?V"
  define en where "en = min (page + 4096) (sat_add ?V (ph_filesz ph))"
  note win = win [folded st_def en_def]
  have fill: "fill_page m data ph page ?p = (if st < en then
      copy_nonoverlapping m1 (data + (ph_offset ph + (st - ?V))) (?p + (st - page)) (en - st) else m1)"
    unfolding fill_page_def Let_def zl_def m1_def st_def en_def by simp
  have "unat zl \<le> 4096"
    using b(2,4) seg_ends(1) [OF ok] unfolding zl_def by (subst unat_sub) (auto simp: word_le_nat_alt min_def)
  note m1_out = write_bytes_outside [OF f this, where m = m and b = 0, folded m1_def]
  show "fill_page m data ph page ?p a = m a" if "drop_bit 12 a \<noteq> f"
    using that m1_out copy_nonoverlapping_outside [OF f win(1)] by (simp add: fill)
  assume c: "c < 4096"
  have m1_in: "m1 (?p + c) = 0"
    using zero [OF c] by (simp add: m1_def write_bytes_def)
  have addr: "data + (ph_offset ph + (st - ?V)) + (c - (st - page)) = file_byte data ph (page + c)"
    by (simp add: file_byte_def)
  have "fill_page m data ph page ?p (?p + c) =
      (if in_file ph (page + c) then m1 (file_byte data ph (page + c)) else m1 (?p + c))" if "st < en"
    unfolding fill if_P [OF that] copy_nonoverlapping_at [OF win(1) [OF that] c] win(2) [OF c that] addr ..
  then show "fill_page m data ph page ?p (?p + c) = seg_byte m data ph (page + c)"
    using m1_in m1_out [OF src] win(3) [OF c] by (cases "st < en") (simp_all add: fill seg_byte_def)
qed

section \<open>The address space under construction\<close>

text \<open>Writing outside the tables changes no translation.\<close>

lemma pt_stable_tables:
  assumes inv: "pt_inv s r" and alloc: "page_alloc t = page_alloc s"
    and mem: "\<And>a. drop_bit 12 a \<in> pt_tables (ram s) r \<Longrightarrow> ram t a = ram s a"
  shows "pt_inv t r" "pt_tables (ram t) r = pt_tables (ram s) r" "pt_view r t ks = pt_view r s ks"
proof -
  have wf: "tree_wf (ram s) r"
    using inv by (simp add: pt_inv_def)
  show tabs: "pt_tables (ram t) r = pt_tables (ram s) r"
    by (rule pt_tables_cong [OF wf mem])
  show "pt_inv t r"
    using inv tree_wf_cong [OF wf mem] alloc by (simp add: pt_inv_def tabs frames_ok_def allocated_def)
  show "pt_view r t ks = pt_view r s ks"
  proof (cases "ks \<in> range vpn_indices")
    case True
    then obtain a b c where "ks = [a, b, c]" "a < 512" "b < 512" "c < 512"
      by (auto simp: range_vpn_indices)
    with pt_lookup_cong [OF wf mem] show ?thesis
      by (simp add: pt_view_def)
  qed (simp add: pt_view_def)
qed

text \<open>A page of a segment is in place.\<close>

definition page_loaded :: "mm_state \<Rightarrow> usize \<Rightarrow> usize \<Rightarrow> mm_state \<Rightarrow> usize \<times> elf_phdr \<Rightarrow> bool" where
  "page_loaded s0 r data t x \<longleftrightarrow>
     (case x of (page, ph) \<Rightarrow>
        (\<exists>f. pt_view r t (vpn_indices (drop_bit 12 page)) = Some (pte_new f (phdr_flags ph OR PTE_V OR PTE_A OR PTE_D)) \<and>
           frame_ok f \<and> \<not> allocated s0 f \<and> allocated t f \<and> f \<notin> pt_tables (ram t) r \<and>
           (\<forall>c < 4096. ram t (push_bit 12 f + c) = seg_byte (ram s0) data ph (page + c))))"

definition loaded_frame :: "usize \<Rightarrow> mm_state \<Rightarrow> usize \<Rightarrow> usize" where
  "loaded_frame r t page = pte_ppn (the (pt_view r t (vpn_indices (drop_bit 12 page))))"

text \<open>Different pages are on different frames.\<close>

definition frames_apart :: "usize \<Rightarrow> mm_state \<Rightarrow> (usize \<times> elf_phdr) set \<Rightarrow> bool" where
  "frames_apart r t D \<longleftrightarrow>
     (\<forall>x \<in> D. \<forall>y \<in> D. loaded_frame r t (fst x) = loaded_frame r t (fst y) \<longrightarrow> same_vpage (fst x) (fst y))"

definition loaded :: "mm_state \<Rightarrow> usize \<Rightarrow> usize \<Rightarrow> (usize \<times> elf_phdr) set \<Rightarrow> mm_state \<Rightarrow> bool" where
  "loaded s0 r data D t \<longleftrightarrow>
     pt_inv t r \<and> frames_limit t = frames_limit s0 \<and> pg_current (page_alloc s0) \<le> pg_current (page_alloc t) \<and>
     heap_alloc t = heap_alloc s0 \<and> kernel_page_table t = kernel_page_table s0 \<and>
     (\<forall>a. allocated s0 (drop_bit 12 a) \<longrightarrow> drop_bit 12 a \<notin> pt_tables (ram s0) r \<longrightarrow> ram t a = ram s0 a) \<and>
     (\<forall>a. \<not> allocated t (drop_bit 12 a) \<longrightarrow> ram t a = ram s0 a) \<and>
     (\<forall>p \<in> pt_tables (ram t) r. p \<in> pt_tables (ram s0) r \<or> \<not> allocated s0 p) \<and>
     (\<forall>ks. ks \<notin> (\<lambda>x. vpn_indices (drop_bit 12 (fst x))) ` D \<longrightarrow> pt_view r t ks = pt_view r s0 ks) \<and>
     (\<forall>x \<in> D. pt_view r s0 (vpn_indices (drop_bit 12 (fst x))) = None) \<and>
     (\<forall>x \<in> D. page_loaded s0 r data t x) \<and> frames_apart r t D"

lemma loaded_start: "pt_inv s r \<Longrightarrow> loaded s r data {} s"
  by (simp add: loaded_def frames_apart_def)

text \<open>The file is where nothing is written: on a frame that was taken before, or on none yet.\<close>

definition source_kept :: "mm_state \<Rightarrow> usize \<Rightarrow> mm_state \<Rightarrow> usize \<Rightarrow> elf_phdr \<Rightarrow> bool" where
  "source_kept s0 r t data ph \<longleftrightarrow>
     (\<forall>va. in_file ph va \<longrightarrow>
        (let p = drop_bit 12 (file_byte data ph va) in
         allocated s0 p \<and> p \<notin> pt_tables (ram s0) r \<or> \<not> allocated t p))"

lemma page_loaded_mono:
  assumes "page_loaded s0 r data t x" and w: "pt_view r w (vpn_indices (drop_bit 12 (fst x))) =
      pt_view r t (vpn_indices (drop_bit 12 (fst x)))"
    and al: "\<And>p. allocated t p \<Longrightarrow> allocated w p"
    and tabs: "\<And>p. p \<in> pt_tables (ram w) r \<Longrightarrow> allocated t p \<Longrightarrow> p \<in> pt_tables (ram t) r"
    and mem: "\<And>a. allocated t (drop_bit 12 a) \<Longrightarrow> drop_bit 12 a \<notin> pt_tables (ram t) r \<Longrightarrow> ram w a = ram t a"
  shows "page_loaded s0 r data w x"
proof -
  obtain page ph where x: "x = (page, ph)" by fastforce
  obtain f where f: "pt_view r t (vpn_indices (drop_bit 12 page)) = Some (pte_new f (phdr_flags ph OR PTE_V OR PTE_A OR PTE_D))"
      "frame_ok f" "\<not> allocated s0 f" "allocated t f" "f \<notin> pt_tables (ram t) r"
      "\<forall>c < 4096. ram t (push_bit 12 f + c) = seg_byte (ram s0) data ph (page + c)"
    using assms(1) by (auto simp: page_loaded_def x)
  have "ram w (push_bit 12 f + c) = ram t (push_bit 12 f + c)" if "c < 4096" for c
  proof -
    have "drop_bit 12 (push_bit 12 f + c) = f"
      using that in_page_iff [OF f(2), of "push_bit 12 f + c"] by simp
    then show ?thesis
      using f(4,5) by (intro mem) simp_all
  qed
  moreover have "allocated w f" "f \<notin> pt_tables (ram w) r"
    using al tabs f(4,5) by blast+
  ultimately show ?thesis
    using f w by (auto simp: page_loaded_def x)
qed

lemma page_loaded_view: "page_loaded s0 r data t x \<Longrightarrow> pt_view r t (vpn_indices (drop_bit 12 (fst x))) \<noteq> None"
  by (auto simp: page_loaded_def split: prod.splits)

lemma phdr_flags_less: "phdr_flags ph < 256"
  by (auto simp: phdr_flags_def pte_flag_defs)

lemma phdr_entry:
  assumes "frame_ok f"
  shows "pte_ppn (pte_new f (phdr_flags ph OR PTE_V OR PTE_A OR PTE_D)) = f"
    "pte_flags_of (pte_new f (phdr_flags ph OR PTE_V OR PTE_A OR PTE_D)) = phdr_flags ph OR PTE_V OR PTE_A OR PTE_D"
proof -
  have fl: "phdr_flags ph OR PTE_V OR PTE_A OR PTE_D < 256"
    by (rule map_flags_less [OF phdr_flags_less])
  show "pte_ppn (pte_new f (phdr_flags ph OR PTE_V OR PTE_A OR PTE_D)) = f"
    by (rule pte_ppn_new [OF frame_ok_54 [OF assms] less_trans [OF fl]]) simp
  show "pte_flags_of (pte_new f (phdr_flags ph OR PTE_V OR PTE_A OR PTE_D)) = phdr_flags ph OR PTE_V OR PTE_A OR PTE_D"
    by (rule pte_flags_new [OF fl])
qed

lemma page_loaded_frame: "page_loaded s0 r data t x \<Longrightarrow> allocated t (loaded_frame r t (fst x))"
  by (auto simp: page_loaded_def loaded_frame_def phdr_entry)

lemma frames_apart_insert:
  assumes "frames_apart r t D" "\<not> allocated t f" "loaded_frame r w page = f"
    and "\<And>x. x \<in> D \<Longrightarrow> page_loaded s0 r data t x"
    and view: "\<And>x. x \<in> D \<Longrightarrow> pt_view r w (vpn_indices (drop_bit 12 (fst x))) = pt_view r t (vpn_indices (drop_bit 12 (fst x)))"
  shows "frames_apart r w (insert (page, ph) D)"
  unfolding frames_apart_def
proof (intro ballI impI)
  have kept: "loaded_frame r w (fst x) = loaded_frame r t (fst x)" "loaded_frame r t (fst x) \<noteq> f" if "x \<in> D" for x
    using assms(2) page_loaded_frame [OF assms(4) [OF that]] view [OF that] unfolding loaded_frame_def by auto
  fix x y
  assume xy: "x \<in> insert (page, ph) D" "y \<in> insert (page, ph) D" "loaded_frame r w (fst x) = loaded_frame r w (fst y)"
  then consider "x \<in> D" "y \<in> D" | "fst x = fst y"
    using kept assms(3) by (metis fst_conv insertE)
  then show "same_vpage (fst x) (fst y)"
  proof cases
    case 1
    then have "loaded_frame r t (fst x) = loaded_frame r t (fst y)"
      using xy(3) kept(1) by simp
    then show ?thesis
      using 1 assms(1) unfolding frames_apart_def by blast
  qed (simp add: same_vpage_def)
qed

text \<open>Adding one page: \<open>f\<close> is the frame, \<open>w\<close> the state after it has been taken, mapped and filled.\<close>

lemma loaded_insert:
  assumes inv: "loaded s0 r data D t" and f: "frame_ok f" "\<not> allocated t f"
    and new: "pt_view r t (vpn_indices (drop_bit 12 page)) = None"
    and w: "pt_inv w r" "frames_limit w = frames_limit t" "heap_alloc w = heap_alloc t"
      "kernel_page_table w = kernel_page_table t" "pg_current (page_alloc t) \<le> pg_current (page_alloc w)"
      "allocated w f" "f \<notin> pt_tables (ram w) r"
    and kept: "\<And>a. allocated t (drop_bit 12 a) \<Longrightarrow> drop_bit 12 a \<notin> pt_tables (ram t) r \<Longrightarrow> ram w a = ram t a"
    and beyond: "\<And>a. \<not> allocated w (drop_bit 12 a) \<Longrightarrow> ram w a = ram t a"
    and tabs: "\<And>p. p \<in> pt_tables (ram w) r \<Longrightarrow> p \<in> pt_tables (ram t) r \<or> \<not> allocated t p"
    and view: "\<And>ks. pt_view r w ks = (if ks = vpn_indices (drop_bit 12 page)
      then Some (pte_new f (phdr_flags ph OR PTE_V OR PTE_A OR PTE_D)) else pt_view r t ks)"
    and bytes: "\<And>c. c < 4096 \<Longrightarrow> ram w (push_bit 12 f + c) = seg_byte (ram s0) data ph (page + c)"
  shows "loaded s0 r data (insert (page, ph) D) w"
proof -
  note i = inv [unfolded loaded_def]
  have al: "allocated s0 p \<Longrightarrow> allocated t p" "allocated t p \<Longrightarrow> allocated w p" for p
    using i w(5) allocated_mono by blast+
  have old: "pt_view r t (vpn_indices (drop_bit 12 (fst x))) \<noteq> None" if "x \<in> D" for x
    using i that page_loaded_view by blast
  have "page_loaded s0 r data w (page, ph)"
    using view [of "vpn_indices (drop_bit 12 page)"] f w(6,7) bytes al by (auto simp: page_loaded_def)
  moreover have "frames_apart r w (insert (page, ph) D)"
  proof (rule frames_apart_insert [OF _ f(2)])
    show "frames_apart r t D" using i by (elim conjE)
    show "loaded_frame r w page = f" using f(1) by (simp add: loaded_frame_def view phdr_entry)
    show "page_loaded s0 r data t x" if "x \<in> D" for x using i that by blast
    show "pt_view r w (vpn_indices (drop_bit 12 (fst x))) = pt_view r t (vpn_indices (drop_bit 12 (fst x)))" if "x \<in> D" for x
      using old [OF that] view new by auto
  qed
  moreover have "pt_view r s0 (vpn_indices (drop_bit 12 (fst x))) = None" if "x \<in> insert (page, ph) D" for x
  proof (cases "x \<in> D")
    case False
    then have "pt_view r t (vpn_indices (drop_bit 12 (fst x))) = None" using that new by auto
    moreover from this have "vpn_indices (drop_bit 12 (fst x)) \<notin> (\<lambda>x. vpn_indices (drop_bit 12 (fst x))) ` D"
      using old by force
    ultimately show ?thesis using i by simp
  qed (use i in blast)
  moreover have "page_loaded s0 r data w x" if "x \<in> D" for x
  proof (rule page_loaded_mono)
    show x: "page_loaded s0 r data t x"
      using i that by blast
    show "pt_view r w (vpn_indices (drop_bit 12 (fst x))) = pt_view r t (vpn_indices (drop_bit 12 (fst x)))"
      using view new old [OF that] by auto
  qed (use al tabs kept in blast)+
  moreover have "ram w a = ram s0 a" if "allocated s0 (drop_bit 12 a)" "drop_bit 12 a \<notin> pt_tables (ram s0) r" for a
    using that i kept [of a] al by metis
  moreover have "ram w a = ram s0 a" if "\<not> allocated w (drop_bit 12 a)" for a
    using that i beyond al by metis
  moreover have "p \<in> pt_tables (ram s0) r \<or> \<not> allocated s0 p" if "p \<in> pt_tables (ram w) r" for p
    using that i tabs al by blast
  moreover have "pt_view r w ks = pt_view r s0 ks"
    if "ks \<notin> (\<lambda>x. vpn_indices (drop_bit 12 (fst x))) ` insert (page, ph) D" for ks
    using that i view by simp
  ultimately show ?thesis
    using i w(1-5) by (auto simp: loaded_def)
qed

lemma source_bytes:
  assumes inv: "loaded s0 r data D t" and src: "source_kept s0 r w data ph" and va: "in_file ph va"
    and kept: "\<And>a. allocated t (drop_bit 12 a) \<Longrightarrow> drop_bit 12 a \<notin> pt_tables (ram t) r \<Longrightarrow> ram w a = ram t a"
    and beyond: "\<And>a. \<not> allocated w (drop_bit 12 a) \<Longrightarrow> ram w a = ram t a"
    and cur: "pg_current (page_alloc t) \<le> pg_current (page_alloc w)"
  shows "ram w (file_byte data ph va) = ram s0 (file_byte data ph va)"
proof -
  note i = inv [unfolded loaded_def]
  let ?a = "file_byte data ph va"
  have al: "allocated s0 p \<Longrightarrow> allocated t p" "allocated t p \<Longrightarrow> allocated w p" for p
    using i cur allocated_mono by blast+
  consider "allocated s0 (drop_bit 12 ?a)" "drop_bit 12 ?a \<notin> pt_tables (ram s0) r" | "\<not> allocated w (drop_bit 12 ?a)"
    using src va by (auto simp: source_kept_def Let_def)
  then show ?thesis
  proof cases
    case 1
    then have "drop_bit 12 ?a \<notin> pt_tables (ram t) r"
      using i by blast
    then show ?thesis
      using 1 i kept al by metis
  next
    case 2
    then show ?thesis
      using i beyond al by metis
  qed
qed

text \<open>A page on a fresh frame: \<open>w\<close> is the state after the frame \<open>f\<close> has been taken and mapped.\<close>

definition fresh_mapped :: "mm_state \<Rightarrow> usize \<Rightarrow> usize \<Rightarrow> pte_flags \<Rightarrow> usize \<Rightarrow> mm_state \<Rightarrow> bool" where
  "fresh_mapped t r page fl f w \<longleftrightarrow>
     frame_ok f \<and> \<not> allocated t f \<and> allocated w f \<and> f \<notin> pt_tables (ram w) r \<and> pt_inv w r \<and>
     frames_limit w = frames_limit t \<and> heap_alloc w = heap_alloc t \<and> kernel_page_table w = kernel_page_table t \<and>
     pg_current (page_alloc t) \<le> pg_current (page_alloc w) \<and>
     pt_view r t (vpn_indices (drop_bit 12 page)) = None \<and>
     (\<forall>ks. pt_view r w ks = (if ks = vpn_indices (drop_bit 12 page)
        then Some (pte_new f (fl OR PTE_V OR PTE_A OR PTE_D)) else pt_view r t ks)) \<and>
     (\<forall>p \<in> pt_tables (ram w) r. p \<in> pt_tables (ram t) r \<or> \<not> allocated t p) \<and>
     (\<forall>a. allocated t (drop_bit 12 a) \<longrightarrow> drop_bit 12 a \<notin> pt_tables (ram t) r \<longrightarrow> ram w a = ram t a) \<and>
     (\<forall>a. \<not> allocated w (drop_bit 12 a) \<longrightarrow> ram w a = ram t a) \<and>
     (\<forall>c < 4096. ram w (push_bit 12 f + c) = 0)"

lemma fresh_page_mapped:
  assumes tinv: "pt_inv t (root_ppn pt)" and al: "alloc_page t = (Some paddr, u)" and run: "pt_map u pt page paddr fl = Inr w"
  obtains f where "paddr = push_bit 12 f" "fresh_mapped t (root_ppn pt) page fl f w"
proof -
  let ?r = "root_ppn pt"
  have fok: "frames_ok t" using tinv by (simp add: pt_inv_def)
  obtain f where f: "paddr = push_bit 12 f" "frame_ok f" "frames_ok u"
      "ram u = write_bytes (ram t) (push_bit 12 f) 0 4096"
      "\<And>p. allocated u p \<longleftrightarrow> allocated t p \<or> p = f" "\<not> allocated t f" "frames_limit u = frames_limit t"
      "heap_alloc u = heap_alloc t" "kernel_page_table u = kernel_page_table t"
      "pg_current (page_alloc t) \<le> pg_current (page_alloc u)"
    by (rule alloc_page_frame_cases [OF fok]) (use al in auto)
  have mem_u: "ram u a = (if drop_bit 12 a = f then 0 else ram t a)" for a
    using f(2,4) by (simp add: write_bytes_page)
  have "\<forall>a. allocated t (drop_bit 12 a) \<longrightarrow> ram u a = ram t a"
    using f(6) by (auto simp: mem_u)
  note st = pt_stable [OF tinv f(3,10) this]
  have f_u: "f \<notin> pt_tables (ram u) ?r"
    unfolding st(2) using tinv f(6) by (auto simp: pt_inv_def)
  let ?x = "(page, push_bit 12 f, fl) :: mapping_req"
  have mapped: "pt_map_entry pt u ?x = Inr w"
    using run by (simp add: pt_map_as_entry f(1))
  have w: "pt_view ?r u (req_key ?x) = None" "pt_evolves ?r u w"
    "\<And>k. pt_view ?r w k = (if k = req_key ?x then Some (req_entry ?x) else pt_view ?r u k)"
    using mapped by (cases rule: pt_map_entry_cases [OF st(1), of ?x]; simp)+
  have entry: "req_key ?x = vpn_indices (drop_bit 12 page)" "req_entry ?x = pte_new f (fl OR PTE_V OR PTE_A OR PTE_D)"
    using f(2) by (simp_all add: req_key_def req_entry_def drop_push_frame)
  have f_w: "allocated w f" "f \<notin> pt_tables (ram w) ?r"
    using pt_evolves_allocated [OF w(2)] pt_evolves_tables [OF w(2)] f_u f(5) by blast+
  have kept: "ram w a = ram u a" if "allocated u (drop_bit 12 a)" "drop_bit 12 a \<notin> pt_tables (ram t) ?r" for a
    using that st(2) by (intro pt_evolves_frame [OF w(2)]) simp_all
  have zero: "ram w (push_bit 12 f + c) = 0" if "c < 4096" for c
  proof -
    have "drop_bit 12 (push_bit 12 f + c) = f"
      using that in_page_iff [OF f(2), of "push_bit 12 f + c"] by simp
    then show ?thesis
      using kept [of "push_bit 12 f + c"] f(5) f_u st(2) by (simp add: mem_u)
  qed
  have old: "ram w a = ram t a" if "allocated t (drop_bit 12 a)" "drop_bit 12 a \<notin> pt_tables (ram t) ?r" for a
    using that f(5,6) kept [of a] by (auto simp: mem_u)
  have beyond: "ram w a = ram t a" if "\<not> allocated w (drop_bit 12 a)" for a
    using that f_w(1) pt_evolves_beyond [OF w(2) that] by (auto simp: mem_u)
  have tabs: "p \<in> pt_tables (ram t) ?r \<or> \<not> allocated t p" if "p \<in> pt_tables (ram w) ?r" for p
    using that pt_evolves_tables [OF w(2), of p] st(2) f(5) by auto
  have "pt_inv w ?r \<and> frames_limit w = frames_limit t \<and> heap_alloc w = heap_alloc t \<and>
      kernel_page_table w = kernel_page_table t \<and> pg_current (page_alloc t) \<le> pg_current (page_alloc w)"
    using w(2) f(7-10) by (auto simp: pt_evolves_def frames_limit_def intro: order.trans)
  then have "fresh_mapped t ?r page fl f w"
    using f(2,6) f_w zero w(1,3) entry st(3) old beyond tabs by (simp add: fresh_mapped_def)
  then show thesis by (rule that [OF f(1)])
qed

lemma load_page_step:
  assumes inv: "loaded s0 (root_ppn pt) data D t" and ok: "seg_ok ph" and page: "page_in_seg ph page"
    and al: "alloc_page t = (Some paddr, u)" and run: "pt_map u pt page paddr (phdr_flags ph) = Inr w"
    and v: "v = w\<lparr>ram := fill_page (ram w) data ph page paddr\<rparr>"
    and src: "source_kept s0 (root_ppn pt) v data ph"
  shows "loaded s0 (root_ppn pt) data (insert (page, ph) D) v"
proof -
  let ?r = "root_ppn pt"
  note i = inv [unfolded loaded_def]
  obtain f where p: "paddr = push_bit 12 f" and fw: "fresh_mapped t ?r page (phdr_flags ph) f w"
    using fresh_page_mapped [OF _ al run] i by blast
  note w = fw [unfolded fresh_mapped_def]
  have f: "frame_ok f" "\<not> allocated t f" using w by simp_all
  have vf: "allocated v p \<longleftrightarrow> allocated w p" "page_alloc v = page_alloc w" for p
    by (simp_all add: v allocated_def)
  have safe: "drop_bit 12 (file_byte data ph va) \<noteq> f" if "in_file ph va" for va
    using src that w vf(1) i allocated_mono [of s0 t] by (auto simp: source_kept_def Let_def)
  have fill: "fill_page (ram w) data ph page (push_bit 12 f) (push_bit 12 f + c) = seg_byte (ram w) data ph (page + c)"
    if "c < 4096" for c
    by (rule fill_page_at(1) [OF ok page f(1)]) (use w safe that in auto)
  have mem_v: "ram v a = ram w a" if "drop_bit 12 a \<noteq> f" for a
    unfolding v p using that by (simp, intro fill_page_at(2) [OF ok page f(1)]) (use w safe in auto)
  have winv: "pt_inv w ?r" and f_w: "f \<notin> pt_tables (ram w) ?r" "allocated w f" using w by simp_all
  have tab_mem: "ram v a = ram w a" if "drop_bit 12 a \<in> pt_tables (ram w) ?r" for a
    using that f_w by (intro mem_v) auto
  note stv = pt_stable_tables [OF winv vf(2) tab_mem]
  have cur: "pg_current (page_alloc t) \<le> pg_current (page_alloc v)"
    using w vf(2) by simp
  have kept: "ram v a = ram t a" if "allocated t (drop_bit 12 a)" "drop_bit 12 a \<notin> pt_tables (ram t) ?r" for a
    using that f(2) w mem_v [of a] by force
  have beyond: "ram v a = ram t a" if "\<not> allocated v (drop_bit 12 a)" for a
    using that w mem_v [of a] vf(1) by force
  have "ram w (file_byte data ph va) = ram s0 (file_byte data ph va)" if "in_file ph va" for va
    using source_bytes [OF inv src that kept beyond cur] mem_v [OF safe [OF that]] by simp
  then have "ram v (push_bit 12 f + c) = seg_byte (ram s0) data ph (page + c)" if "c < 4096" for c
    using fill [OF that] by (simp add: v p seg_byte_def)
  then show ?thesis
    using w stv cur kept beyond vf(1)
    by (intro loaded_insert [OF inv f]) (simp_all add: v frames_limit_def)
qed

text \<open>A page with no file part needs no filling: the fresh frame is all zeros.\<close>

lemma load_blank_step:
  assumes inv: "loaded s0 r data D t" and fw: "fresh_mapped t r page (phdr_flags ph) f w"
    and zero: "\<And>c. seg_byte (ram s0) data ph c = 0"
  shows "loaded s0 r data (insert (page, ph) D) w"
  using fw unfolding fresh_mapped_def by (intro loaded_insert [OF inv, where f = f]) (auto simp: zero)

section \<open>Frames are only ever taken\<close>

definition frames_grow :: "mm_state \<Rightarrow> mm_state \<Rightarrow> bool" where
  "frames_grow s t \<longleftrightarrow> frames_ok t \<and> pg_current (page_alloc s) \<le> pg_current (page_alloc t) \<and>
     frames_used s \<le> frames_used t \<and> frames_limit t = frames_limit s"

lemma frames_grow_refl: "frames_ok s \<Longrightarrow> frames_grow s s"
  by (simp add: frames_grow_def)

lemma frames_grow_trans: "frames_grow s t \<Longrightarrow> frames_grow t u \<Longrightarrow> frames_grow s u"
  by (auto simp: frames_grow_def)

lemma frames_grow_ram [simp]: "frames_grow s (t\<lparr>ram := m\<rparr>) = frames_grow s t"
  by (simp add: frames_grow_def frames_ok_def frames_used_def frames_limit_def)

lemma frames_ok_ram [simp]: "frames_ok (t\<lparr>ram := m\<rparr>) = frames_ok t"
  by (simp add: frames_ok_def)

lemma alloc_page_grow: "frames_ok s \<Longrightarrow> alloc_page s = (x, t) \<Longrightarrow> frames_grow s t"
  by (rule alloc_page_frame_cases [of s]) (auto simp: frames_grow_def)

lemma pte_descend_grow: "frames_ok s \<Longrightarrow> pte_descend s p i = (x, t) \<Longrightarrow> frames_grow s t"
  by (auto simp: pte_descend_def Let_def frames_grow_refl alloc_page_grow split: if_splits prod.splits option.splits)

lemma walk_create_grow: "frames_ok s \<Longrightarrow> walk_create s p is = (x, t) \<Longrightarrow> frames_grow s t"
proof (induction s p "is" rule: walk_create.induct)
  case (3 s p i j "is")
  obtain y u where d: "pte_descend s p i = (y, u)" by fastforce
  have u: "frames_grow s u"
    by (rule pte_descend_grow [OF 3(2) d])
  show ?case
  proof (cases y)
    case None
    then show ?thesis using 3(3) d u by simp
  next
    case (Some q)
    have "frames_grow u t"
      using 3(1) [OF d [symmetric] Some] 3(3) d Some u by (simp add: frames_grow_def)
    with u show ?thesis by (rule frames_grow_trans)
  qed
qed (auto intro: frames_grow_refl)

lemma pt_map_grow: "frames_ok s \<Longrightarrow> pt_map s pt va pa fl = Inr t \<Longrightarrow> frames_grow s t"
  by (auto simp: pt_map_def Let_def find_pte_create_def walk_create_grow split: prod.splits option.splits if_splits)

lemma pt_map_no_hang: "pt_map s pt va pa fl \<noteq> Inl Hang"
  by (auto simp: pt_map_def Let_def split: prod.splits option.splits)

fun flow_state :: "'s flow \<Rightarrow> 's" where
  "flow_state (Next s) = s"
| "flow_state (Return s) = s"

lemma load_pages_grow:
  "frames_ok s \<Longrightarrow> load_pages fuel s pt data ph lst page = Inr r \<Longrightarrow> frames_grow s (flow_state r)"
proof (induction fuel arbitrary: s page)
  case (Suc fuel)
  obtain x u where al: "alloc_page s = (x, u)" by fastforce
  note u = alloc_page_grow [OF Suc.prems(1) al]
  show ?case
  proof (cases "page \<le> lst \<and> x \<noteq> None")
    case True
    then obtain paddr where x: "x = Some paddr" by blast
    obtain w where w: "pt_map u pt page paddr (phdr_flags ph) = Inr w"
      using Suc.prems(2) True al x by (auto simp: res_bind_Inr_iff)
    have uw: "frames_grow u w"
      using u by (intro pt_map_grow [OF _ w]) (simp add: frames_grow_def)
    let ?v = "w\<lparr>ram := fill_page (ram w) data ph page paddr\<rparr>"
    have "frames_grow ?v (flow_state r)"
      using Suc.prems(2) True al x w uw by (intro Suc.IH) (auto simp: frames_grow_def)
    moreover have "frames_grow s ?v"
      using frames_grow_trans [OF u uw] by simp
    ultimately show ?thesis by (metis frames_grow_trans)
  next
    case False
    then show ?thesis
      using Suc.prems al u by (auto split: if_splits option.splits intro: frames_grow_refl)
  qed
qed simp

lemma load_pages_no_hang:
  assumes "frames_ok s" "frames_limit s - frames_used s < fuel"
  shows "load_pages fuel s pt data ph lst page \<noteq> Inl Hang"
  using assms
proof (induction fuel arbitrary: s page)
  case (Suc fuel)
  show ?case
  proof (cases rule: alloc_page_frame_cases [OF Suc.prems(1)])
    case 1
    then show ?thesis by simp
  next
    case (2 u f)
    show ?thesis
    proof (cases "pt_map u pt page (push_bit 12 f) (phdr_flags ph)")
      case (Inl e)
      then show ?thesis
        using 2(1) pt_map_no_hang [of u pt page "push_bit 12 f" "phdr_flags ph"] by auto
    next
      case (Inr w)
      then have "frames_grow u w"
        by (rule pt_map_grow [OF 2(4)])
      then have g: "frames_ok w" "frames_used u \<le> frames_used w" "frames_limit w = frames_limit u"
        by (simp_all add: frames_grow_def)
      have "frames_limit w - frames_used w < fuel"
        using Suc.prems(2) 2(8,9) frames_ok_used [OF 2(4)] g by linarith
      then have "load_pages fuel (w\<lparr>ram := fill_page (ram w) data ph page (push_bit 12 f)\<rparr>) pt data ph lst (page + 4096) \<noteq>
          Inl Hang"
        using g(1) by (intro Suc.IH) (simp_all add: frames_used_def frames_limit_def)
      then show ?thesis
        using 2(1) Inr by simp
    qed
  qed
qed simp

section \<open>The loops\<close>

lemma source_kept_mono:
  "source_kept s0 r t data ph \<Longrightarrow> pg_current (page_alloc v) \<le> pg_current (page_alloc t) \<Longrightarrow> source_kept s0 r v data ph"
  using allocated_mono [of v t] by (fastforce simp: source_kept_def Let_def)

lemma aligned_next:
  assumes "unat (p::usize) mod 4096 = 0" "unat q mod 4096 = 0" "unat p < unat q"
  shows "unat p + 4096 \<le> unat q"
proof -
  obtain a b where "unat p = 4096 * a" "unat q = 4096 * b"
    using assms(1,2) by (metis mod_0_imp_dvd dvdE)
  then show ?thesis using assms(3) by simp
qed

text \<open>The pages of a segment that are still to come.\<close>

definition pages_from :: "elf_phdr \<Rightarrow> usize \<Rightarrow> (usize \<times> elf_phdr) set" where
  "pages_from ph page = {(p, ph) | p. page_in_seg ph p \<and> page \<le> p}"

lemma page_in_seg_mod: "page_in_seg ph p \<Longrightarrow> unat p mod 4096 = 0"
  using unat_page_align_down [of p] by (simp add: page_in_seg_def page_align_down_def) (metis mod_mult_self2_is_0)

lemma pages_from_step:
  assumes "seg_ok ph" "page_in_seg ph page"
  shows "pages_from ph page = insert (page, ph) (pages_from ph (page + 4096))"
proof -
  note b = page_in_seg_bounds [OF assms]
  have "page + 4096 \<le> p" if "page_in_seg ph p" "page \<le> p" "p \<noteq> page" for p
    using aligned_next [OF b(1) page_in_seg_mod [OF that(1)]] that b(4)
    by (simp add: word_le_nat_alt word_unat_eq_iff)
  moreover have "page \<le> p" if "page + 4096 \<le> p" for p
    using that b(4) by (simp add: word_le_nat_alt)
  ultimately show ?thesis
    using assms(2) by (auto simp: pages_from_def)
qed

lemma page_in_seg_next:
  assumes "seg_ok ph" "page_in_seg ph page" "page + 4096 \<le> last_page ph"
  shows "page_in_seg ph (page + 4096)"
proof -
  note b = page_in_seg_bounds [OF assms(1,2)]
  have "first_page ph \<le> page + 4096"
    using assms(2) b(4) by (simp add: page_in_seg_def word_le_nat_alt)
  moreover have "page_align_down (page + 4096) = page + 4096"
  proof -
    obtain a where "unat page = 4096 * a"
      using b(1) by (metis mod_0_imp_dvd dvdE)
    then have "unat (page_align_down (page + 4096)) = unat (page + 4096)"
      unfolding unat_page_align_down b(4) by simp
    then show ?thesis by (rule word_eq_unatI)
  qed
  ultimately show ?thesis
    using assms(3) by (simp add: page_in_seg_def page_align_down_def)
qed

lemma load_pages_loaded:
  assumes "loaded s0 (root_ppn pt) data D t" "seg_ok ph"
    and "page \<le> last_page ph \<Longrightarrow> page_in_seg ph page"
    and "load_pages fuel t pt data ph (last_page ph) page = Inr (Next s')"
    and "source_kept s0 (root_ppn pt) s' data ph"
  shows "loaded s0 (root_ppn pt) data (D \<union> pages_from ph page) s'"
  using assms
proof (induction fuel arbitrary: t page D)
  case (Suc fuel)
  show ?case
  proof (cases "page \<le> last_page ph")
    case False
    then have "pages_from ph page = {}"
      by (auto simp: pages_from_def page_in_seg_def)
    then show ?thesis
      using Suc.prems False by simp
  next
    case True
    note page = Suc.prems(3) [OF True]
    have fok: "frames_ok t"
      using Suc.prems(1) by (simp add: loaded_def pt_inv_def)
    obtain paddr u where al: "alloc_page t = (Some paddr, u)"
      using Suc.prems(4) True by (auto split: prod.splits option.splits)
    obtain w where run: "pt_map u pt page paddr (phdr_flags ph) = Inr w"
      using Suc.prems(4) True al by (auto simp: res_bind_Inr_iff)
    define v where "v = w\<lparr>ram := fill_page (ram w) data ph page paddr\<rparr>"
    have rest: "load_pages fuel v pt data ph (last_page ph) (page + 4096) = Inr (Next s')"
      using Suc.prems(4) True al run by (simp add: v_def)
    have "frames_grow u w"
      using alloc_page_grow [OF fok al] by (intro pt_map_grow [OF _ run]) (simp add: frames_grow_def)
    then have "frames_ok v"
      by (simp add: v_def frames_grow_def)
    then have "pg_current (page_alloc v) \<le> pg_current (page_alloc s')"
      using load_pages_grow [OF _ rest] by (simp add: frames_grow_def)
    then have "source_kept s0 (root_ppn pt) v data ph"
      by (rule source_kept_mono [OF Suc.prems(5)])
    then have "loaded s0 (root_ppn pt) data (insert (page, ph) D) v"
      by (rule load_page_step [OF Suc.prems(1,2) page al run v_def])
    then have "loaded s0 (root_ppn pt) data (insert (page, ph) D \<union> pages_from ph (page + 4096)) s'"
      using page_in_seg_next [OF Suc.prems(2) page] by (rule Suc.IH [OF _ Suc.prems(2) _ rest Suc.prems(5)])
    then show ?thesis
      by (simp add: pages_from_step [OF Suc.prems(2) page])
  qed
qed simp

lemma align_down_parts:
  "drop_bit 12 (page_align_down va) = drop_bit 12 va" "page_align_down va + (va AND 4095) = va"
proof -
  have m: "(4096 - 1 :: usize) = mask 12" "(4095 :: usize) = mask 12"
    by (simp_all add: mask_eq_exp_minus_1)
  show "drop_bit 12 (page_align_down va) = drop_bit 12 va"
    unfolding page_align_down_def m by (intro bit_word_eqI) (auto simp: bit_simps dest: bit_imp_le_length)
  have "page_align_down va AND (va AND 4095) = 0"
    unfolding page_align_down_def m by (intro bit_word_eqI) (auto simp: bit_simps)
  then have "page_align_down va + (va AND 4095) = page_align_down va OR (va AND 4095)"
    by (simp add: disjunctive_add_eq_or)
  also have "\<dots> = va"
    unfolding page_align_down_def m by (intro bit_word_eqI) (auto simp: bit_simps)
  finally show "page_align_down va + (va AND 4095) = va" .
qed

definition is_load :: "elf_phdr \<Rightarrow> bool" where
  "is_load ph \<longleftrightarrow> ph_type_load ph = Some True"

definition seg_pages :: "elf_phdr list \<Rightarrow> (usize \<times> elf_phdr) set" where
  "seg_pages phs = {(p, ph). ph \<in> set phs \<and> is_load ph \<and> page_in_seg ph p}"

definition segs_end :: "elf_phdr list \<Rightarrow> usize \<Rightarrow> usize" where
  "segs_end phs e = foldl (\<lambda>e ph. max e (sat_add (ph_vaddr ph) (ph_memsz ph))) e (filter is_load phs)"

lemma load_segment_load:
  assumes "is_load ph"
  shows "load_segment fuel pt data (e, t) ph =
    res_bind (load_pages fuel t pt data ph (last_page ph) (first_page ph)) (\<lambda>r.
      case r of Next s \<Rightarrow> Inr (Next (max e (sat_add (ph_vaddr ph) (ph_memsz ph)), s))
      | Return s \<Rightarrow> Inr (Return (max e (sat_add (ph_vaddr ph) (ph_memsz ph)), s)))"
proof -
  have "(if e < x then x else e) = max e x" for x :: usize
    by (auto simp: max_def not_less)
  then show ?thesis
    using assms unfolding load_segment_def is_load_def first_page_def last_page_def Let_def by simp
qed

lemma load_segment_skip:
  assumes "\<not> is_load ph"
  shows "load_segment fuel pt data (e, t) ph = Inr (if ph_type_load ph = None then Return (e, t) else Next (e, t))"
  using assms by (auto simp: load_segment_def is_load_def split: option.splits bool.splits)

lemma load_segment_next:
  assumes "load_segment fuel pt data (e, t) ph = Inr (Next (e', s'))"
  shows "(\<not> is_load ph \<and> e' = e \<and> s' = t) \<or>
    (is_load ph \<and> e' = max e (sat_add (ph_vaddr ph) (ph_memsz ph)) \<and>
     load_pages fuel t pt data ph (last_page ph) (first_page ph) = Inr (Next s'))"
proof (cases "is_load ph")
  case True
  then show ?thesis
    using assms by (auto simp: load_segment_load res_bind_def split: sum.split_asm flow.split_asm)
qed (use assms in \<open>simp add: load_segment_skip split: if_splits\<close>)

lemma load_segment_grow:
  assumes "frames_ok t" "load_segment fuel pt data (e, t) ph = Inr r"
  shows "frames_grow t (snd (flow_state r))"
proof (cases "is_load ph")
  case True
  then obtain q where "load_pages fuel t pt data ph (last_page ph) (first_page ph) = Inr q"
      "snd (flow_state r) = flow_state q"
    using assms(2) by (auto simp: load_segment_load res_bind_def split: sum.split_asm flow.split_asm)
  then show ?thesis
    using load_pages_grow [OF assms(1)] by simp
next
  case False
  then show ?thesis
    using assms by (auto simp: load_segment_skip frames_grow_refl split: if_splits)
qed

lemma load_segments_grow:
  "frames_ok t \<Longrightarrow> flow_fold (load_segment fuel pt data) (e, t) phs = Inr r \<Longrightarrow> frames_grow t (snd (flow_state r))"
proof (induction phs arbitrary: e t)
  case (Cons ph phs)
  obtain q where q: "load_segment fuel pt data (e, t) ph = Inr q"
    using Cons.prems(2) by (auto split: sum.splits)
  note g = load_segment_grow [OF Cons.prems(1) q]
  show ?case
  proof (cases q)
    case (Next st)
    obtain e' t' where st: "st = (e', t')" by fastforce
    have "frames_grow t' (snd (flow_state r))"
      using Cons.prems(2) q Next st g by (intro Cons.IH [of t' e']) (simp_all add: frames_grow_def)
    then show ?thesis
      using g Next st by (auto intro: frames_grow_trans)
  next
    case (Return st)
    then show ?thesis
      using Cons.prems(2) q g by simp
  qed
qed (auto simp: frames_grow_refl)

lemma load_segments_no_hang:
  assumes "frames_ok t" "frames_limit t - frames_used t < fuel"
  shows "flow_fold (load_segment fuel pt data) (e, t) phs \<noteq> Inl Hang"
  using assms
proof (induction phs arbitrary: e t)
  case (Cons ph phs)
  have one: "load_segment fuel pt data (e, t) ph \<noteq> Inl Hang"
    using load_pages_no_hang [OF Cons.prems, of pt data ph "last_page ph" "first_page ph"]
    by (cases "is_load ph") (auto simp: load_segment_load load_segment_skip res_bind_def split: sum.splits flow.splits)
  show ?case
  proof (cases "load_segment fuel pt data (e, t) ph")
    case (Inl x)
    then show ?thesis using one by simp
  next
    case (Inr q)
    note g = load_segment_grow [OF Cons.prems(1) Inr]
    show ?thesis
    proof (cases q)
      case (Next st)
      obtain e' t' where st: "st = (e', t')" by fastforce
      have "frames_ok t'" "frames_limit t' - frames_used t' < fuel"
        using g Next st Cons.prems(2) by (auto simp: frames_grow_def)
      then show ?thesis
        using Cons.IH [of t' e'] Inr Next st by simp
    qed (use Inr in simp)
  qed
qed simp

lemma page_in_first:
  assumes "seg_ok ph" "first_page ph \<le> last_page ph"
  shows "page_in_seg ph (first_page ph)"
proof -
  have "page_align_down (page_align_down (ph_vaddr ph)) = page_align_down (ph_vaddr ph)"
    by (intro word_eq_unatI) (simp add: unat_page_align_down)
  then show ?thesis
    using assms(2) by (simp add: page_in_seg_def first_page_def page_align_down_def)
qed

lemma load_segments_loaded:
  assumes "loaded s0 (root_ppn pt) data D t"
    and "flow_fold (load_segment fuel pt data) (e, t) phs = Inr (Next (e', s'))"
    and "\<forall>ph \<in> set phs. is_load ph \<longrightarrow> seg_ok ph \<and> source_kept s0 (root_ppn pt) s' data ph"
  shows "loaded s0 (root_ppn pt) data (D \<union> seg_pages phs) s' \<and> e' = segs_end phs e"
  using assms
proof (induction phs arbitrary: D e t)
  case Nil
  then show ?case by (simp add: seg_pages_def segs_end_def)
next
  case (Cons ph phs)
  obtain e1 t1 where one: "load_segment fuel pt data (e, t) ph = Inr (Next (e1, t1))"
      and rest: "flow_fold (load_segment fuel pt data) (e1, t1) phs = Inr (Next (e', s'))"
    using Cons.prems(2) by (auto split: sum.splits flow.splits)
  have fok: "frames_ok t"
    using Cons.prems(1) by (simp add: loaded_def pt_inv_def)
  have fok1: "frames_ok t1"
    using load_segment_grow [OF fok one] by (simp add: frames_grow_def)
  have cur: "pg_current (page_alloc t1) \<le> pg_current (page_alloc s')"
    using load_segments_grow [OF fok1 rest] by (simp add: frames_grow_def)
  have tl: "\<forall>ph \<in> set phs. is_load ph \<longrightarrow> seg_ok ph \<and> source_kept s0 (root_ppn pt) s' data ph"
    using Cons.prems(3) by simp
  show ?case
  proof (cases "is_load ph")
    case False
    then have "e1 = e" "t1 = t" "seg_pages (ph # phs) = seg_pages phs" "segs_end (ph # phs) e = segs_end phs e"
      using load_segment_next [OF one] by (auto simp: seg_pages_def segs_end_def)
    then show ?thesis
      using Cons.IH [OF Cons.prems(1) _ tl] rest by simp
  next
    case True
    then have ok: "seg_ok ph" and src: "source_kept s0 (root_ppn pt) s' data ph"
      using Cons.prems(3) by simp_all
    have l: "e1 = max e (sat_add (ph_vaddr ph) (ph_memsz ph))"
        "load_pages fuel t pt data ph (last_page ph) (first_page ph) = Inr (Next t1)"
      using load_segment_next [OF one] True by simp_all
    have "loaded s0 (root_ppn pt) data (D \<union> pages_from ph (first_page ph)) t1"
      by (rule load_pages_loaded [OF Cons.prems(1) ok page_in_first [OF ok] l(2) source_kept_mono [OF src cur]])
    then have "loaded s0 (root_ppn pt) data (D \<union> pages_from ph (first_page ph) \<union> seg_pages phs) s' \<and>
        e' = segs_end phs e1"
      by (rule Cons.IH [OF _ rest tl])
    moreover have "pages_from ph (first_page ph) \<union> seg_pages phs = seg_pages (ph # phs)"
      using True by (auto simp: pages_from_def seg_pages_def page_in_seg_def)
    moreover have "segs_end phs e1 = segs_end (ph # phs) e"
      using True by (simp add: segs_end_def l(1))
    ultimately show ?thesis
      by (simp add: Un_assoc)
  qed
qed

text \<open>What a page in place means for the addresses on it.\<close>

lemma page_loaded_byte:
  assumes "page_loaded s0 (root_ppn pt) data t (page_align_down va, ph)"
  shows "\<exists>pa. pt_translate (ram t) pt va = Some pa \<and> \<not> allocated s0 (drop_bit 12 pa) \<and>
    ram t pa = seg_byte (ram s0) data ph va \<and> va_flags t pt va = phdr_flags ph OR PTE_V OR PTE_A OR PTE_D \<and>
    drop_bit 12 pa = loaded_frame (root_ppn pt) t va"
proof -
  obtain f where f: "pt_view (root_ppn pt) t (vpn_indices (drop_bit 12 (page_align_down va))) =
        Some (pte_new f (phdr_flags ph OR PTE_V OR PTE_A OR PTE_D))"
      "frame_ok f" "\<not> allocated s0 f" "\<forall>c < 4096. ram t (push_bit 12 f + c) = seg_byte (ram s0) data ph (page_align_down va + c)"
    using assms by (auto simp: page_loaded_def)
  have va: "drop_bit 12 (page_align_down va) = drop_bit 12 va" "page_align_down va + (va AND 4095) = va"
    by (simp_all add: align_down_parts)
  then have byte: "ram t (push_bit 12 f + (va AND 4095)) = seg_byte (ram s0) data ph va"
    using f(4) [rule_format, OF page_offset [of va]] by simp
  show ?thesis
    using va f(1-3) phdr_entry [OF f(2)] byte
    by (intro exI [of _ "push_bit 12 f + (va AND 4095)"])
      (simp add: pt_translate_view va_flags_def loaded_frame_def drop_page_or drop_push_frame flip: page_or_offset)
qed

lemma loaded_other:
  assumes "loaded s0 (root_ppn pt) data D t" "\<forall>(p, ph) \<in> D. \<not> same_vpage va p"
  shows "pt_translate (ram t) pt va = pt_translate (ram s0) pt va"
proof -
  have "vpn_indices (drop_bit 12 va) \<notin> (\<lambda>x. vpn_indices (drop_bit 12 (fst x))) ` D"
    using assms(2) by (auto simp: same_vpage_def)
  then show ?thesis
    using assms(1) by (simp add: pt_translate_view loaded_def)
qed

lemma loaded_free: "loaded s0 r data D t \<Longrightarrow> x \<in> D \<Longrightarrow> pt_view r s0 (vpn_indices (drop_bit 12 (fst x))) = None"
  unfolding loaded_def by blast

lemma loaded_page: "loaded s0 r data D t \<Longrightarrow> x \<in> D \<Longrightarrow> page_loaded s0 r data t x"
  unfolding loaded_def by blast

lemma loaded_apart:
  assumes l: "loaded s0 (root_ppn pt) data D t" and x: "(p, ph) \<in> D" and y: "(p', ph') \<in> D"
    and "page_align_down p = p" "page_align_down p' = p'"
    and "pt_translate (ram t) pt p = pt_translate (ram t) pt p'"
  shows "same_vpage p p'"
proof -
  have "loaded_frame (root_ppn pt) t p = loaded_frame (root_ppn pt) t p'"
    using page_loaded_byte [of s0 pt data t p ph] page_loaded_byte [of s0 pt data t p' ph'] loaded_page [OF l x] loaded_page [OF l y]
      assms(4-6) by auto
  moreover have "frames_apart (root_ppn pt) t D" using l unfolding loaded_def by (elim conjE)
  ultimately show ?thesis using x y unfolding frames_apart_def by (metis fst_conv)
qed

lemma load_elf_loaded:
  assumes "pt_inv s (root_ppn pt)" "load_elf_into s pt data elf = Inr (Some e, s')"
    and "\<forall>ph \<in> set (elf_phdrs elf). is_load ph \<longrightarrow> seg_ok ph \<and> source_kept s (root_ppn pt) s' data ph"
  shows "loaded s (root_ppn pt) data (seg_pages (elf_phdrs elf)) s'" "e = segs_end (elf_phdrs elf) 0"
proof -
  obtain fuel where run: "flow_fold (load_segment fuel pt data) (0, s) (elf_phdrs elf) = Inr (Next (e, s'))"
    using assms(2) by (auto simp: load_elf_into_def res_bind_def split: sum.split_asm flow.split_asm prod.split_asm)
  show "loaded s (root_ppn pt) data (seg_pages (elf_phdrs elf)) s'" "e = segs_end (elf_phdrs elf) 0"
    using load_segments_loaded [OF loaded_start [OF assms(1)] run assms(3)] by simp_all
qed

section \<open>Properties\<close>

text \<open>
  C5. The loader puts every loadable segment where its header says.  If \<^verbatim>\<open>load_elf_into\<close> succeeds
  on headers whose segments are not empty and do not wrap around, and the file itself was not
  overwritten meanwhile, then each address of each page of each segment, none of which was mapped
  before, translates to a byte of a fresh frame, with the rights of the segment, that holds the byte of the file, or zero beyond
  the file part; different pages are on different frames; addresses on no segment page translate
  as before, and the returned end is the greatest segment end.
\<close>

theorem load_elf_correct:
  assumes "pt_inv s (root_ppn pt)" "load_elf_into s pt data elf = Inr (Some e, s')"
    and "\<forall>ph \<in> set (elf_phdrs elf). is_load ph \<longrightarrow> seg_ok ph \<and> source_kept s (root_ppn pt) s' data ph"
  shows "(\<forall>ph \<in> set (elf_phdrs elf). \<forall>va. is_load ph \<longrightarrow> page_in_seg ph (page_align_down va) \<longrightarrow>
      pt_translate (ram s) pt va = None \<and> (\<exists>pa. pt_translate (ram s') pt va = Some pa \<and> \<not> allocated s (drop_bit 12 pa) \<and>
        ram s' pa = seg_byte (ram s) data ph va \<and>
        va_flags s' pt va = phdr_flags ph OR PTE_V OR PTE_A OR PTE_D)) \<and>
    (\<forall>(p, ph) \<in> seg_pages (elf_phdrs elf). \<forall>(p', ph') \<in> seg_pages (elf_phdrs elf).
       pt_translate (ram s') pt p = pt_translate (ram s') pt p' \<longrightarrow> same_vpage p p') \<and>
    (\<forall>va. (\<forall>(p, ph) \<in> seg_pages (elf_phdrs elf). \<not> same_vpage va p) \<longrightarrow>
       pt_translate (ram s') pt va = pt_translate (ram s) pt va) \<and>
    e = segs_end (elf_phdrs elf) 0"
proof -
  let ?r = "root_ppn pt" and ?phs = "elf_phdrs elf"
  note l = load_elf_loaded(1) [OF assms] and e = load_elf_loaded(2) [OF assms]
  have seg: "(page_align_down va, ph) \<in> seg_pages ?phs"
    if "ph \<in> set ?phs" "is_load ph" "page_in_seg ph (page_align_down va)" for ph va
    using that by (simp add: seg_pages_def)
  note byte = page_loaded_byte [OF loaded_page [OF l seg]]
  have free: "pt_translate (ram s) pt va = None"
    if "ph \<in> set ?phs" "is_load ph" "page_in_seg ph (page_align_down va)" for ph va
    using loaded_free [OF l seg [OF that]] by (simp add: pt_translate_view align_down_parts)
  have al: "page_align_down p = p" if "(p, ph) \<in> seg_pages ?phs" for p ph
    using that by (auto simp: seg_pages_def page_in_seg_def page_align_down_def)
  show ?thesis
    using free byte loaded_other [OF l] loaded_apart [OF l _ _ al al] e
    by (intro conjI ballI allI impI) (blast | fast)+
qed

definition demo_phdr :: elf_phdr where
  "demo_phdr = \<lparr>ph_type_load = Some True, ph_vaddr = 0x400010, ph_memsz = 32, ph_filesz = 16, ph_offset = 0,
     ph_read = True, ph_write = False, ph_exec = True\<rparr>"

definition demo_elf :: elf_file where
  "demo_elf = \<lparr>elf_entry = 0x400010, elf_ph_offset = 64, elf_ph_entry_size = 56, elf_ph_count = 1,
     elf_phdrs = [demo_phdr]\<rparr>"

lemma demo_phdr_pages:
  "first_page demo_phdr = 0x400000" "last_page demo_phdr = 0x400000" "seg_ok demo_phdr" "is_load demo_phdr"
  by (simp_all add: first_page_def last_page_def sat_add_def demo_phdr_def seg_ok_def is_load_def)

lemma demo_load:
  assumes "pt_inv s (root_ppn pt)" "pt_view (root_ppn pt) s (vpn_indices 0x400) = None" "frames_used s + 3 \<le> frames_limit s"
  obtains s' where "load_elf_into s pt data demo_elf = Inr (Some 0x400030, s')" "frames_used s' \<le> frames_used s + 3"
proof -
  have fok: "frames_ok s" using assms(1) by (simp add: pt_inv_def)
  obtain u f where u: "alloc_page s = (Some (push_bit 12 f), u)" "frames_ok u"
      "ram u = write_bytes (ram s) (push_bit 12 f) 0 4096" "frame_ok f" "\<not> allocated s f"
      "frames_used u = frames_used s + 1" "frames_limit u = frames_limit s"
      "pg_current (page_alloc s) \<le> pg_current (page_alloc u)"
    by (rule alloc_page_frame_cases [OF fok]) (use assms(3) in auto)
  have "\<forall>a. allocated s (drop_bit 12 a) \<longrightarrow> ram u a = ram s a"
    using u(3-5) by (auto simp: write_bytes_page)
  note st = pt_stable [OF assms(1) u(2,8) this]
  let ?x = "(0x400000, push_bit 12 f, phdr_flags demo_phdr) :: mapping_req"
  obtain w where entry: "pt_map_entry pt u ?x = Inr w"
    using demo_map_entry [OF st(1), of ?x] u(6,7) assms(2,3) by (auto simp: st req_key_def)
  then have w: "pt_map u pt 0x400000 (push_bit 12 f) (phdr_flags demo_phdr) = Inr w"
    by (simp add: pt_map_as_entry)
  have used: "frames_used w \<le> frames_used s + 3"
    using ptm.mp_used [OF st(1) entry] card_req_tables [of ?x "table_paths (root_ppn pt) u"] u(6) by simp
  then have used': "frames_used (w\<lparr>ram := m\<rparr>) \<le> frames_used s + 3" for m by (simp add: frames_used_def)
  obtain n where n: "frames_limit s - frames_used s = Suc n"
    by (rule that [of "frames_limit s - frames_used s - 1"]) (use assms(3) in linarith)
  have e: "max 0 (sat_add (ph_vaddr demo_phdr) (ph_memsz demo_phdr)) = 0x400030"
    by (simp add: sat_add_def demo_phdr_def)
  show thesis
    using u(1) w e used' by (intro that [of "w\<lparr>ram := fill_page (ram w) data demo_phdr 0x400000 (push_bit 12 f)\<rparr>"])
      (simp_all add: load_elf_into_def n res_bind_def load_segment_load demo_phdr_pages demo_elf_def)
qed

theorem load_elf_correct_witness:
  "\<exists>pt s s' pa. page_table_new demo_mm = (Some pt, s) \<and>
     load_elf_into s pt 0x80300000 demo_elf = Inr (Some 0x400030, s') \<and>
     pt_translate (ram s') pt 0x400014 = Some pa \<and> ram s' pa = ram s 0x80300004 \<and>
     va_flags s' pt 0x400014 = PTE_R OR PTE_X OR PTE_U OR PTE_V OR PTE_A OR PTE_D"
proof -
  have ok: "frames_ok demo_mm" by (simp add: frames_ok_def demo_mm_def)
  have fr: "frames_used demo_mm = 0x80400" "frames_limit demo_mm = 0x88000" "allocated demo_mm 0x80300"
    by (simp_all add: frames_used_def frames_limit_def demo_mm_def allocated_def)
  obtain pt s where new: "page_table_new demo_mm = (Some pt, s)" "pt_inv s (root_ppn pt)"
      "\<not> allocated demo_mm (root_ppn pt)" "pt_tables (ram s) (root_ppn pt) = {root_ppn pt}"
      "\<And>k. pt_view (root_ppn pt) s k = None" "frames_used s = frames_used demo_mm + 1"
      "frames_limit s = frames_limit demo_mm"
    by (rule page_table_new_cases [OF ok]) (use fr in auto)
  then obtain s' where run: "load_elf_into s pt 0x80300000 demo_elf = Inr (Some 0x400030, s')"
    by (rule_tac demo_load) (use fr in auto)
  have "drop_bit 12 (file_byte 0x80300000 demo_phdr va) = 0x80300" if "in_file demo_phdr va" for va
  proof -
    have "0x400010 \<le> va" "unat va < 0x400020"
      using that by (simp_all add: in_file_def demo_phdr_def)
    then have "unat (va - 0x400010) < 16"
      by (simp add: unat_sub word_le_nat_alt)
    then have "unat (0x80300000 + (va - 0x400010)) div 4096 = 0x80300"
      by (subst unat_add_noov) auto
    then show ?thesis
      by (intro word_eq_unatI) (simp add: file_byte_def demo_phdr_def unat_drop_bit_eq drop_bit_eq_div unat_div)
  qed
  moreover have "allocated s 0x80300" "0x80300 \<notin> pt_tables (ram s) (root_ppn pt)"
    using new fr by (auto simp: allocated_def frames_used_def)
  ultimately have src: "\<forall>ph \<in> set (elf_phdrs demo_elf). is_load ph \<longrightarrow>
      seg_ok ph \<and> source_kept s (root_ppn pt) s' 0x80300000 ph"
    by (simp add: demo_elf_def demo_phdr_pages source_kept_def)
  have "page_in_seg demo_phdr (page_align_down 0x400014)"
    by (simp add: page_in_seg_def demo_phdr_pages page_align_down_def)
  then obtain pa where "pt_translate (ram s') pt 0x400014 = Some pa"
      "ram s' pa = seg_byte (ram s) 0x80300000 demo_phdr 0x400014"
      "va_flags s' pt 0x400014 = phdr_flags demo_phdr OR PTE_V OR PTE_A OR PTE_D"
    using load_elf_correct [OF new(2) run src] demo_phdr_pages(4) by (auto simp: demo_elf_def)
  moreover have "seg_byte (ram s) 0x80300000 demo_phdr 0x400014 = ram s 0x80300004"
    by (simp add: seg_byte_def in_file_def file_byte_def demo_phdr_def)
  moreover have "phdr_flags demo_phdr OR PTE_V OR PTE_A OR PTE_D = PTE_R OR PTE_X OR PTE_U OR PTE_V OR PTE_A OR PTE_D"
    by (simp add: phdr_flags_def demo_phdr_def pte_flag_defs)
  ultimately show ?thesis
    using new(1) run by (intro exI [of _ pt] exI [of _ s] exI [of _ s'] exI [of _ pa]) simp
qed

text \<open>
  C35. The loader always comes to an end, whatever the program headers say, even where a segment
  reaches the end of the address space and the page counter wraps: every page takes a frame, so
  the loop bound of the model is never reached.
\<close>

theorem load_elf_terminates:
  assumes "frames_ok s"
  shows "load_elf_into s pt data elf \<noteq> Inl Hang"
proof -
  have "flow_fold (load_segment (frames_limit s - frames_used s + 1) pt data) (0, s) (elf_phdrs elf) \<noteq> Inl Hang"
    by (rule load_segments_no_hang [OF assms]) simp
  then show ?thesis
    by (auto simp: load_elf_into_def res_bind_def split: sum.splits flow.splits prod.splits)
qed

theorem load_elf_terminates_witness:
  "frames_ok demo_mm \<and> load_elf_into demo_mm \<lparr>root_ppn = 0x80400\<rparr> 0x80300000
     (demo_elf\<lparr>elf_phdrs := [demo_phdr\<lparr>ph_vaddr := 0xfffffffffffff000, ph_memsz := 0xffffffffffffffff\<rparr>]\<rparr>) \<noteq> Inl Hang"
proof -
  have "frames_ok demo_mm" by (simp add: frames_ok_def demo_mm_def)
  then show ?thesis
    using load_elf_terminates by blast
qed

end
