(* ===== verification/Console.thy ===== *)
theory Console
  imports Kernel_State
begin

text \<open>
  The console of \<^verbatim>\<open>src/src/console.rs\<close>, the logger and the panic handler of \<^verbatim>\<open>src/src/main.rs\<close>, and
  the part of the formatting library that the remaining log lines use: decimal and hexadecimal
  numbers.  Only lines of level \<^verbatim>\<open>warn\<close> appear in the model: \<^verbatim>\<open>rust_main\<close> sets that level before
  anything is logged, and the \<^verbatim>\<open>log\<close> crate drops records above the level without evaluating
  their arguments.
\<close>

section \<open>The UART\<close>

definition uart_putchar :: "('s, 'h) kernel \<Rightarrow> u8 \<Rightarrow> ('s, 'h) kernel" where
  "uart_putchar k c = k\<lparr>k_out := k_out k @ [c]\<rparr>"

fun uart_write_str :: "('s, 'h) kernel \<Rightarrow> u8 list \<Rightarrow> ('s, 'h) kernel" where
  "uart_write_str k [] = k"
| "uart_write_str k (c # cs) = uart_write_str (uart_putchar k c) cs"

definition console_init :: "('s, 'h) kernel \<Rightarrow> ('s, 'h) kernel" where
  "console_init k = k"

text \<open>\<^verbatim>\<open>print\<close> takes the formatted text.\<close>

definition console_print :: "('s, 'h) kernel \<Rightarrow> u8 list \<Rightarrow> ('s, 'h) kernel" where
  "console_print k args = uart_write_str k args"

text \<open>Each call polls the line status register once, and reads the data register only when it is ready.\<close>

definition getchar :: "('s, 'h) env \<Rightarrow> ('s, 'h) kernel \<Rightarrow> u8 option \<times> ('s, 'h) kernel" where
  "getchar E k =
     (let lsr = uart_lsr E (k_polls k); k' = k\<lparr>k_polls := k_polls k + 1\<rparr> in
      if lsr AND 1 \<noteq> 0 then (Some (uart_rhr E (k_polls k)), k') else (None, k'))"

section \<open>Numbers as text\<close>

definition digit_char :: "nat \<Rightarrow> u8" where
  "digit_char d = of_nat (if d < 10 then 48 + d else 87 + d)"

function radix_digits :: "nat \<Rightarrow> nat \<Rightarrow> u8 list" where
  "radix_digits b n =
     (if n < b \<or> b < 2 then [digit_char n] else radix_digits b (n div b) @ [digit_char (n mod b)])"
  by pat_completeness auto
termination by (relation "measure snd") (auto intro: div_less_dividend)

declare radix_digits.simps [simp del]

text \<open>The formats \<^verbatim>\<open>{}\<close> and \<^verbatim>\<open>{:#x}\<close> of a \<^verbatim>\<open>usize\<close>, and \<^verbatim>\<open>{}\<close> of a \<^verbatim>\<open>bool\<close>.\<close>

definition fmt_dec :: "usize \<Rightarrow> u8 list" where
  "fmt_dec n = radix_digits 10 (unat n)"

definition fmt_hex :: "usize \<Rightarrow> u8 list" where
  "fmt_hex n = string_bytes ''0x'' @ radix_digits 16 (unat n)"

definition fmt_bool :: "bool \<Rightarrow> u8 list" where
  "fmt_bool b = string_bytes (if b then ''true'' else ''false'')"

section \<open>The logger\<close>

definition level_name :: "log_level \<Rightarrow> u8 list" where
  "level_name l =
     string_bytes (case l of Error \<Rightarrow> ''ERROR'' | Warn \<Rightarrow> ''WARN'' | Info \<Rightarrow> ''INFO'' | Debug \<Rightarrow> ''DEBUG'' | Trace \<Rightarrow> ''TRACE'')"

definition logger_enabled :: "log_level \<Rightarrow> bool" where
  "logger_enabled l = True"

definition logger_log :: "('s, 'h) kernel \<Rightarrow> log_level \<Rightarrow> u8 list \<Rightarrow> ('s, 'h) kernel" where
  "logger_log k l args =
     console_print k (string_bytes ''['' @ level_name l @ string_bytes ''] '' @ args @ [10])"

definition logger_flush :: "('s, 'h) kernel \<Rightarrow> ('s, 'h) kernel" where
  "logger_flush k = k"

definition max_log_level :: log_level where
  "max_log_level = Warn"

text \<open>A logging macro: the crate decides by the level whether the record reaches the logger.\<close>

definition log_record :: "('s, 'h) env \<Rightarrow> ('s, 'h) kernel \<Rightarrow> log_level \<Rightarrow> u8 list \<Rightarrow> ('s, 'h) kernel" where
  "log_record E k l args = (if log_enabled E max_log_level l then logger_log k l args else k)"

section \<open>The panic handler\<close>

text \<open>
  A panic is the value \<open>Panic\<close> at the place where it happens.  What the handler then does is
  print the message, in the form the \<^verbatim>\<open>core\<close> library gives it, and loop.
\<close>

definition panic_handler :: "('s, 'h) kernel \<Rightarrow> u8 list \<Rightarrow> ('s, 'h) kernel \<times> kerror" where
  "panic_handler k info = (console_print k (string_bytes ''PANIC: '' @ info @ [10]), Hang)"

section \<open>Printing\<close>

lemma uart_write_str_eq: "uart_write_str k cs = k\<lparr>k_out := k_out k @ cs\<rparr>"
  by (induction cs arbitrary: k) (simp_all add: uart_putchar_def)

lemma console_print_eq: "console_print k cs = k\<lparr>k_out := k_out k @ cs\<rparr>"
  by (simp add: console_print_def uart_write_str_eq)

lemma log_record_out: "\<exists>out. log_record E k l args = k\<lparr>k_out := out\<rparr>"
  by (auto simp: log_record_def logger_log_def console_print_eq intro: exI [of _ "k_out k"])

text \<open>Printed numbers can be read back: the digits determine the number.\<close>

definition digit_value :: "u8 \<Rightarrow> nat" where
  "digit_value c = (if c < 58 then unat c - 48 else unat c - 87)"

definition digits_value :: "nat \<Rightarrow> u8 list \<Rightarrow> nat" where
  "digits_value b cs = foldl (\<lambda>v c. v * b + digit_value c) 0 cs"

lemma digit_value_char: "d < 16 \<Longrightarrow> digit_value (digit_char d) = d"
  by (simp add: digit_value_def digit_char_def word_less_nat_alt unat_of_nat)

locale number_format =
  fixes base :: nat
  assumes base: "2 \<le> base" "base \<le> 16"
begin

lemma value_print: "digits_value base (radix_digits base n) = n"
proof (induction n rule: less_induct)
  case (less n)
  show ?case
  proof (cases "n < base")
    case True
    then show ?thesis
      using base by (simp add: radix_digits.simps [of base n] digits_value_def digit_value_char)
  next
    case False
    then have "n div base < n" using base by (intro div_less_dividend) auto
    moreover have "digit_value (digit_char (n mod base)) = n mod base"
      using base mod_less_divisor [of base n] by (intro digit_value_char) linarith
    ultimately show ?thesis
      using less [of "n div base"] False base
      by (simp add: radix_digits.simps [of base n] digits_value_def div_mult_mod_eq)
  qed
qed

lemma print_inj: "radix_digits base m = radix_digits base n \<Longrightarrow> m = n"
  using value_print by metis

end

interpretation dec: number_format 10 by unfold_locales simp_all

interpretation hex: number_format 16 by unfold_locales simp_all

lemma fmt_dec_inj: "fmt_dec m = fmt_dec n \<Longrightarrow> m = n"
  by (auto simp: fmt_dec_def intro: word_eq_unatI dec.print_inj)

lemma fmt_hex_inj: "fmt_hex m = fmt_hex n \<Longrightarrow> m = n"
  by (auto simp: fmt_hex_def intro: word_eq_unatI hex.print_inj)

end
