(* ===== verification/Net.thy ===== *)
theory Net
  imports Console
begin

text \<open>
  The network glue of \<^verbatim>\<open>src/src/net.rs\<close>: descriptors of sockets, the one listening socket, accepting,
  sending, receiving and event reporting.  The TCP stack and the driver below it are the record
  \<open>tcp_ops\<close>.  A socket operation on a handle that is not in the socket set panics, as in
  the crate; the socket set itself is uninitialised memory until \<^verbatim>\<open>init\<close> has run.
\<close>

section \<open>Set-up and polling\<close>

definition get_time_ms :: "('s, 'h) env \<Rightarrow> ('s, 'h) kernel \<Rightarrow> usize \<times> ('s, 'h) kernel" where
  "get_time_ms E k = (case read_time E k of (time, k) \<Rightarrow> (time div 10000, k))"

abbreviation (input) set_stack :: "('s, 'h) kernel \<Rightarrow> 's \<Rightarrow> ('s, 'h) kernel" where
  "set_stack k s \<equiv> k\<lparr>k_net := (k_net k)\<lparr>nt_stack := Some s\<rparr>\<rparr>"

definition poll_network :: "('s, 'h) env \<Rightarrow> ('s, 'h) kernel \<Rightarrow> ('s, 'h) kernel res" where
  "poll_network E k =
     (if \<not> nt_device (k_net k) then Inr k
      else (case get_time_ms E k of (timestamp, k) \<Rightarrow>
        (case nt_stack (k_net k) of
           None \<Rightarrow> Inl (Undefined ''network interface not initialised'')
         | Some s \<Rightarrow> Inr (set_stack k (tcp_poll (tcp E) timestamp s)))))"

fun poll_times :: "('s, 'h) env \<Rightarrow> nat \<Rightarrow> ('s, 'h) kernel \<Rightarrow> ('s, 'h) kernel res" where
  "poll_times E 0 k = Inr k"
| "poll_times E (Suc n) k = res_bind (poll_network E k) (poll_times E n)"

definition arp_request :: "u8 list \<Rightarrow> u8 list" where
  "arp_request mac =
     replicate 6 0xff @ mac @ [0x08, 0x06] @
     [0x00, 0x01] @ [0x08, 0x00] @ [6] @ [4] @ [0x00, 0x01] @ mac @ [10, 0, 2, 15] @ replicate 6 0 @ [10, 0, 2, 2]"

text \<open>A failed transmission of the request is the text of the driver's error.\<close>

definition net_init :: "('s, 'h) env \<Rightarrow> ('s, 'h) kernel \<Rightarrow> ('s, 'h) kernel res" where
  "net_init E k =
     (if \<not> nt_device (k_net k) then
        Inr (log_record E k Warn (string_bytes ''Network stack init skipped: no virtio-net device''))
      else (case get_time_ms E k of (now, k) \<Rightarrow>
        (let mac = tcp_mac (tcp E);
             s = tcp_stack_new (tcp E) mac now ([10, 0, 2, 15], 24) [10, 0, 2, 2];
             (err, s) = tcp_send_raw (tcp E) s (arp_request mac);
             k = (case err of None \<Rightarrow> k | Some e \<Rightarrow> log_record E k Warn (string_bytes ''ARP send failed: '' @ e))
         in poll_times E 500 (set_stack k s))))"

section \<open>Sockets\<close>

text \<open>\<^verbatim>\<open>sockets.get_mut(handle)\<close>\<close>

definition get_socket :: "('s, 'h) env \<Rightarrow> ('s, 'h) kernel \<Rightarrow> 'h \<Rightarrow> 's res" where
  "get_socket E k h =
     (case nt_stack (k_net k) of
        None \<Rightarrow> Inl (Undefined ''socket set not initialised'')
      | Some s \<Rightarrow>
          if tcp_live (tcp E) s h then Inr s
          else Inl (Panic ''handle does not refer to a valid socket''))"

definition create_listen_socket :: "('s, 'h) env \<Rightarrow> ('s, 'h) kernel \<Rightarrow> ('h option \<times> ('s, 'h) kernel) res" where
  "create_listen_socket E k =
     res_bind (vec_zeroed k 4096) (\<lambda>(_, k).
     res_bind (vec_zeroed k 4096) (\<lambda>(_, k).
     case nt_stack (k_net k) of
       None \<Rightarrow> Inl (Undefined ''socket set not initialised'')
     | Some s \<Rightarrow>
         res_bind (tcp_add (tcp E) s) (\<lambda>(h, s).
         case tcp_listen (tcp E) s h 80 of (ok, s) \<Rightarrow>
           Inr (if ok then Some h else None, set_stack k s))))"

definition bind_listen_fd :: "('s, 'h) env \<Rightarrow> ('s, 'h) kernel \<Rightarrow> usize \<Rightarrow> ('s, 'h) kernel res" where
  "bind_listen_fd E k fd =
     (if nt_listen_fd (k_net k) = Some fd then Inr k
      else res_bind (create_listen_socket E k) (\<lambda>(h, k).
        case h of
          None \<Rightarrow> Inr k
        | Some handle \<Rightarrow>
            Inr (k\<lparr>k_net := (k_net k)\<lparr>nt_fd_to_handle := bt_insert (nt_fd_to_handle (k_net k)) fd handle,
                                      nt_listen_fd := Some fd\<rparr>\<rparr>)))"

definition set_epoll_data :: "('s, 'h) kernel \<Rightarrow> usize \<Rightarrow> u64 \<Rightarrow> ('s, 'h) kernel" where
  "set_epoll_data k fd data =
     k\<lparr>k_net := (k_net k)\<lparr>nt_epoll_data := bt_insert (nt_epoll_data (k_net k)) fd data\<rparr>\<rparr>"

definition is_listen_readable :: "('s, 'h) env \<Rightarrow> ('s, 'h) kernel \<Rightarrow> (bool \<times> ('s, 'h) kernel) res" where
  "is_listen_readable E k =
     (case nt_listen_fd (k_net k) of
        None \<Rightarrow> Inr (False, k)
      | Some fd \<Rightarrow>
          res_bind (poll_network E k) (\<lambda>k.
          case bt_get (nt_fd_to_handle (k_net k)) fd of
            None \<Rightarrow> Inr (False, k)
          | Some h \<Rightarrow>
              res_bind (get_socket E k h) (\<lambda>s.
              Inr (\<not> tcp_is_listening (tcp E) s h \<and> tcp_is_open (tcp E) s h, k))))"

definition accept_connection :: "('s, 'h) env \<Rightarrow> ('s, 'h) kernel \<Rightarrow> usize \<Rightarrow> ('h option \<times> ('s, 'h) kernel) res" where
  "accept_connection E k fd =
     (case nt_listen_fd (k_net k) of
        None \<Rightarrow> Inr (None, k)
      | Some listen_fd \<Rightarrow>
          if fd \<noteq> listen_fd then Inr (None, k)
          else
            res_bind (poll_network E k) (\<lambda>k.
            case bt_get (nt_fd_to_handle (k_net k)) listen_fd of
              None \<Rightarrow> Inr (None, k)
            | Some handle \<Rightarrow>
                res_bind (get_socket E k handle) (\<lambda>s.
                if tcp_is_listening (tcp E) s handle then Inr (None, k)
                else
                  res_bind (create_listen_socket E k) (\<lambda>(new, k).
                  case new of
                    None \<Rightarrow> Inr (None, k)
                  | Some new_handle \<Rightarrow>
                      Inr (Some handle,
                        k\<lparr>k_net := (k_net k)\<lparr>nt_fd_to_handle := bt_insert (nt_fd_to_handle (k_net k)) listen_fd new_handle\<rparr>\<rparr>)))))"

text \<open>
  Receiving copies straight into the user buffer, sending straight from it, as much as the
  contiguous part of the ring of the socket allows.
\<close>

definition recv_from_fd :: "('s, 'h) env \<Rightarrow> ('s, 'h) kernel \<Rightarrow> usize \<Rightarrow> usize \<Rightarrow> usize \<Rightarrow> (isize \<times> ('s, 'h) kernel) res" where
  "recv_from_fd E k fd buf buf_len =
     res_bind (poll_network E k) (\<lambda>k.
     case bt_get (nt_fd_to_handle (k_net k)) fd of
       None \<Rightarrow> Inr (- 1, k)
     | Some h \<Rightarrow>
         res_bind (get_socket E k h) (\<lambda>s.
         if \<not> tcp_can_recv (tcp E) s h then Inr (if tcp_is_open (tcp E) s h then - 11 else 0, k)
         else (case tcp_rx_data (tcp E) s h of
                 None \<Rightarrow> Inr (0, k)
               | Some data \<Rightarrow>
                   (let len = min (length data) (unat buf_len) in
                    res_bind (vstore E k buf (take len data)) (\<lambda>k.
                    Inr (of_nat len, set_stack k (tcp_rx_take (tcp E) s h len)))))))"

definition send_to_fd :: "('s, 'h) env \<Rightarrow> ('s, 'h) kernel \<Rightarrow> usize \<Rightarrow> usize \<Rightarrow> usize \<Rightarrow> (isize \<times> ('s, 'h) kernel) res" where
  "send_to_fd E k fd buf buf_len =
     res_bind (poll_network E k) (\<lambda>k.
     case bt_get (nt_fd_to_handle (k_net k)) fd of
       None \<Rightarrow> Inr (- 1, k)
     | Some h \<Rightarrow>
         res_bind (get_socket E k h) (\<lambda>s.
         if \<not> tcp_can_send (tcp E) s h then Inr (if tcp_is_open (tcp E) s h then - 11 else - 32, k)
         else (case tcp_tx_room (tcp E) s h of
                 None \<Rightarrow> Inr (0, k)
               | Some room \<Rightarrow>
                   (let len = min room (unat buf_len) in
                    res_bind (vload E k buf len) (\<lambda>data.
                    Inr (of_nat len, set_stack k (tcp_tx_put (tcp E) s h data)))))))"

definition net_close_fd :: "('s, 'h) env \<Rightarrow> ('s, 'h) kernel \<Rightarrow> usize \<Rightarrow> ('s, 'h) kernel res" where
  "net_close_fd E k fd =
     (let drop_data = (\<lambda>k. k\<lparr>k_net := (k_net k)\<lparr>nt_epoll_data := bt_remove (nt_epoll_data (k_net k)) fd\<rparr>\<rparr>) in
      if nt_listen_fd (k_net k) = Some fd then Inr (drop_data k)
      else (case bt_get (nt_fd_to_handle (k_net k)) fd of
              None \<Rightarrow> Inr (drop_data k)
            | Some h \<Rightarrow>
                (case nt_stack (k_net k) of
                   None \<Rightarrow> Inl (Undefined ''socket set not initialised'')
                 | Some s \<Rightarrow>
                     res_bind (tcp_remove (tcp E) s h) (\<lambda>s.
                     Inr (drop_data (k\<lparr>k_net := (k_net k)\<lparr>nt_fd_to_handle := bt_remove (nt_fd_to_handle (k_net k)) fd,
                       nt_stack := Some s\<rparr>\<rparr>))))))"

definition add_fd_handle :: "('s, 'h) kernel \<Rightarrow> usize \<Rightarrow> 'h \<Rightarrow> ('s, 'h) kernel" where
  "add_fd_handle k fd h =
     k\<lparr>k_net := (k_net k)\<lparr>nt_fd_to_handle := bt_insert (nt_fd_to_handle (k_net k)) fd h\<rparr>\<rparr>"

definition is_socket_fd :: "('s, 'h) kernel \<Rightarrow> usize \<Rightarrow> bool" where
  "is_socket_fd k fd \<longleftrightarrow> bt_get (nt_fd_to_handle (k_net k)) fd \<noteq> None"

section \<open>Events\<close>

definition socket_events :: "('s, 'h) env \<Rightarrow> 's \<Rightarrow> 'h \<Rightarrow> u32" where
  "socket_events E s h =
     (let r = (if tcp_can_recv (tcp E) s h \<or> (\<not> tcp_is_listening (tcp E) s h \<and> tcp_is_open (tcp E) s h) then 1 else 0)
      in if tcp_can_send (tcp E) s h then r OR 4 else r)"

fun epoll_scan ::
  "('s, 'h) env \<Rightarrow> ('s, 'h) kernel \<Rightarrow> usize \<Rightarrow> usize \<Rightarrow> usize \<Rightarrow> (usize \<times> 'h) list \<Rightarrow> (usize \<times> ('s, 'h) kernel) res"
where
  "epoll_scan E k events_buf maxevents count [] = Inr (count, k)"
| "epoll_scan E k events_buf maxevents count ((fd, h) # fds) =
     (if maxevents \<le> count then Inr (count, k)
      else
        res_bind (get_socket E k h) (\<lambda>s.
        let revents = socket_events E s h in
        if revents = 0 then epoll_scan E k events_buf maxevents count fds
        else
          (let evt = events_buf + count * 16;
               data = (case bt_get (nt_epoll_data (k_net k)) fd of None \<Rightarrow> fd | Some d \<Rightarrow> d)
           in res_bind (vstore_u32 E k evt revents) (\<lambda>k.
              res_bind (vstore_u64 E k (evt + 8) data) (\<lambda>k.
              epoll_scan E k events_buf maxevents (count + 1) fds)))))"

definition get_epoll_events :: "('s, 'h) env \<Rightarrow> ('s, 'h) kernel \<Rightarrow> usize \<Rightarrow> usize \<Rightarrow> (usize \<times> ('s, 'h) kernel) res" where
  "get_epoll_events E k events_buf maxevents =
     res_bind (poll_network E k) (\<lambda>k.
     epoll_scan E k events_buf maxevents 0 (nt_fd_to_handle (k_net k)))"

end
