(* ===== verification/User_Mem.thy ===== *)
theory User_Mem
  imports Net Proc
begin

text \<open>
  How the system calls of \<^verbatim>\<open>src/src/syscall.rs\<close> take strings and words from user memory: through the
  page table of the process (\<^verbatim>\<open>read_user_*\<close>) or through the raw pointer (\<^verbatim>\<open>cstr\<close>), and the UTF-8
  rules of Rust strings that this touches.  The second half is about accesses through raw
  pointers when the user buffer is mapped.
\<close>

section \<open>UTF-8\<close>

text \<open>\<^verbatim>\<open>core::str::from_utf8\<close> accepts exactly the well-formed sequences of the Unicode standard.\<close>

definition in_range :: "u8 \<Rightarrow> u8 \<Rightarrow> u8 \<Rightarrow> bool" where
  "in_range a b c \<longleftrightarrow> a \<le> c \<and> c \<le> b"

definition utf8_second :: "u8 \<Rightarrow> u8 \<Rightarrow> bool" where
  "utf8_second b c \<longleftrightarrow>
     (if b = 0xe0 then in_range 0xa0 0xbf c
      else if b = 0xed then in_range 0x80 0x9f c
      else if b = 0xf0 then in_range 0x90 0xbf c
      else if b = 0xf4 then in_range 0x80 0x8f c
      else in_range 0x80 0xbf c)"

definition utf8_width :: "u8 \<Rightarrow> nat" where
  "utf8_width b =
     (if b < 0x80 then 1 else if in_range 0xc2 0xdf b then 2 else if in_range 0xe0 0xef b then 3
      else if in_range 0xf0 0xf4 b then 4 else 0)"

definition utf8_char :: "u8 \<Rightarrow> u8 list \<Rightarrow> bool" where
  "utf8_char b cs \<longleftrightarrow>
     utf8_width b = Suc (length cs) \<and>
     (case cs of [] \<Rightarrow> True | c # ds \<Rightarrow> utf8_second b c \<and> list_all (in_range 0x80 0xbf) ds)"

function utf8_valid :: "u8 list \<Rightarrow> bool" where
  "utf8_valid [] = True"
| "utf8_valid (b # bs) =
     (let w = utf8_width b in
      w \<noteq> 0 \<and> utf8_char b (take (w - 1) bs) \<and> utf8_valid (drop (w - 1) bs))"
  by pat_completeness auto
termination by (relation "measure length") auto

text \<open>\<^verbatim>\<open>String::push(b as char)\<close>\<close>

definition char_utf8 :: "u8 \<Rightarrow> u8 list" where
  "char_utf8 b = (if b < 0x80 then [b] else [0xc0 OR drop_bit 6 b, 0x80 OR (b AND 0x3f)])"

text \<open>The bytes of a \<^verbatim>\<open>&str\<close> as the path type of the file system.\<close>

definition bytes_string :: "u8 list \<Rightarrow> string" where
  "bytes_string bs = map (\<lambda>b. char_of (unat b)) bs"

section \<open>Reading through the page table\<close>

definition read_user_u64 :: "('s, 'h) kernel \<Rightarrow> usize \<Rightarrow> usize option" where
  "read_user_u64 k addr =
     Option.bind (with_current_proc_ref k (\<lambda>p.
       map_option (load_u64 (kram k)) (pt_translate (kram k) (p_page_table p) addr))) id"

definition read_user_byte :: "('s, 'h) kernel \<Rightarrow> usize \<Rightarrow> u8 option" where
  "read_user_byte k addr =
     Option.bind (with_current_proc_ref k (\<lambda>p.
       map_option (kram k) (pt_translate (kram k) (p_page_table p) addr))) id"

function read_user_str_loop :: "('s, 'h) kernel \<Rightarrow> usize \<Rightarrow> nat \<Rightarrow> u8 list \<Rightarrow> u8 list option" where
  "read_user_str_loop k addr off s =
     (case read_user_byte k (addr + of_nat off) of
        None \<Rightarrow> None
      | Some b \<Rightarrow>
          if b = 0 then Some s
          else if 4096 < off + 1 then None
          else read_user_str_loop k addr (off + 1) (s @ char_utf8 b))"
  by pat_completeness auto
termination by (relation "measure (\<lambda>(k, addr, off, s). 4096 - off)") auto

declare read_user_str_loop.simps [simp del]

definition read_user_str :: "('s, 'h) kernel \<Rightarrow> usize \<Rightarrow> u8 list option" where
  "read_user_str k addr = read_user_str_loop k addr 0 []"

section \<open>C strings through the raw pointer\<close>

text \<open>
  After \<open>2 ^ 64\<close> bytes without a terminator the pointer is back where it started, so the loop
  of \<^verbatim>\<open>cstr\<close> runs for ever.
\<close>

function cstr_loop :: "('s, 'h) env \<Rightarrow> ('s, 'h) kernel \<Rightarrow> usize \<Rightarrow> nat \<Rightarrow> u8 list \<Rightarrow> u8 list res" where
  "cstr_loop E k ptr len acc =
     (if 2 ^ 64 \<le> len then Inl Hang
      else (case mmu E (kram k) (k_satp k) False (ptr + of_nat len) of
              None \<Rightarrow> Inl (PageFault (ptr + of_nat len))
            | Some pa \<Rightarrow>
                if kram k pa \<noteq> 0 then cstr_loop E k ptr (len + 1) (acc @ [kram k pa]) else Inr acc))"
  by pat_completeness auto
termination by (relation "measure (\<lambda>(E, k, ptr, len, acc). 2 ^ 64 - len)") auto

declare cstr_loop.simps [simp del]

definition cstr :: "('s, 'h) env \<Rightarrow> ('s, 'h) kernel \<Rightarrow> usize \<Rightarrow> string res" where
  "cstr E k ptr = res_bind (cstr_loop E k ptr 0 []) (\<lambda>bs. Inr (bytes_string bs))"

section \<open>File status records\<close>

definition fill_stat :: "('s, 'h) env \<Rightarrow> ('s, 'h) kernel \<Rightarrow> usize \<Rightarrow> u64 \<Rightarrow> ('s, 'h) kernel res" where
  "fill_stat E k buf sz =
     res_bind (vfill E k buf 0 128) (\<lambda>k.
     let mode = (if sz = 0 then 0x41ed else 0x81a4) in
     res_bind (vstore_u32 E k (buf + 16) mode) (\<lambda>k.
     res_bind (vstore_u32 E k (buf + 24) 1) (\<lambda>k.
     res_bind (vstore_u64 E k (buf + 48) sz) (\<lambda>k.
     res_bind (vstore_u32 E k (buf + 56) 4096) (\<lambda>k.
     vstore_u64 E k (buf + 64) ((sz + 511) div 512))))))"

definition fill_stat_chr :: "('s, 'h) env \<Rightarrow> ('s, 'h) kernel \<Rightarrow> usize \<Rightarrow> ('s, 'h) kernel res" where
  "fill_stat_chr E k buf =
     res_bind (vfill E k buf 0 128) (\<lambda>k.
     res_bind (vstore_u32 E k (buf + 16) 0x2190) (\<lambda>k.
     res_bind (vstore_u32 E k (buf + 24) 1) (\<lambda>k.
     res_bind (vstore_u32 E k (buf + 32) 0) (\<lambda>k.
     res_bind (vstore_u32 E k (buf + 36) 0) (\<lambda>k.
     res_bind (vstore_u64 E k (buf + 40) 0x102) (\<lambda>k.
     res_bind (vstore_u64 E k (buf + 48) 0) (\<lambda>k.
     res_bind (vstore_u32 E k (buf + 56) 4096) (\<lambda>k.
     vstore_u64 E k (buf + 64) 0))))))))"

end
