(* ===== verification/Sys_Proc.thy ===== *)
theory Sys_Proc
  imports User_Mem
begin

text \<open>
  The system calls on memory and processes, from \<^verbatim>\<open>src/src/syscall.rs\<close>: \<^verbatim>\<open>brk\<close>, \<^verbatim>\<open>mmap\<close>, \<^verbatim>\<open>execve\<close>,
  \<^verbatim>\<open>clone\<close>, \<^verbatim>\<open>wait4\<close>, \<^verbatim>\<open>exit\<close>, the identities, limits and times, and the calls that only answer a
  constant.
\<close>

section \<open>Memory\<close>

text \<open>A page that is not mapped yet gets a frame; without a free frame it stays unmapped.\<close>

definition map_missing :: "page_table \<Rightarrow> pte_flags \<Rightarrow> mm_state \<Rightarrow> usize \<Rightarrow> mm_state res" where
  "map_missing pt flags s va =
     (if pt_translate (ram s) pt va = None then
        (case alloc_page s of
           (None, s) \<Rightarrow> Inr s
         | (Some pa, s) \<Rightarrow> pt_map s pt va pa flags)
      else Inr s)"

definition brk_pages :: "mm_state \<Rightarrow> process \<Rightarrow> usize \<Rightarrow> mm_state res" where
  "brk_pages s p addr =
     (if p_brk p < addr then
        (let start = (p_brk p + 0xfff) AND NOT 0xfff; fin = (addr + 0xfff) AND NOT 0xfff in
         res_fold (map_missing (p_page_table p) (PTE_U OR PTE_R OR PTE_W)) s (range_step start fin 0x1000))
      else Inr s)"

definition sys_brk :: "('s, 'h) kernel \<Rightarrow> usize \<Rightarrow> (isize \<times> ('s, 'h) kernel) res" where
  "sys_brk k addr =
     res_bind (with_current_proc k (\<lambda>p k.
       let p = (if p_brk p = 0 then p\<lparr>p_brk := 0x10000\<rparr> else p) in
       if addr = 0 then Inr (p_brk p, p, k)
       else res_bind (brk_pages (k_mm k) p addr) (\<lambda>s. Inr (addr, p\<lparr>p_brk := addr\<rparr>, k\<lparr>k_mm := s\<rparr>))))
     (\<lambda>(r, k). Inr (case r of None \<Rightarrow> - 1 | Some v \<Rightarrow> v, k))"

definition mmap_flags :: "isize \<Rightarrow> pte_flags" where
  "mmap_flags prot =
     PTE_U OR (if prot AND 1 \<noteq> 0 then PTE_R else 0) OR (if prot AND 2 \<noteq> 0 then PTE_W else 0) OR
     (if prot AND 4 \<noteq> 0 then PTE_X else 0)"

text \<open>The place of a mapping: the requested one, or the next free part of the arena.\<close>

definition mmap_place :: "('s, 'h) kernel \<Rightarrow> usize \<Rightarrow> usize \<Rightarrow> isize \<Rightarrow> usize \<times> ('s, 'h) kernel" where
  "mmap_place k addr aligned_len flags =
     (let base = (if k_mmap_base k = 0 then 0x50000000 else k_mmap_base k) in
      if flags AND 0x10 \<noteq> 0 then (addr, k\<lparr>k_mmap_base := base\<rparr>)
      else (base, k\<lparr>k_mmap_base := base + aligned_len\<rparr>))"

definition mmap_pages :: "('s, 'h) kernel \<Rightarrow> usize \<Rightarrow> usize \<Rightarrow> isize \<Rightarrow> ('s, 'h) kernel res" where
  "mmap_pages k ret aligned_len prot =
     res_bind (with_current_proc k (\<lambda>p k.
       res_bind (res_fold (\<lambda>s page. map_missing (p_page_table p) (mmap_flags prot) s (ret + page)) (k_mm k)
         (range_step 0 aligned_len 0x1000))
       (\<lambda>s. Inr ((), p, k\<lparr>k_mm := s\<rparr>))))
     (\<lambda>(_, k). Inr k)"

definition mmap_file :: "('s, 'h) env \<Rightarrow> ('s, 'h) kernel \<Rightarrow> usize \<Rightarrow> usize \<Rightarrow> isize \<Rightarrow> usize \<Rightarrow> ('s, 'h) kernel res" where
  "mmap_file E k ret len fd offset =
     (case fd_get (k_fds k) fd of
        None \<Rightarrow> Inr k
      | Some f \<Rightarrow>
          res_bind (vec_zeroed k len) (\<lambda>(_, k).
          res_bind (read_inode (k_fs k) (of_inode f) len offset) (\<lambda>tmp.
          vstore E k ret tmp)))"

definition sys_mmap ::
  "('s, 'h) env \<Rightarrow> ('s, 'h) kernel \<Rightarrow> usize \<Rightarrow> usize \<Rightarrow> isize \<Rightarrow> isize \<Rightarrow> isize \<Rightarrow> usize \<Rightarrow> (isize \<times> ('s, 'h) kernel) res"
where
  "sys_mmap E k addr len prot flags fd offset =
     (let aligned_len = (len + 0xfff) AND NOT 0xfff; (ret, k) = mmap_place k addr aligned_len flags in
      res_bind (mmap_pages k ret aligned_len prot) (\<lambda>k.
      res_bind (vfill E k ret 0 aligned_len) (\<lambda>k.
      res_bind (if flags AND 0x20 = 0 \<and> 0 \<le> sint fd then mmap_file E k ret len fd offset else Inr k) (\<lambda>k.
      Inr (ret, k)))))"

definition sys_munmap :: "('s, 'h) kernel \<Rightarrow> (isize \<times> ('s, 'h) kernel) res" where
  "sys_munmap k = Inr (0, k)"

definition sys_mprotect :: "('s, 'h) kernel \<Rightarrow> (isize \<times> ('s, 'h) kernel) res" where
  "sys_mprotect k = Inr (0, k)"

definition sys_madvise :: "('s, 'h) kernel \<Rightarrow> (isize \<times> ('s, 'h) kernel) res" where
  "sys_madvise k = Inr (0, k)"

section \<open>Processes\<close>

definition sys_exit :: "('s, 'h) kernel \<Rightarrow> isize \<Rightarrow> (isize \<times> ('s, 'h) kernel) res" where
  "sys_exit k code = Inr (0, exit_process k code)"

text \<open>At most 129 strings of an argument array, up to the first null, unmapped or unreadable one.\<close>

function read_str_array :: "('s, 'h) kernel \<Rightarrow> usize \<Rightarrow> nat \<Rightarrow> u8 list list \<Rightarrow> u8 list list" where
  "read_str_array k arr i acc =
     (case read_user_u64 k (arr + of_nat i * 8) of
        None \<Rightarrow> acc
      | Some ptr \<Rightarrow>
          if ptr = 0 then acc
          else (case read_user_str k ptr of
                  None \<Rightarrow> acc
                | Some s \<Rightarrow>
                    if 128 < i + 1 then acc @ [s] else read_str_array k arr (i + 1) (acc @ [s])))"
  by pat_completeness auto
termination by (relation "measure (\<lambda>(k, arr, i, acc). 128 - i)") auto

declare read_str_array.simps [simp del]

definition exec_env :: "u8 list list \<Rightarrow> u8 list list" where
  "exec_env envp =
     (if list_ex (\<lambda>s. take 5 s = string_bytes ''PATH='') envp then envp
      else envp @ [string_bytes ''PATH=/bin''])"

text \<open>The registers of the caller after the image has been replaced, and the new address space.\<close>

definition exec_switch :: "('s, 'h) kernel \<Rightarrow> usize \<Rightarrow> nat \<Rightarrow> ('s, 'h) kernel" where
  "exec_switch k sp argc =
     (let sepc = (case with_current_proc_ref k (\<lambda>p. tf_sepc (p_trap_frame p)) of None \<Rightarrow> 0 | Some v \<Rightarrow> v);
          satp = (case with_current_proc_ref k (\<lambda>p. satp_of (p_page_table p)) of None \<Rightarrow> 0 | Some v \<Rightarrow> v);
          tf = k_ctf k
      in k\<lparr>k_ctf := tf\<lparr>tf_sepc := sepc, tf_regs := (tf_regs tf)[2 := sp, 10 := of_nat argc]\<rparr>, k_satp := satp\<rparr>)"

definition sys_execve :: "('s, 'h) env \<Rightarrow> ('s, 'h) kernel \<Rightarrow> usize \<Rightarrow> usize \<Rightarrow> usize \<Rightarrow> (isize \<times> ('s, 'h) kernel) res" where
  "sys_execve E k path argv envp =
     (case read_user_str k path of
        None \<Rightarrow> Inr (- 1, k)
      | Some path \<Rightarrow>
          (let argv_strs = read_str_array k argv 0 []; envp_strs = read_str_array k envp 0 [] in
           case get_file_data (k_fs k) (bytes_string path) of
             None \<Rightarrow> Inr (- 2, log_record E k Warn (string_bytes ''sys_execve: file not found: '' @ path))
           | Some data \<Rightarrow>
               res_bind (with_current_proc k (\<lambda>p k.
                 res_bind (exec_process E (k_mm k) p data argv_strs (exec_env envp_strs)) (\<lambda>(r, p, s).
                 Inr (r, p, k\<lparr>k_mm := s\<rparr>)))) (\<lambda>(r, k).
               case Option.bind r id of
                 None \<Rightarrow> Inr (- 1, k)
               | Some sp \<Rightarrow> Inr (0, exec_switch k sp (length argv_strs)))))"

definition sys_clone :: "('s, 'h) kernel \<Rightarrow> usize \<Rightarrow> (isize \<times> ('s, 'h) kernel) res" where
  "sys_clone k stack =
     res_bind (fork_process k (k_ctf k)) (\<lambda>(r, k).
     case r of
       None \<Rightarrow> Inr (- 1, k)
     | Some child_pid \<Rightarrow>
         Inr (child_pid,
           if stack \<noteq> 0 then
             k\<lparr>k_procs := bt_modify (k_procs k) child_pid
                 (\<lambda>p. p\<lparr>p_trap_frame := (p_trap_frame p)\<lparr>tf_regs := (tf_regs (p_trap_frame p))[2 := stack]\<rparr>\<rparr>)\<rparr>
           else k))"

definition zombie_child :: "('s, 'h) kernel \<Rightarrow> isize \<Rightarrow> (usize \<times> process) option" where
  "zombie_child k pid =
     find (\<lambda>(cpid, p). p_ppid p = k_current k \<and> p_state p = Zombie \<and> \<not> (0 < sint pid \<and> cpid \<noteq> pid)) (k_procs k)"

definition sys_wait4 :: "('s, 'h) env \<Rightarrow> ('s, 'h) kernel \<Rightarrow> isize \<Rightarrow> usize \<Rightarrow> isize \<Rightarrow> (isize \<times> ('s, 'h) kernel) res" where
  "sys_wait4 E k pid wstatus options =
     (case zombie_child k pid of
        Some (zpid, p) \<Rightarrow>
          res_bind (if wstatus \<noteq> 0 then vstore_u64 E k wstatus (push_bit 8 (p_exit_code p AND 0xff)) else Inr k) (\<lambda>k.
          Inr (zpid, k\<lparr>k_procs := bt_remove (k_procs k) zpid\<rparr>))
      | None \<Rightarrow> Inr (if options AND 1 \<noteq> 0 then 0 else - 11, k))"

section \<open>Identities\<close>

definition sys_getpid :: "('s, 'h) kernel \<Rightarrow> (isize \<times> ('s, 'h) kernel) res" where
  "sys_getpid k = Inr (k_current k, k)"

definition sys_getppid :: "('s, 'h) kernel \<Rightarrow> (isize \<times> ('s, 'h) kernel) res" where
  "sys_getppid k = Inr (case bt_get (k_procs k) (k_current k) of None \<Rightarrow> 0 | Some p \<Rightarrow> p_ppid p, k)"

definition sys_getpgrp :: "('s, 'h) kernel \<Rightarrow> (isize \<times> ('s, 'h) kernel) res" where
  "sys_getpgrp k = Inr (k_current k, k)"

definition sys_getsid :: "('s, 'h) kernel \<Rightarrow> (isize \<times> ('s, 'h) kernel) res" where
  "sys_getsid k = Inr (k_current k, k)"

definition sys_setsid :: "('s, 'h) kernel \<Rightarrow> (isize \<times> ('s, 'h) kernel) res" where
  "sys_setsid k = Inr (k_current k, k)"

definition sys_gettid :: "('s, 'h) kernel \<Rightarrow> (isize \<times> ('s, 'h) kernel) res" where
  "sys_gettid k = Inr (k_current k, k)"

section \<open>Answers about the system\<close>

definition pad65 :: "u8 list \<Rightarrow> u8 list" where
  "pad65 s = s @ replicate (65 - length s) 0"

definition uts_fields :: "u8 list list" where
  "uts_fields = map (\<lambda>s. pad65 (string_bytes s)) [''Linux'', ''rvos'', ''5.15.0'', ''#1'', ''riscv64'', '''']"

definition sys_uname :: "('s, 'h) env \<Rightarrow> ('s, 'h) kernel \<Rightarrow> usize \<Rightarrow> (isize \<times> ('s, 'h) kernel) res" where
  "sys_uname E k buf = res_bind (vstore E k buf (concat uts_fields)) (\<lambda>k. Inr (0, k))"

definition sys_getcwd :: "('s, 'h) env \<Rightarrow> ('s, 'h) kernel \<Rightarrow> usize \<Rightarrow> usize \<Rightarrow> (isize \<times> ('s, 'h) kernel) res" where
  "sys_getcwd E k buf sz =
     (let cwd = string_bytes ''/tmp'' @ [0] in
      if sz < of_nat (length cwd) then Inr (- 1, k)
      else res_bind (vstore E k buf cwd) (\<lambda>k. Inr (buf, k)))"

definition sys_clock_gettime :: "('s, 'h) env \<Rightarrow> ('s, 'h) kernel \<Rightarrow> usize \<Rightarrow> (isize \<times> ('s, 'h) kernel) res" where
  "sys_clock_gettime E k buf =
     (case read_time E k of (ticks, k) \<Rightarrow>
        res_bind (vstore_u64 E k buf (ticks div 10000000 + 1)) (\<lambda>k.
        res_bind (vstore_u64 E k (buf + 8) (ticks mod 10000000)) (\<lambda>k. Inr (0, k))))"

definition sys_getrlimit :: "('s, 'h) env \<Rightarrow> ('s, 'h) kernel \<Rightarrow> isize \<Rightarrow> usize \<Rightarrow> (isize \<times> ('s, 'h) kernel) res" where
  "sys_getrlimit E k resource buf =
     (let (cur, lim) = (if resource = 7 then (1024, 4096) else (- 1, - 1)) in
      res_bind (vstore_u64 E k buf cur) (\<lambda>k.
      res_bind (vstore_u64 E k (buf + 8) lim) (\<lambda>k. Inr (0, k))))"

definition sys_prlimit64 :: "('s, 'h) env \<Rightarrow> ('s, 'h) kernel \<Rightarrow> isize \<Rightarrow> usize \<Rightarrow> (isize \<times> ('s, 'h) kernel) res" where
  "sys_prlimit64 E k resource old_limit =
     (if old_limit \<noteq> 0 then
        (let lim = (if resource = 7 then 1024 else - 1) in
         res_bind (vstore_u64 E k old_limit lim) (\<lambda>k.
         res_bind (vstore_u64 E k (old_limit + 8) lim) (\<lambda>k. Inr (0, k))))
      else Inr (0, k))"

definition sys_getrandom :: "('s, 'h) env \<Rightarrow> ('s, 'h) kernel \<Rightarrow> usize \<Rightarrow> usize \<Rightarrow> (isize \<times> ('s, 'h) kernel) res" where
  "sys_getrandom E k buf buflen = res_bind (vfill E k buf 0xab buflen) (\<lambda>k. Inr (buflen, k))"

section \<open>Constant answers\<close>

definition sys_setgid :: "('s, 'h) kernel \<Rightarrow> (isize \<times> ('s, 'h) kernel) res" where
  "sys_setgid k = Inr (0, k)"

definition sys_setuid :: "('s, 'h) kernel \<Rightarrow> (isize \<times> ('s, 'h) kernel) res" where
  "sys_setuid k = Inr (0, k)"

definition sys_setgroups :: "('s, 'h) kernel \<Rightarrow> (isize \<times> ('s, 'h) kernel) res" where
  "sys_setgroups k = Inr (0, k)"

definition sys_setpgid :: "('s, 'h) kernel \<Rightarrow> (isize \<times> ('s, 'h) kernel) res" where
  "sys_setpgid k = Inr (0, k)"

definition sys_getuid :: "('s, 'h) kernel \<Rightarrow> (isize \<times> ('s, 'h) kernel) res" where
  "sys_getuid k = Inr (0, k)"

definition sys_geteuid :: "('s, 'h) kernel \<Rightarrow> (isize \<times> ('s, 'h) kernel) res" where
  "sys_geteuid k = Inr (0, k)"

definition sys_getgid :: "('s, 'h) kernel \<Rightarrow> (isize \<times> ('s, 'h) kernel) res" where
  "sys_getgid k = Inr (0, k)"

definition sys_getegid :: "('s, 'h) kernel \<Rightarrow> (isize \<times> ('s, 'h) kernel) res" where
  "sys_getegid k = Inr (0, k)"

definition sys_rt_sigaction :: "('s, 'h) kernel \<Rightarrow> (isize \<times> ('s, 'h) kernel) res" where
  "sys_rt_sigaction k = Inr (0, k)"

definition sys_rt_sigprocmask :: "('s, 'h) kernel \<Rightarrow> (isize \<times> ('s, 'h) kernel) res" where
  "sys_rt_sigprocmask k = Inr (0, k)"

definition sys_sigaction :: "('s, 'h) kernel \<Rightarrow> (isize \<times> ('s, 'h) kernel) res" where
  "sys_sigaction k = Inr (0, k)"

definition sys_prctl :: "('s, 'h) kernel \<Rightarrow> (isize \<times> ('s, 'h) kernel) res" where
  "sys_prctl k = Inr (0, k)"

definition sys_set_tid_address :: "('s, 'h) kernel \<Rightarrow> (isize \<times> ('s, 'h) kernel) res" where
  "sys_set_tid_address k = Inr (1, k)"

definition sys_set_robust_list :: "('s, 'h) kernel \<Rightarrow> (isize \<times> ('s, 'h) kernel) res" where
  "sys_set_robust_list k = Inr (0, k)"

definition sys_umask :: "('s, 'h) kernel \<Rightarrow> (isize \<times> ('s, 'h) kernel) res" where
  "sys_umask k = Inr (0x12, k)"

definition sys_fchownat :: "('s, 'h) kernel \<Rightarrow> (isize \<times> ('s, 'h) kernel) res" where
  "sys_fchownat k = Inr (0, k)"

definition sys_sched_setaffinity :: "('s, 'h) kernel \<Rightarrow> (isize \<times> ('s, 'h) kernel) res" where
  "sys_sched_setaffinity k = Inr (0, k)"

definition sys_sched_getaffinity :: "('s, 'h) kernel \<Rightarrow> (isize \<times> ('s, 'h) kernel) res" where
  "sys_sched_getaffinity k = Inr (0, k)"

end
