(* ===== verification/Mem_Calls.thy ===== *)
theory Mem_Calls
  imports Elf_Load Sys_Proc
begin

text \<open>
  What \<^verbatim>\<open>sys_brk\<close> and \<^verbatim>\<open>sys_mmap\<close> of \<^verbatim>\<open>src/src/syscall.rs\<close> do to the address space of the caller.  Both
  map missing pages one by one; a page of zeros is a page of a segment without file part, so
  the invariant of the loader (\<open>Elf_Load.loaded\<close>) carries the loop.
\<close>

section \<open>Pages by number\<close>

definition page_at :: "nat \<Rightarrow> usize" where
  "page_at v = push_bit 12 (of_nat v)"

lemma page_at_unat:
  assumes "v < 2 ^ 27"
  shows "unat (page_at v) = 4096 * v" "drop_bit 12 (page_at v) = of_nat v" "unat (of_nat v :: usize) = v"
proof -
  show v: "unat (of_nat v :: usize) = v"
    using assms by (simp add: unat_of_nat)
  then show p: "unat (page_at v) = 4096 * v"
    using assms by (simp add: page_at_def unat_push_bit_12)
  show "drop_bit 12 (page_at v) = of_nat v"
    by (rule word_eq_unatI) (simp add: unat_drop_bit_12 p v)
qed

lemma page_align_at: "page_align_down va = page_at (unat va div 4096)"
proof -
  have "(4096 - 1 :: usize) = mask 12" by (simp add: mask_eq_exp_minus_1)
  then have "page_align_down va = push_bit 12 (drop_bit 12 va)"
    by (simp only: page_align_down_def and_not_mask)
  moreover have "drop_bit 12 va = of_nat (unat va div 4096)"
    unfolding unat_drop_bit_12 [symmetric] by simp
  ultimately show ?thesis by (simp add: page_at_def)
qed

lemma page_at_aligned: "v < 2 ^ 27 \<Longrightarrow> page_align_down (page_at v) = page_at v"
  by (simp add: page_align_at page_at_unat)

lemma same_vpage_at:
  assumes "unat va < 2 ^ 39" "v < 2 ^ 27"
  shows "same_vpage va (page_at v) \<longleftrightarrow> unat va div 4096 = v"
proof -
  have "unat (drop_bit 12 va) < 2 ^ 27"
    using assms(1) by (simp add: unat_drop_bit_12)
  then show ?thesis
    using assms(2) digits_inj
    by (auto simp: same_vpage_def vpn_indices_digits page_at_unat unat_drop_bit_12 dest: inj_onD)
qed

lemma range_step_pages:
  assumes "unat x = 4096 * a" "unat y = 4096 * (a + n)"
  shows "range_step x y 4096 = map page_at [a..<a + n]"
proof -
  have "unat y - unat x = 4096 * n"
    by (simp only: assms diff_mult_distrib2 [symmetric] add_diff_cancel_left')
  moreover have "unat (4096 :: usize) = 4096" "(4096 * n + 4096 - 1) div 4096 = n" by simp_all
  ultimately have len: "(unat y - unat x + unat (4096 :: usize) - 1) div unat (4096 :: usize) = n"
    by (simp only:)
  have "x = of_nat (4096 * a)"
    unfolding assms(1) [symmetric] by simp
  then have "x + of_nat i * 4096 = page_at (a + i)" for i
    by (simp add: page_at_def push_bit_eq_mult algebra_simps)
  then show ?thesis
    unfolding range_step_def len by (simp add: list_eq_iff_nth_eq)
qed

lemma align_up_code: "(x + 4095) AND - 4096 = page_align_up x"
  by (simp add: page_align_up_def algebra_simps)

section \<open>Pages on demand\<close>

definition blank_seg :: "pte_flags \<Rightarrow> nat \<Rightarrow> elf_phdr" where
  "blank_seg fl v = \<lparr>ph_type_load = Some True, ph_vaddr = page_at v, ph_memsz = 4096, ph_filesz = 0, ph_offset = 0,
     ph_read = fl AND PTE_R \<noteq> 0, ph_write = fl AND PTE_W \<noteq> 0, ph_exec = fl AND PTE_X \<noteq> 0\<rparr>"

definition blank_pages :: "pte_flags \<Rightarrow> nat set \<Rightarrow> (usize \<times> elf_phdr) set" where
  "blank_pages fl V = (\<lambda>v. (page_at v, blank_seg fl v)) ` V"

definition user_flags :: "pte_flags \<Rightarrow> bool" where
  "user_flags fl \<longleftrightarrow> (\<forall>v. phdr_flags (blank_seg fl v) = fl)"

lemma user_flags_brk: "user_flags (PTE_U OR PTE_R OR PTE_W)"
  by (simp add: user_flags_def phdr_flags_def blank_seg_def pte_flag_defs)

lemma user_flags_mmap: "user_flags (mmap_flags prot)"
  by (simp add: user_flags_def phdr_flags_def blank_seg_def mmap_flags_def pte_flag_defs)

lemma blank_seg_page:
  assumes "v < 2 ^ 27"
  shows "seg_ok (blank_seg fl v)" "page_in_seg (blank_seg fl v) (page_at v)" "seg_byte m data (blank_seg fl v) va = 0"
    "source_kept s r t data (blank_seg fl v)"
proof -
  note u = page_at_unat(1) [OF assms]
  show ok: "seg_ok (blank_seg fl v)"
    using assms by (simp add: seg_ok_def blank_seg_def u)
  have nf: "\<not> in_file (blank_seg fl v) va" for va
    by (simp add: in_file_def blank_seg_def word_le_nat_alt)
  then show "seg_byte m data (blank_seg fl v) va = 0" "source_kept s r t data (blank_seg fl v)"
    by (simp_all add: seg_byte_def source_kept_def)
  have "unat (sat_add (page_at v) 4096) = 4096 * v + 4096"
    using seg_ends(1) [OF ok] by (simp add: blank_seg_def u)
  moreover from this have "sat_add (page_at v) 4096 \<noteq> 0" by auto
  ultimately have "unat (sat_add (page_at v) 4096 - 1) = 4096 * v + 4095"
    by (simp add: unat_minus_one)
  then have "last_page (blank_seg fl v) = page_at v"
    using page_align_at [of "sat_add (page_at v) 4096 - 1"] by (simp add: last_page_def blank_seg_def page_align_down_def)
  moreover have "first_page (blank_seg fl v) = page_at v"
    using page_at_aligned [OF assms] by (simp add: first_page_def blank_seg_def page_align_down_def)
  ultimately show "page_in_seg (blank_seg fl v) (page_at v)"
    using page_at_aligned [OF assms] by (simp add: page_in_seg_def page_align_down_def)
qed

lemma map_missing_cases:
  assumes l: "loaded s0 (root_ppn pt) 0 (blank_pages fl V) t" and v: "v < 2 ^ 27" and fl: "user_flags fl"
  obtains (mapped) "pt_translate (ram t) pt (page_at v) \<noteq> None" "map_missing pt fl t (page_at v) = Inr t"
  | (full) "pt_translate (ram t) pt (page_at v) = None" "frames_limit t < frames_used t + 1"
      "map_missing pt fl t (page_at v) = Inr t"
  | (panic) "frames_limit t < frames_used t + 3"
      "map_missing pt fl t (page_at v) = Inl (Panic ''out of memory mapping page'')"
  | (ok) w where "pt_translate (ram t) pt (page_at v) = None" "map_missing pt fl t (page_at v) = Inr w"
      "loaded s0 (root_ppn pt) 0 (blank_pages fl (insert v V)) w"
      "frames_used w \<le> frames_used t + 3" "frames_limit w = frames_limit t"
proof (cases "pt_translate (ram t) pt (page_at v) = None")
  case True
  let ?r = "root_ppn pt"
  have tinv: "pt_inv t ?r" using l by (simp add: loaded_def)
  then have fok: "frames_ok t" by (simp add: pt_inv_def)
  show thesis
  proof (cases rule: alloc_page_frame_cases [OF fok])
    case 1
    then show thesis using True by (intro full) (simp_all add: map_missing_def)
  next
    case (2 u f)
    note ok = 2
    let ?x = "(page_at v, push_bit 12 f, fl) :: mapping_req"
    have "\<forall>a. allocated t (drop_bit 12 a) \<longrightarrow> ram u a = ram t a"
      using ok(3,5,7) by (auto simp: write_bytes_page)
    note st = pt_stable [OF tinv ok(4,12) this]
    have run: "map_missing pt fl t (page_at v) = pt_map_entry pt u ?x"
      using True ok(1) by (simp add: map_missing_def pt_map_as_entry)
    have cnt: "card (req_tables ?x - table_paths ?r u) \<le> 2" by (rule card_req_tables)
    show thesis
    proof (cases rule: pt_map_entry_cases [OF st(1), of ?x])
      case 1
      then show thesis using cnt ok(8,9) run by (intro panic) simp_all
    next
      case 2
      then show thesis using True st(3) by (simp add: pt_translate_view req_key_def)
    next
      case (3 w)
      then have m: "pt_map u pt (page_at v) (push_bit 12 f) fl = Inr w" by (simp add: pt_map_as_entry)
      obtain g where g: "fresh_mapped t ?r (page_at v) fl g w"
        by (rule fresh_page_mapped [OF tinv ok(1) m])
      then have "fresh_mapped t ?r (page_at v) (phdr_flags (blank_seg fl v)) g w"
        using fl by (simp add: user_flags_def)
      then have "loaded s0 ?r 0 (insert (page_at v, blank_seg fl v) (blank_pages fl V)) w"
        by (rule load_blank_step [OF l]) (rule blank_seg_page(3) [OF v])
      then show thesis
        using 3(1,6) cnt ok(8) run g True
        by (intro that(4) [of w]) (simp_all add: blank_pages_def fresh_mapped_def)
    qed
  qed
qed (auto intro: mapped simp: map_missing_def)

text \<open>With three frames for each page the loop maps exactly the pages that were missing.\<close>

lemma map_missing_fold:
  assumes "loaded s0 (root_ppn pt) 0 (blank_pages fl V) t" "user_flags fl" "distinct vs" "set vs \<inter> V = {}"
    and "set vs \<union> V \<subseteq> {..<2 ^ 27}" "frames_used t + 3 * length vs \<le> frames_limit t"
  shows "\<exists>w. res_fold (map_missing pt fl) t (map page_at vs) = Inr w \<and>
    loaded s0 (root_ppn pt) 0 (blank_pages fl (V \<union> {v \<in> set vs. pt_translate (ram s0) pt (page_at v) = None})) w"
  using assms
proof (induction vs arbitrary: t V)
  case (Cons v vs)
  have v: "v < 2 ^ 27" using Cons.prems(5) by simp
  have "\<forall>(p, ph) \<in> blank_pages fl V. \<not> same_vpage (page_at v) p"
    using Cons.prems(4,5) v same_vpage_at [of "page_at v"] by (auto simp: blank_pages_def page_at_unat)
  then have tr: "pt_translate (ram t) pt (page_at v) = pt_translate (ram s0) pt (page_at v)"
    by (rule loaded_other [OF Cons.prems(1)])
  show ?case
  proof (cases rule: map_missing_cases [OF Cons.prems(1) v Cons.prems(2)])
    case 1
    then have "{u \<in> set (v # vs). pt_translate (ram s0) pt (page_at u) = None} =
        {u \<in> set vs. pt_translate (ram s0) pt (page_at u) = None}"
      using tr by auto
    then show ?thesis
      using 1(2) Cons.IH [OF Cons.prems(1,2)] Cons.prems by simp
  next
    case (4 w)
    have "{u \<in> set (v # vs). pt_translate (ram s0) pt (page_at u) = None} =
        insert v {u \<in> set vs. pt_translate (ram s0) pt (page_at u) = None}"
      using tr 4(1) by auto
    then show ?thesis
      using 4 Cons.IH [OF 4(3) Cons.prems(2)] Cons.prems by simp
  qed (use Cons.prems(6) in simp_all)
qed simp

text \<open>
  What the caller sees afterwards: every missing page from \<open>a\<close> up to \<open>b\<close> is on a frame of its own that
  was not in use, all zeros, with the rights \<open>fl\<close>; every other address translates as before; and
  the frames in use, page tables aside, hold what they held.
\<close>

definition added :: "mm_state \<Rightarrow> page_table \<Rightarrow> usize \<Rightarrow> usize \<Rightarrow> usize \<Rightarrow> bool" where
  "added s pt a b va \<longleftrightarrow> a \<le> va \<and> va < b \<and> pt_translate (ram s) pt va = None"

definition pages_added :: "mm_state \<Rightarrow> page_table \<Rightarrow> pte_flags \<Rightarrow> usize \<Rightarrow> usize \<Rightarrow> mm_state \<Rightarrow> bool" where
  "pages_added s pt fl a b s' \<longleftrightarrow>
     pt_inv s' (root_ppn pt) \<and>
     (\<forall>va. added s pt a b va \<longrightarrow>
        (\<exists>pa. pt_translate (ram s') pt va = Some pa \<and> \<not> allocated s (drop_bit 12 pa) \<and> ram s' pa = 0 \<and>
           va_flags s' pt va = fl OR PTE_V OR PTE_A OR PTE_D)) \<and>
     (\<forall>va va'. added s pt a b va \<longrightarrow> added s pt a b va' \<longrightarrow>
        pt_translate (ram s') pt va = pt_translate (ram s') pt va' \<longrightarrow> va = va') \<and>
     (\<forall>va. unat va < 2 ^ 39 \<longrightarrow> \<not> added s pt a b va \<longrightarrow> pt_translate (ram s') pt va = pt_translate (ram s) pt va) \<and>
     (\<forall>pa. allocated s (drop_bit 12 pa) \<longrightarrow> drop_bit 12 pa \<notin> pt_tables (ram s) (root_ppn pt) \<longrightarrow> ram s' pa = ram s pa)"

lemma translate_page:
  fixes s :: mm_state
  shows "pt_translate (ram s) pt (page_at (unat va div 4096)) = None \<longleftrightarrow> pt_translate (ram s) pt va = None"
  unfolding page_align_at [symmetric] pt_translate_view by (simp add: align_down_parts)

lemma page_or_low: "(push_bit 12 p OR (va AND 4095)) AND 4095 = (va :: usize) AND 4095"
proof -
  have "(4095 :: usize) = mask 12" by (simp add: mask_eq_exp_minus_1)
  then show ?thesis by (simp only:) (auto simp: bit_eq_iff bit_simps)
qed

lemma translate_low:
  fixes s :: mm_state
  shows "pt_translate (ram s) pt va = Some pa \<Longrightarrow> pa AND 4095 = va AND 4095"
  by (auto simp: pt_translate_view page_or_low)

lemma loaded_va_inj:
  assumes l: "loaded s0 (root_ppn pt) data D t"
    and "\<exists>ph. (page_align_down va, ph) \<in> D" "\<exists>ph. (page_align_down va', ph) \<in> D"
    and tr: "pt_translate (ram t) pt va = pt_translate (ram t) pt va'"
    and pages: "same_vpage (page_align_down va) (page_align_down va') \<Longrightarrow> page_align_down va = page_align_down va'"
  shows "va = va'"
proof -
  obtain ph ph' where x: "(page_align_down va, ph) \<in> D" and y: "(page_align_down va', ph') \<in> D"
    using assms(2,3) by blast
  obtain pa where pa: "pt_translate (ram t) pt va = Some pa" "drop_bit 12 pa = loaded_frame (root_ppn pt) t va"
      "drop_bit 12 pa = loaded_frame (root_ppn pt) t va'"
    using page_loaded_byte [OF loaded_page [OF l x]] page_loaded_byte [OF loaded_page [OF l y]] tr by auto
  then have "loaded_frame (root_ppn pt) t (page_align_down va) = loaded_frame (root_ppn pt) t (page_align_down va')"
    by (simp add: loaded_frame_def align_down_parts)
  moreover have "frames_apart (root_ppn pt) t D" using l unfolding loaded_def by (elim conjE)
  ultimately have "same_vpage (page_align_down va) (page_align_down va')"
    using x y unfolding frames_apart_def by (metis fst_conv)
  moreover have "va AND 4095 = va' AND 4095"
    using pa(1) tr translate_low [of t pt va pa] translate_low [of t pt va' pa] by simp
  ultimately show ?thesis
    using pages align_down_parts(2) by metis
qed

lemma loaded_pages_added:
  assumes l: "loaded s (root_ppn pt) 0 (blank_pages fl {v \<in> {x..<y}. pt_translate (ram s) pt (page_at v) = None}) s'"
    and y: "y < 2 ^ 27" and fl: "user_flags fl" and ab: "unat a = 4096 * x" "unat b = 4096 * y"
  shows "pages_added s pt fl a b s'"
proof -
  let ?V = "{v \<in> {x..<y}. pt_translate (ram s) pt (page_at v) = None}"
  have num: "added s pt a b va \<longleftrightarrow> unat va div 4096 \<in> ?V" for va
    by (auto simp: added_def word_le_nat_alt word_less_nat_alt ab translate_page)
  have lt: "unat va < 2 ^ 39" if "added s pt a b va" for va
    using that y by (simp add: added_def word_less_nat_alt ab)
  have entry: "\<exists>pa. pt_translate (ram s') pt va = Some pa \<and> \<not> allocated s (drop_bit 12 pa) \<and> ram s' pa = 0 \<and>
      va_flags s' pt va = fl OR PTE_V OR PTE_A OR PTE_D \<and> drop_bit 12 pa = loaded_frame (root_ppn pt) s' va"
    if "added s pt a b va" for va
  proof -
    have v: "unat va div 4096 < 2 ^ 27" "(page_align_down va, blank_seg fl (unat va div 4096)) \<in> blank_pages fl ?V"
      using that y unfolding num blank_pages_def page_align_at by auto
    show ?thesis
      using page_loaded_byte [OF loaded_page [OF l v(2)]] blank_seg_page(3) [OF v(1)] fl by (simp add: user_flags_def)
  qed
  have apart: "va = va'" if va: "added s pt a b va" "added s pt a b va'"
    "pt_translate (ram s') pt va = pt_translate (ram s') pt va'" for va va'
  proof (rule loaded_va_inj [OF l _ _ va(3)])
    show "\<exists>ph. (page_align_down va, ph) \<in> blank_pages fl ?V" "\<exists>ph. (page_align_down va', ph) \<in> blank_pages fl ?V"
      using va(1,2) unfolding num blank_pages_def page_align_at by auto
    show "same_vpage (page_align_down va) (page_align_down va') \<Longrightarrow> page_align_down va = page_align_down va'"
      using va(1,2) lt y same_vpage_at [of "page_align_down va" "unat va' div 4096"] unfolding num
      by (simp add: page_align_at page_at_unat)
  qed
  have other: "pt_translate (ram s') pt va = pt_translate (ram s) pt va" if "unat va < 2 ^ 39" "\<not> added s pt a b va" for va
    using that y num same_vpage_at by (intro loaded_other [OF l]) (auto simp: blank_pages_def)
  have "\<forall>pa. allocated s (drop_bit 12 pa) \<longrightarrow> drop_bit 12 pa \<notin> pt_tables (ram s) (root_ppn pt) \<longrightarrow> ram s' pa = ram s pa"
    using l unfolding loaded_def by (elim conjE)
  moreover have "pt_inv s' (root_ppn pt)"
    using l unfolding loaded_def by (elim conjE)
  ultimately show ?thesis
    using apart other entry unfolding pages_added_def by blast
qed

lemma map_missing_range:
  assumes "pt_inv s (root_ppn pt)" "user_flags fl" "unat a = 4096 * x" "unat b = 4096 * (x + n)" "x + n < 2 ^ 27"
    and "frames_used s + 3 * n \<le> frames_limit s"
  obtains s' where "res_fold (map_missing pt fl) s (map page_at [x..<x + n]) = Inr s'" "pages_added s pt fl a b s'"
proof -
  have "loaded s (root_ppn pt) 0 (blank_pages fl {}) s"
    using loaded_start [OF assms(1)] by (simp add: blank_pages_def)
  from map_missing_fold [OF this assms(2), of "[x..<x + n]"] obtain s' where
      run: "res_fold (map_missing pt fl) s (map page_at [x..<x + n]) = Inr s'"
      and l: "loaded s (root_ppn pt) 0 (blank_pages fl {v \<in> {x..<x + n}. pt_translate (ram s) pt (page_at v) = None}) s'"
    using assms(5,6) by (auto simp: subset_eq)
  show thesis
    by (rule that [OF run loaded_pages_added [OF l assms(5,2,3,4)]])
qed

lemma map_missing_no_frames:
  assumes "frames_ok s" "frames_limit s < frames_used s + 1"
  shows "res_fold (map_missing pt fl) s ps = Inr s"
proof -
  have "alloc_page s = (None, s)"
    by (cases rule: alloc_page_frame_cases [OF assms(1)])
      (use assms(2) in \<open>auto simp: frames_ok_def frames_used_def frames_limit_def word_le_nat_alt dest: div_le_mono [of _ _ 4096]\<close>)
  then have "map_missing pt fl s p = Inr s" for p
    by (simp add: map_missing_def)
  then show ?thesis by (induction ps) simp_all
qed

section \<open>The break\<close>

definition set_brk :: "('s, 'h) kernel \<Rightarrow> usize \<Rightarrow> ('s, 'h) kernel" where
  "set_brk k a = k\<lparr>k_procs := bt_modify (k_procs k) (k_current k) (\<lambda>p. p\<lparr>p_brk := a\<rparr>)\<rparr>"

lemma bt_modify_const: "bt_get m k = Some v \<Longrightarrow> bt_modify m k (\<lambda>_. f v) = bt_modify m k f"
  by (induction m k f rule: bt_modify.induct) (auto simp: bt_get_def)

lemma bt_modify_same: "bt_get m k = Some v \<Longrightarrow> bt_modify m k (\<lambda>_. v) = m"
  by (induction m) (auto simp: bt_get_def split: if_splits)

lemma sys_brk_eq:
  assumes "bt_get (k_procs k) (k_current k) = Some p" "b = (if p_brk p = 0 then 0x10000 else p_brk p)"
  shows "sys_brk k addr =
    (if addr = 0 then Inr (b, set_brk k b)
     else res_bind (brk_pages (k_mm k) (p\<lparr>p_brk := b\<rparr>) addr) (\<lambda>s. Inr (addr, (set_brk k addr)\<lparr>k_mm := s\<rparr>)))"
proof -
  have "bt_modify (k_procs k) (k_current k) (\<lambda>_. p\<lparr>p_brk := a\<rparr>) = k_procs (set_brk k a)" for a
    using bt_modify_const [OF assms(1)] by (simp add: set_brk_def)
  moreover have "(if p_brk p = 0 then p\<lparr>p_brk := 0x10000\<rparr> else p) = p\<lparr>p_brk := b\<rparr>"
    using assms(2) by simp
  ultimately show ?thesis
    using assms(1) by (simp add: sys_brk_def with_current_proc_def res_bind_def set_brk_def Let_def split: sum.split)
qed

text \<open>
  C13. The program break.  A process that asks for its break gets it, one that lowers the break only has it
  recorded, and one that raises it, with memory left, gets every missing page between the old and the new
  break: writable, zeroed, on frames nobody used, one frame each; no other translation changes and
  no byte of a frame in use outside the page tables does.
\<close>

theorem sys_brk_correct:
  assumes "bt_get (k_procs k) (k_current k) = Some p" "b = (if p_brk p = 0 then 0x10000 else p_brk p)"
  shows "sys_brk k 0 = Inr (b, set_brk k b) \<and>
    (0 < addr \<longrightarrow> addr \<le> b \<longrightarrow> sys_brk k addr = Inr (addr, set_brk k addr)) \<and>
    (b < addr \<longrightarrow> unat addr \<le> 2 ^ 38 \<longrightarrow> pt_inv (k_mm k) (root_ppn (p_page_table p)) \<longrightarrow>
      frames_used (k_mm k) + 3 * (unat (page_align_up addr - page_align_up b) div 4096) \<le> frames_limit (k_mm k) \<longrightarrow>
      (\<exists>s'. sys_brk k addr = Inr (addr, (set_brk k addr)\<lparr>k_mm := s'\<rparr>) \<and>
        pages_added (k_mm k) (p_page_table p) (PTE_U OR PTE_R OR PTE_W) (page_align_up b) (page_align_up addr) s'))"
proof (intro conjI impI)
  note eq = sys_brk_eq [OF assms]
  show "sys_brk k 0 = Inr (b, set_brk k b)" by (simp add: eq)
  show "sys_brk k addr = Inr (addr, set_brk k addr)" if "0 < addr" "addr \<le> b"
    using that by (auto simp: eq brk_pages_def set_brk_def dest: leD)
  assume up: "b < addr" "unat addr \<le> 2 ^ 38" and inv: "pt_inv (k_mm k) (root_ppn (p_page_table p))"
    and room: "frames_used (k_mm k) + 3 * (unat (page_align_up addr - page_align_up b) div 4096) \<le> frames_limit (k_mm k)"
  let ?x = "(unat b + 4095) div 4096" and ?y = "(unat addr + 4095) div 4096"
  have lt: "unat b < unat addr" using up(1) by (simp add: word_less_nat_alt)
  have le: "?x \<le> ?y" using lt by (simp add: div_le_mono)
  have u: "unat (page_align_up b) = 4096 * ?x" "unat (page_align_up addr) = 4096 * (?x + (?y - ?x))" "?y < 2 ^ 27"
    using lt up(2) le by (simp_all add: unat_page_align_up)
  have "unat (page_align_up addr - page_align_up b) = 4096 * (?y - ?x)"
    using u(1,2) le by (subst unat_sub) (simp_all add: word_le_nat_alt diff_mult_distrib2)
  then have "frames_used (k_mm k) + 3 * (?y - ?x) \<le> frames_limit (k_mm k)"
    using room by simp
  then obtain s' where "res_fold (map_missing (p_page_table p) (PTE_U OR PTE_R OR PTE_W)) (k_mm k)
        (map page_at [?x..<?x + (?y - ?x)]) = Inr s'"
      "pages_added (k_mm k) (p_page_table p) (PTE_U OR PTE_R OR PTE_W) (page_align_up b) (page_align_up addr) s'"
    using map_missing_range [OF inv user_flags_brk u(1,2)] u(3) le by auto
  then show "\<exists>s'. sys_brk k addr = Inr (addr, (set_brk k addr)\<lparr>k_mm := s'\<rparr>) \<and>
      pages_added (k_mm k) (p_page_table p) (PTE_U OR PTE_R OR PTE_W) (page_align_up b) (page_align_up addr) s'"
    using up(1) by (auto simp: eq brk_pages_def align_up_code range_step_pages [OF u(1,2)])
qed

text \<open>
  Without a free frame \<^verbatim>\<open>brk\<close> still answers with the requested break and records it, although it
  has mapped nothing: the caller learns of it by a page fault.
\<close>

theorem sys_brk_no_frames:
  assumes "bt_get (k_procs k) (k_current k) = Some p" "frames_ok (k_mm k)" "0 < addr"
    and "frames_limit (k_mm k) < frames_used (k_mm k) + 1"
  shows "sys_brk k addr = Inr (addr, set_brk k addr)"
  using assms(3) map_missing_no_frames [OF assms(2,4)]
  by (simp add: sys_brk_eq [OF assms(1) refl] brk_pages_def set_brk_def Let_def)

text \<open>A process with an empty address space, for the examples.\<close>

definition mem_kernel :: "mm_state \<Rightarrow> page_table \<Rightarrow> (unit, unit) kernel" where
  "mem_kernel s pt = demo_kernel\<lparr>k_mm := s, k_procs := [(1, (demo_proc 1 Running)\<lparr>p_page_table := pt\<rparr>)], k_satp := satp_of pt\<rparr>"

lemma mem_kernel_fields:
  "bt_get (k_procs (mem_kernel s pt)) (k_current (mem_kernel s pt)) = Some ((demo_proc 1 Running)\<lparr>p_page_table := pt\<rparr>)"
  "k_mm (mem_kernel s pt) = s" "k_mmap_base (mem_kernel s pt) = 0" "k_satp (mem_kernel s pt) = satp_of pt"
  "p_brk (demo_proc 1 Running) = 0x20000"
  by (simp_all add: mem_kernel_def demo_kernel_def demo_proc_def bt_get_def)

theorem sys_brk_correct_witness:
  "\<exists>pt s s' pa. page_table_new demo_mm = (Some pt, s) \<and>
     sys_brk (mem_kernel s pt) 0x21800 = Inr (0x21800, (set_brk (mem_kernel s pt) 0x21800)\<lparr>k_mm := s'\<rparr>) \<and>
     pt_translate (ram s') pt 0x21fff = Some pa \<and> ram s' pa = 0 \<and> pt_translate (ram s') pt 0x22000 = None"
proof -
  obtain pt s where new: "page_table_new demo_mm = (Some pt, s)" "pt_inv s (root_ppn pt)"
    "\<And>k. pt_view (root_ppn pt) s k = None" "frames_used s + 1000 \<le> frames_limit s"
    using demo_new_pt by metis
  have up: "page_align_up 0x20000 = 0x20000" "page_align_up 0x21800 = 0x22000" by (simp_all add: page_align_up_def)
  have none: "pt_translate (ram s) pt va = None" for va by (simp add: pt_translate_view new(3))
  obtain s' where s': "sys_brk (mem_kernel s pt) 0x21800 = Inr (0x21800, (set_brk (mem_kernel s pt) 0x21800)\<lparr>k_mm := s'\<rparr>)"
      "pages_added s pt (PTE_U OR PTE_R OR PTE_W) 0x20000 0x22000 s'"
    using sys_brk_correct [where k = "mem_kernel s pt" and addr = "0x21800", OF mem_kernel_fields(1) refl] new(2,4)
    by (auto simp: mem_kernel_fields up)
  moreover have "added s pt 0x20000 0x22000 0x21fff" "\<not> added s pt 0x20000 0x22000 0x22000"
    by (simp_all add: added_def none)
  ultimately obtain pa where "pt_translate (ram s') pt 0x21fff = Some pa" "ram s' pa = 0"
    unfolding pages_added_def by blast
  moreover have "unat (0x22000 :: usize) < 2 ^ 39 \<longrightarrow> pt_translate (ram s') pt 0x22000 = pt_translate (ram s) pt 0x22000"
    using s'(2) \<open>\<not> added s pt 0x20000 0x22000 0x22000\<close> unfolding pages_added_def by blast
  then have "pt_translate (ram s') pt 0x22000 = None" by (simp add: none)
  ultimately show ?thesis
    using new(1) s'(1) by blast
qed

section \<open>Anonymous mappings\<close>

text \<open>
  The memory-management unit, as the privileged specification has it, for the kernel's own stores with
  \<^verbatim>\<open>sstatus.SUM\<close> set: below the middle of the address space it follows the page table that \<^verbatim>\<open>satp\<close> names,
  through an entry that is valid, readable, writable, accessed and dirty.
\<close>

definition mmu_stores :: "('s, 'h) env \<Rightarrow> bool" where
  "mmu_stores E \<longleftrightarrow>
     (\<forall>(s :: mm_state) pt va pa. unat (root_ppn pt) < 2 ^ 44 \<longrightarrow> unat va < 2 ^ 38 \<longrightarrow>
        pt_translate (ram s) pt va = Some pa \<longrightarrow>
        (PTE_V OR PTE_R OR PTE_W OR PTE_A OR PTE_D) AND va_flags s pt va = PTE_V OR PTE_R OR PTE_W OR PTE_A OR PTE_D \<longrightarrow>
        mmu E (ram s) (satp_of pt) True va = Some pa)"

lemma vstore_zeros:
  assumes "\<And>i. i < n \<Longrightarrow> \<exists>pa. mmu E (kram k) (k_satp k) True (va + of_nat i) = Some pa \<and> kram k pa = 0"
  shows "vstore E k va (replicate n 0) = Inr k"
  using assms
proof (induction n arbitrary: va)
  case (Suc n)
  obtain pa where pa: "mmu E (kram k) (k_satp k) True va = Some pa" "kram k pa = 0"
    using Suc.prems [of 0] by auto
  have same: "set_ram k ((kram k)(pa := 0)) = k"
    using fun_upd_idem [of "kram k" pa 0] pa(2) by simp
  have "vstore E k (va + 1) (replicate n 0) = Inr k"
    using Suc.prems [of "Suc _"] by (intro Suc.IH) (simp add: add.assoc)
  then show ?case
    using pa(1) by (simp add: same)
qed simp

lemma mmap_flags_rw:
  assumes "prot AND 1 \<noteq> 0" "prot AND 2 \<noteq> 0"
  shows "(PTE_V OR PTE_R OR PTE_W OR PTE_A OR PTE_D) AND (mmap_flags prot OR PTE_V OR PTE_A OR PTE_D) =
    PTE_V OR PTE_R OR PTE_W OR PTE_A OR PTE_D"
  using assms by (simp add: mmap_flags_def pte_flag_defs)

lemma res_fold_map: "res_fold (\<lambda>s x. f s (g x)) s xs = res_fold f s (map g xs)"
  by (induction xs arbitrary: s) (auto split: sum.split)

lemma mmap_pages_added:
  assumes cur: "bt_get (k_procs k) (k_current k) = Some p" and inv: "pt_inv (k_mm k) (root_ppn (p_page_table p))"
    and al: "unat base mod 4096 = 0" and lt: "unat base + unat len + 0x1000 \<le> 2 ^ 38"
    and room: "frames_used (k_mm k) + 3 * (unat (page_align_up len) div 4096) \<le> frames_limit (k_mm k)"
  obtains s' where "mmap_pages k base (page_align_up len) prot = Inr (k\<lparr>k_mm := s'\<rparr>)"
    "pages_added (k_mm k) (p_page_table p) (mmap_flags prot) base (base + page_align_up len) s'"
    "unat (base + page_align_up len) = unat base + unat (page_align_up len)"
    "unat base + unat (page_align_up len) < 2 ^ 38 + 1"
proof -
  define x n where "x = unat base div 4096" and "n = (unat len + 4095) div 4096"
  have u: "unat base = 4096 * x" "unat (page_align_up len) = 4096 * n"
    using al lt mult_div_mod_eq [of 4096 "unat base"] by (simp_all add: x_def n_def unat_page_align_up)
  have "4096 * n \<le> unat len + 4095" by (simp add: n_def)
  then have xn: "4096 * (x + n) \<le> 2 ^ 38" "x + n < 2 ^ 27"
    using lt u(1) by simp_all
  then have e: "unat (base + page_align_up len) = 4096 * (x + n)"
    using u by (subst unat_add_noov) simp_all
  have "(base + of_nat i * 4096 :: usize) = page_at (x + i)" for i
    using arg_cong [OF u(1), of "of_nat :: nat \<Rightarrow> usize"] by (simp add: page_at_def push_bit_eq_mult algebra_simps)
  then have "map ((+) base \<circ> page_at) [0..<n] = map page_at [x..<x + n]"
    by (simp add: list_eq_iff_nth_eq) (simp add: page_at_def push_bit_eq_mult algebra_simps)
  then have pages: "map ((+) base) (range_step 0 (page_align_up len) 4096) = map page_at [x..<x + n]"
    using range_step_pages [of 0 0 "page_align_up len" n] u(2) by simp
  obtain s' where s': "res_fold (map_missing (p_page_table p) (mmap_flags prot)) (k_mm k) (map page_at [x..<x + n]) = Inr s'"
      "pages_added (k_mm k) (p_page_table p) (mmap_flags prot) base (base + page_align_up len) s'"
    using map_missing_range [OF inv user_flags_mmap u(1) e xn(2)] room u(2) by auto
  then have "mmap_pages k base (page_align_up len) prot = Inr (k\<lparr>k_mm := s'\<rparr>)"
    using cur pages bt_modify_same [OF cur] res_fold_map [where g = "(+) base" and f = "map_missing (p_page_table p) (mmap_flags prot)"]
    by (simp add: mmap_pages_def with_current_proc_def)
  then show thesis
    using s'(2) e xn(1) u by (intro that) simp_all
qed

text \<open>
  C15. Anonymous memory.  With memory left, \<^verbatim>\<open>mmap\<close> of \<open>len\<close> readable and writable bytes at no fixed place
  answers with the next unused part of the arena, advances the arena by the length in whole
  pages, and every page of the answer is then mapped with the rights asked for, zeroed, on a
  frame of its own that nobody used; nothing else in the kernel or in the address space changes.
\<close>

theorem sys_mmap_anonymous:
  assumes cur: "bt_get (k_procs k) (k_current k) = Some p" and inv: "pt_inv (k_mm k) (root_ppn (p_page_table p))"
    and base: "base = (if k_mmap_base k = 0 then 0x50000000 else k_mmap_base k)" "unat base mod 4096 = 0"
      "unat base + unat len + 0x1000 \<le> 2 ^ 38"
    and anon: "flags AND 0x10 = 0" "flags AND 0x20 \<noteq> 0" and rw: "prot AND 1 \<noteq> 0" "prot AND 2 \<noteq> 0"
    and free: "\<And>va. base \<le> va \<Longrightarrow> va < base + page_align_up len \<Longrightarrow> pt_translate (ram (k_mm k)) (p_page_table p) va = None"
    and room: "frames_used (k_mm k) + 3 * (unat (page_align_up len) div 4096) \<le> frames_limit (k_mm k)"
    and mmu: "mmu_stores E" "k_satp k = satp_of (p_page_table p)" "unat (root_ppn (p_page_table p)) < 2 ^ 44"
  shows "\<exists>s'. sys_mmap E k addr len prot flags fd off =
      Inr (base, k\<lparr>k_mm := s', k_mmap_base := base + page_align_up len\<rparr>) \<and>
    pages_added (k_mm k) (p_page_table p) (mmap_flags prot) base (base + page_align_up len) s'"
proof -
  let ?n = "page_align_up len" and ?pt = "p_page_table p"
  define k1 where "k1 = k\<lparr>k_mmap_base := base + ?n\<rparr>"
  have k1: "bt_get (k_procs k1) (k_current k1) = Some p" "k_mm k1 = k_mm k" "k_satp k1 = k_satp k"
    using cur by (simp_all add: k1_def)
  obtain s' where s': "mmap_pages k1 base ?n prot = Inr (k1\<lparr>k_mm := s'\<rparr>)"
      "pages_added (k_mm k) ?pt (mmap_flags prot) base (base + ?n) s'"
      and e: "unat (base + ?n) = unat base + unat ?n" "unat base + unat ?n < 2 ^ 38 + 1"
    by (rule mmap_pages_added [OF k1(1), of base len prot]) (use inv base room k1 in auto)
  have "\<exists>pa. mmu E (ram s') (k_satp k) True (base + of_nat i) = Some pa \<and> ram s' pa = 0" if i: "i < unat ?n" for i
  proof -
    let ?va = "base + of_nat i"
    have "unat (of_nat i :: usize) = i" using i unat_lt_2_64 [of ?n] by (simp add: unat_of_nat)
    then have va: "unat ?va = unat base + i" using i e(2) by (subst unat_add_noov) simp_all
    then have new: "added (k_mm k) ?pt base (base + ?n) ?va"
      using i e free [of ?va] by (simp add: added_def word_le_nat_alt word_less_nat_alt)
    then obtain pa where "pt_translate (ram s') ?pt ?va = Some pa" "ram s' pa = 0"
        "va_flags s' ?pt ?va = mmap_flags prot OR PTE_V OR PTE_A OR PTE_D"
      using s'(2) unfolding pages_added_def by blast
    then show ?thesis
      using mmu va i e(2) mmap_flags_rw [OF rw] by (auto simp: mmu_stores_def)
  qed
  then have "vfill E (k1\<lparr>k_mm := s'\<rparr>) base 0 ?n = Inr (k1\<lparr>k_mm := s'\<rparr>)"
    unfolding vfill_def by (intro vstore_zeros) (simp add: k1)
  moreover have "mmap_place k addr ?n flags = (base, k1)"
    using base(1) anon(1) by (simp add: mmap_place_def k1_def Let_def)
  ultimately have "sys_mmap E k addr len prot flags fd off = Inr (base, k1\<lparr>k_mm := s'\<rparr>)"
    using s'(1) anon(2) by (simp add: sys_mmap_def align_up_code)
  moreover have "k1\<lparr>k_mm := s'\<rparr> = k\<lparr>k_mm := s', k_mmap_base := base + ?n\<rparr>"
    by (simp add: k1_def)
  ultimately show ?thesis
    using s'(2) by metis
qed

definition walking_env :: "(unit, unit) env" where
  "walking_env = demo_env\<lparr>mmu := (\<lambda>m satp w va. pt_translate m \<lparr>root_ppn = take_bit 44 satp\<rparr> va)\<rparr>"

lemma walking_mmu: "mmu_stores walking_env"
proof -
  have "take_bit 44 (satp_of pt) = root_ppn pt" if "unat (root_ppn pt) < 2 ^ 44" for pt
  proof -
    have "take_bit 44 (root_ppn pt) = root_ppn pt"
      using that by (intro word_eq_unatI) (simp add: take_bit_eq_mod unat_mod)
    moreover have "take_bit 44 (push_bit 60 8 :: usize) = 0" by simp
    ultimately show ?thesis by (simp add: satp_of_def)
  qed
  moreover have "pt_translate m \<lparr>root_ppn = root_ppn pt\<rparr> va = pt_translate m pt va" for m pt va
    by (cases pt) simp
  ultimately show ?thesis by (simp add: mmu_stores_def walking_env_def)
qed

theorem sys_mmap_anonymous_witness:
  "\<exists>pt s s' pa. page_table_new demo_mm = (Some pt, s) \<and>
     sys_mmap walking_env (mem_kernel s pt) 0 0x1800 3 0x22 (- 1) 0 =
       Inr (0x50000000, (mem_kernel s pt)\<lparr>k_mm := s', k_mmap_base := 0x50002000\<rparr>) \<and>
     pt_translate (ram s') pt 0x50001fff = Some pa \<and> ram s' pa = 0"
proof -
  obtain pt s where new: "page_table_new demo_mm = (Some pt, s)" "pt_inv s (root_ppn pt)"
    "\<And>k. pt_view (root_ppn pt) s k = None" "frames_used s + 1000 \<le> frames_limit s" "frames_used s = 0x80401"
    using demo_new_pt by metis
  have up: "page_align_up 0x1800 = 0x2000" by (simp add: page_align_up_def)
  have none: "pt_translate (ram s) pt va = None" for va by (simp add: pt_translate_view new(3))
  have "allocated s (root_ppn pt)" using new(2) root_in_tables by (auto simp: pt_inv_def)
  then have root: "unat (root_ppn pt) < 2 ^ 44"
    using new(5) by (simp add: allocated_def frames_used_def)
  obtain s' where s': "sys_mmap walking_env (mem_kernel s pt) 0 0x1800 3 0x22 (- 1) 0 =
        Inr (0x50000000, (mem_kernel s pt)\<lparr>k_mm := s', k_mmap_base := 0x50002000\<rparr>)"
      "pages_added s pt (mmap_flags 3) 0x50000000 0x50002000 s'"
    using sys_mmap_anonymous [where k = "mem_kernel s pt" and len = "0x1800" and flags = "0x22" and prot = 3 and
        E = walking_env and addr = 0 and fd = "- 1" and off = 0, OF mem_kernel_fields(1) _ refl]
      new(2,4) root walking_mmu by (auto simp: mem_kernel_fields up none)
  moreover have "added s pt 0x50000000 0x50002000 0x50001fff"
    by (simp add: added_def none)
  ultimately obtain pa where "pt_translate (ram s') pt 0x50001fff = Some pa" "ram s' pa = 0"
    unfolding pages_added_def by blast
  with new(1) s'(1) show ?thesis by blast
qed

text \<open>
  Memory asked for without the right to write cannot be had: the kernel clears the new pages
  through their user mapping, and the store faults inside the kernel.
\<close>

theorem sys_mmap_readonly_faults:
  assumes cur: "bt_get (k_procs k) (k_current k) = Some p" and inv: "pt_inv (k_mm k) (root_ppn (p_page_table p))"
    and base: "base = (if k_mmap_base k = 0 then 0x50000000 else k_mmap_base k)" "unat base mod 4096 = 0"
      "unat base + unat len + 0x1000 \<le> 2 ^ 38" "0 < len"
    and anon: "flags AND 0x10 = 0" and ro: "prot AND 2 = 0"
    and free: "pt_translate (ram (k_mm k)) (p_page_table p) base = None"
    and room: "frames_used (k_mm k) + 3 * (unat (page_align_up len) div 4096) \<le> frames_limit (k_mm k)"
    and mmu: "\<And>s. va_flags s (p_page_table p) base AND PTE_W = 0 \<Longrightarrow> mmu E (ram s) (k_satp k) True base = None"
  shows "sys_mmap E k addr len prot flags fd off = Inl (PageFault base)"
proof -
  let ?n = "page_align_up len" and ?pt = "p_page_table p"
  define k1 where "k1 = k\<lparr>k_mmap_base := base + ?n\<rparr>"
  have k1: "bt_get (k_procs k1) (k_current k1) = Some p" "k_mm k1 = k_mm k" "k_satp k1 = k_satp k"
    using cur by (simp_all add: k1_def)
  obtain s' where s': "mmap_pages k1 base ?n prot = Inr (k1\<lparr>k_mm := s'\<rparr>)"
      "pages_added (k_mm k) ?pt (mmap_flags prot) base (base + ?n) s'" "unat (base + ?n) = unat base + unat ?n"
    by (rule mmap_pages_added [OF k1(1), of base len prot]) (use inv base room k1 in auto)
  have n: "0 < unat ?n"
    using base(3,4) by (simp add: unat_page_align_up word_less_nat_alt div_greater_zero_iff)
  then have "added (k_mm k) ?pt base (base + ?n) base"
    using s'(3) free by (simp add: added_def word_less_nat_alt)
  then have "va_flags s' ?pt base = mmap_flags prot OR PTE_V OR PTE_A OR PTE_D"
    using s'(2) unfolding pages_added_def by blast
  then have "va_flags s' ?pt base AND PTE_W = 0"
    using ro by (simp add: mmap_flags_def pte_flag_defs)
  then have "vfill E (k1\<lparr>k_mm := s'\<rparr>) base 0 ?n = Inl (PageFault base)"
    using n mmu [of s'] k1 by (cases "unat ?n") (simp_all add: vfill_def)
  moreover have "mmap_place k addr ?n flags = (base, k1)"
    using base(1) anon(1) by (simp add: mmap_place_def k1_def Let_def)
  ultimately show ?thesis
    using s'(1) by (simp add: sys_mmap_def align_up_code)
qed

end
