(* ===== verification/User_Stack.thy ===== *)
theory User_Stack
  imports Proc
begin

text \<open>
  The initial user stack of \<^verbatim>\<open>build_stack\<close>, read back the way the C start-up code of a program
  reads it, and the limit up to which its fixed layout holds.
\<close>

section \<open>Reading the stack\<close>

definition c_string :: "memory \<Rightarrow> usize \<Rightarrow> u8 list" where
  "c_string m p = takeWhile (\<lambda>b. b \<noteq> 0) (load_bytes m p 256)"

text \<open>
  A string pointer is an address of the new program; \<open>base\<close> is the physical address of the page
  mapped at \<open>stack\<close>.
\<close>

definition stack_strings :: "memory \<Rightarrow> usize \<Rightarrow> usize \<Rightarrow> nat \<Rightarrow> nat \<Rightarrow> u8 list list" where
  "stack_strings m base stack first n =
     map (\<lambda>i. c_string m (base + (load_u64 m (base + of_nat (8 * (first + i))) - stack))) [0..<n]"

section \<open>Strings\<close>

lemma store_bytes_snoc:
  assumes "length s < 2 ^ 64"
  shows "(store_bytes m p s)(p + of_nat (length s) := b) = store_bytes m p (s @ [b])"
proof
  fix a
  have len: "unat (of_nat (length s) :: usize) = length s"
    using assms by (simp add: unat_of_nat)
  have "a = p + of_nat (length s) \<longleftrightarrow> unat (a - p) = length s"
    using len by (metis add_diff_cancel_left' diff_add_cancel add.commute word_eq_unatI)
  then show "((store_bytes m p s)(p + of_nat (length s) := b)) a = store_bytes m p (s @ [b]) a"
    by (auto simp: store_bytes_def nth_append less_Suc_eq)
qed

lemma write_bytes_store: "write_bytes m p v n = store_bytes m p (replicate (unat n) v)"
  unfolding write_bytes_def store_bytes_def by (rule ext) (simp add: word_less_nat_alt)

lemma load_bytes_append:
  "load_bytes m p (a + b) = load_bytes m p a @ load_bytes m (p + of_nat a) b"
  by (induction b) (simp_all add: load_bytes_def add.assoc)

lemma store_strings_step:
  assumes "length s < 256"
  shows "store_strings m base (of_nat c) (s # ss) =
    store_strings (store_bytes m (base + of_nat c) (s @ [0])) base (of_nat (c + 256)) ss"
  using store_bytes_snoc [of s m "base + of_nat c" 0] assms by simp

lemma store_strings_off: "fst (store_strings m base off ss) = off + of_nat (256 * length ss)"
proof (induction ss arbitrary: m off)
  case (Cons s ss)
  then show ?case by (simp add: Let_def)
qed simp

lemma store_strings_outside:
  assumes "\<forall>s \<in> set ss. length s < 256" "c + 256 * length ss \<le> 2 ^ 64" "d < 2 ^ 64"
    "d < c \<or> c + 256 * length ss \<le> d"
  shows "snd (store_strings m base (of_nat c) ss) (base + of_nat d) = m (base + of_nat d)"
  using assms
proof (induction ss arbitrary: m c)
  case (Cons s ss)
  have s: "length s < 256" using Cons.prems(1) by simp
  have "snd (store_strings (store_bytes m (base + of_nat c) (s @ [0])) base (of_nat (c + 256)) ss) (base + of_nat d) =
      store_bytes m (base + of_nat c) (s @ [0]) (base + of_nat d)"
    using Cons.prems by (intro Cons.IH) auto
  also have "\<dots> = m (base + of_nat d)"
    using Cons.prems s by (subst store_bytes_window) auto
  finally show ?case
    unfolding store_strings_step [OF s] .
qed simp

lemma store_strings_inside:
  assumes "\<forall>s \<in> set ss. length s < 256" "c + 256 * length ss \<le> 2 ^ 64"
    "i < length ss" "j \<le> length (ss ! i)"
  shows "snd (store_strings m base (of_nat c) ss) (base + of_nat (c + 256 * i + j)) = (ss ! i @ [0]) ! j"
  using assms
proof (induction ss arbitrary: m c i)
  case (Cons s ss)
  have s: "length s < 256" using Cons.prems(1) by simp
  let ?m = "store_bytes m (base + of_nat c) (s @ [0])"
  show ?case
  proof (cases i)
    case 0
    have "snd (store_strings ?m base (of_nat (c + 256)) ss) (base + of_nat (c + j)) = ?m (base + of_nat (c + j))"
      using Cons.prems s 0 by (intro store_strings_outside) auto
    also have "\<dots> = (s @ [0]) ! j"
      using Cons.prems s 0 by (subst store_bytes_window) auto
    finally show ?thesis
      unfolding store_strings_step [OF s] by (simp add: 0)
  next
    case (Suc i')
    have "snd (store_strings ?m base (of_nat (c + 256)) ss) (base + of_nat (c + 256 + 256 * i' + j)) =
        (ss ! i' @ [0]) ! j"
      using Cons.prems Suc by (intro Cons.IH) auto
    moreover have "c + 256 * i + j = c + 256 + 256 * i' + j"
      using Suc by simp
    ultimately show ?thesis
      unfolding store_strings_step [OF s] by (simp only: Suc nth_Cons_Suc)
  qed
qed simp

lemma store_strings_append:
  "store_strings m base c (xs @ ys) =
    store_strings (snd (store_strings m base c xs)) base (fst (store_strings m base c xs)) ys"
  by (induction xs arbitrary: m c) (simp_all add: Let_def)

section \<open>The whole page\<close>

definition stack_words :: "usize \<Rightarrow> nat \<Rightarrow> nat \<Rightarrow> usize list \<Rightarrow> usize list" where
  "stack_words stack argc envc aux =
     [of_nat argc] @ string_pointers stack 0 argc @ [0] @ string_pointers stack argc envc @ [0] @ aux"

lemma stack_words_nth:
  "length (stack_words stack a e aux) = a + e + 3 + length aux"
  "stack_words stack a e aux ! 0 = of_nat a"
  "i < a \<Longrightarrow> stack_words stack a e aux ! (1 + i) = stack + of_nat (0x400 + 256 * i)"
  "stack_words stack a e aux ! (1 + a) = 0"
  "i < e \<Longrightarrow> stack_words stack a e aux ! (a + 2 + i) = stack + of_nat (0x400 + 256 * (a + i))"
  "stack_words stack a e aux ! (a + e + 2) = 0"
  "i < length aux \<Longrightarrow> stack_words stack a e aux ! (a + e + 3 + i) = aux ! i"
  by (simp_all add: stack_words_def string_pointers_def nth_append nth_Cons' algebra_simps)

definition stack_page :: "memory \<Rightarrow> usize \<Rightarrow> usize list \<Rightarrow> u8 list list \<Rightarrow> memory" where
  "stack_page m base ws strs =
     store_bytes (snd (store_strings (store_words m (base + of_nat 0) ws) base (of_nat 0x400) strs))
       (base + of_nat 0x200) (replicate 16 0xab)"

definition stack_fits :: "usize list \<Rightarrow> u8 list list \<Rightarrow> bool" where
  "stack_fits ws strs \<longleftrightarrow> length strs \<le> 12 \<and> length ws \<le> 64 \<and> (\<forall>s \<in> set strs. length s < 256)"

lemma stack_fitsD:
  assumes "stack_fits ws strs"
  shows "length strs \<le> 12" "length ws \<le> 64" "\<forall>s \<in> set strs. length s < 256"
  using assms by (simp_all add: stack_fits_def)

lemma build_stack_eq:
  "build_stack m base stack argv envp ph pe pn en =
    (stack, stack_page m base (stack_words stack (length argv) (length envp) (aux_vector stack ph pe pn en)) (argv @ envp))"
  by (simp add: build_stack_def Let_def stack_words_def store_strings_append write_bytes_store stack_page_def
      split: prod.splits)

lemma page_words:
  assumes fits: "stack_fits ws strs" and i: "i < length ws"
  shows "load_u64 (stack_page m base ws strs) (base + of_nat (8 * i)) = ws ! i"
proof -
  note few = stack_fitsD(1,2) [OF fits] and short = stack_fitsD(3) [OF fits]
  let ?M = "stack_page m base ws strs"
  let ?m = "store_words m (base + of_nat 0) ws"
  have "load_u64 ?M (base + of_nat (8 * i)) =
      load_u64 (snd (store_strings ?m base (of_nat 0x400) strs)) (base + of_nat (8 * i))"
    unfolding stack_page_def using i few by (intro load_u64_store_bytes_window) auto
  also have "\<dots> = load_u64 ?m (base + of_nat (8 * i))"
    using i few short by (intro load_u64_window_cong store_strings_outside) auto
  also have "\<dots> = ws ! i"
    using load_u64_store_words [of 0 ws i m base] i few by simp
  finally show ?thesis .
qed

lemma page_string:
  assumes fits: "stack_fits ws strs" and i: "i < length strs" and j: "j \<le> length (strs ! i)"
  shows "stack_page m base ws strs (base + of_nat (0x400 + 256 * i + j)) = (strs ! i @ [0]) ! j"
proof -
  note few = stack_fitsD(1,2) [OF fits] and short = stack_fitsD(3) [OF fits]
  let ?M = "stack_page m base ws strs"
  have "length (strs ! i) < 256"
    using i short by simp
  then have "?M (base + of_nat (0x400 + 256 * i + j)) =
      snd (store_strings (store_words m (base + of_nat 0) ws) base (of_nat 0x400) strs) (base + of_nat (0x400 + 256 * i + j))"
    unfolding stack_page_def using i j few by (subst store_bytes_window) auto
  also have "\<dots> = (strs ! i @ [0]) ! j"
    using few by (intro store_strings_inside [OF short _ i j]) simp
  finally show ?thesis .
qed

lemma page_c_string:
  assumes fits: "stack_fits ws strs" and i: "i < length strs" and nz: "0 \<notin> set (strs ! i)"
  shows "c_string (stack_page m base ws strs) (base + of_nat (0x400 + 256 * i)) = strs ! i"
proof -
  note short = stack_fitsD(3) [OF fits]
  let ?M = "stack_page m base ws strs"
  let ?s = "strs ! i" and ?p = "base + of_nat (0x400 + 256 * i)"
  have len: "length ?s < 256"
    using i short by simp
  have "load_bytes ?M ?p (length ?s + 1) = ?s @ [0]"
  proof (rule nth_equalityI)
    fix j assume "j < length (load_bytes ?M ?p (length ?s + 1))"
    then have "j \<le> length ?s" by simp
    then show "load_bytes ?M ?p (length ?s + 1) ! j = (?s @ [0]) ! j"
      using page_string [OF fits i] by (simp add: add.assoc)
  qed simp
  then have "load_bytes ?M ?p 256 = ?s @ 0 # load_bytes ?M (?p + of_nat (length ?s + 1)) (255 - length ?s)"
    using load_bytes_append [of ?M ?p "length ?s + 1" "255 - length ?s"] len by simp
  then show ?thesis
    using nz by (simp add: c_string_def takeWhile_append2 [of "?s"] takeWhile_tail) (metis takeWhile_eq_all_conv)
qed

lemma page_random: "load_bytes (stack_page m base ws strs) (base + 0x200) 16 = replicate 16 0xab"
  using load_store_bytes [of "replicate 16 0xab" _ "base + of_nat 0x200"] by (simp add: stack_page_def)

lemma page_outside:
  assumes fits: "stack_fits ws strs" and a: "4096 \<le> a - base"
  shows "stack_page m base ws strs a = m a"
proof -
  note few = stack_fitsD(1,2) [OF fits] and short = stack_fitsD(3) [OF fits]
  let ?M = "stack_page m base ws strs"
  define d where "d = unat (a - base)"
  have d: "4096 \<le> d" "d < 2 ^ 64" "a = base + of_nat d"
    using a unsigned_less [of "a - base"] by (simp_all add: d_def word_le_nat_alt)
  have "?M a = snd (store_strings (store_words m (base + of_nat 0) ws) base (of_nat 0x400) strs) a"
    unfolding stack_page_def d(3) using d by (subst store_bytes_window) auto
  also have "\<dots> = store_words m (base + of_nat 0) ws a"
    unfolding d(3) using d few short by (intro store_strings_outside) auto
  also have "\<dots> = m a"
    unfolding d(3) using d few by (intro store_words_window) auto
  finally show ?thesis .
qed

lemma stack_strings_eq:
  assumes "\<And>i. i < n \<Longrightarrow> load_u64 m (base + of_nat (8 * (f + i))) = stack + of_nat (0x400 + 256 * (g + i))"
    "\<And>i. i < n \<Longrightarrow> c_string m (base + of_nat (0x400 + 256 * (g + i))) = xs ! i" "length xs = n"
  shows "stack_strings m base stack f n = xs"
proof (rule nth_equalityI)
  fix i assume "i < length (stack_strings m base stack f n)"
  then have "i < n" by (simp add: stack_strings_def)
  moreover have "stack + of_nat (0x400 + 256 * (g + i)) - stack = (of_nat (0x400 + 256 * (g + i)) :: usize)"
    by simp
  ultimately show "stack_strings m base stack f n ! i = xs ! i"
    using assms(1,2) [of i] unfolding stack_strings_def by (simp del: of_nat_add of_nat_mult)
qed (simp add: stack_strings_def assms(3))

text \<open>What a program finds on the page at \<open>base\<close> that is mapped at \<open>stack\<close>.\<close>

definition stack_image :: "memory \<Rightarrow> usize \<Rightarrow> usize \<Rightarrow> u8 list list \<Rightarrow> u8 list list \<Rightarrow> usize list \<Rightarrow> bool" where
  "stack_image m base stack argv envp aux \<longleftrightarrow>
     load_u64 m base = of_nat (length argv) \<and>
     stack_strings m base stack 1 (length argv) = argv \<and>
     load_u64 m (base + of_nat (8 * (1 + length argv))) = 0 \<and>
     stack_strings m base stack (length argv + 2) (length envp) = envp \<and>
     load_u64 m (base + of_nat (8 * (length argv + length envp + 2))) = 0 \<and>
     load_words m (base + of_nat (8 * (length argv + length envp + 3))) (length aux) = aux \<and>
     load_bytes m (base + 0x200) 16 = replicate 16 0xab"

lemma page_strings:
  assumes fits: "stack_fits ws strs" and zero: "\<forall>s \<in> set strs. 0 \<notin> set s"
    and ptr: "\<And>i. i < n \<Longrightarrow> f + i < length ws \<and> ws ! (f + i) = stack + of_nat (0x400 + 256 * (g + i))"
    and "g + n \<le> length strs"
  shows "stack_strings (stack_page m base ws strs) base stack f n = take n (drop g strs)"
proof (rule stack_strings_eq [where g = g])
  fix i assume i: "i < n"
  show "load_u64 (stack_page m base ws strs) (base + of_nat (8 * (f + i))) = stack + of_nat (0x400 + 256 * (g + i))"
    using page_words [OF fits] ptr [OF i] by metis
  show "c_string (stack_page m base ws strs) (base + of_nat (0x400 + 256 * (g + i))) = take n (drop g strs) ! i"
    using page_c_string [OF fits, of "g + i"] assms(4) i zero by (simp add: nth_mem)
qed (use assms(4) in simp)

lemma build_stack_image:
  assumes "length argv + length envp \<le> 12" "\<forall>s \<in> set (argv @ envp). length s < 256 \<and> 0 \<notin> set s"
    and "build_stack m base stack argv envp at_phdr phent phnum entry = (sp, m')"
  shows "sp = stack" "stack_image m' base stack argv envp (aux_vector stack at_phdr phent phnum entry)"
    "4096 \<le> x - base \<Longrightarrow> m' x = m x"
proof -
  define aux where "aux = aux_vector stack at_phdr phent phnum entry"
  define a e where "a = length argv" and "e = length envp"
  let ?ws = "stack_words stack a e aux" and ?ss = "argv @ envp"
  note nth = stack_words_nth [where stack = stack and a = a and e = e and aux = aux]
  have len: "length aux = 16" by (simp add: aux_def aux_vector_def)
  have m': "m' = stack_page m base ?ws ?ss" and "sp = stack"
    using assms(3) by (auto simp: build_stack_eq aux_def a_def e_def)
  then show "sp = stack" by simp
  have fits: "stack_fits ?ws ?ss"
    using assms(1,2) unfolding stack_fits_def nth(1) len by (auto simp: a_def e_def)
  then show "m' x = m x" if "4096 \<le> x - base"
    using page_outside that by (simp add: m')
  have zero: "\<forall>s \<in> set ?ss. 0 \<notin> set s" using assms(2) by blast
  have word: "load_u64 m' (base + of_nat (8 * i)) = ?ws ! i" if "i < a + e + 19" for i
    unfolding m' by (rule page_words [OF fits]) (use that in \<open>simp add: nth len\<close>)
  have ss: "length ?ss = a + e" "take a ?ss = argv" "drop a ?ss = envp" by (simp_all add: a_def e_def)
  have args: "stack_strings m' base stack 1 a = take a (drop 0 ?ss)"
    unfolding m' by (rule page_strings [OF fits zero]) (unfold nth(1) ss(1) add_0, simp_all only: nth(3) len, simp_all)
  have env: "stack_strings m' base stack (a + 2) e = take e (drop a ?ss)"
    unfolding m' by (rule page_strings [OF fits zero]) (unfold nth(1) ss(1), simp_all only: nth(5) len, simp_all)
  have "take e envp = envp" by (simp add: e_def)
  then have "stack_strings m' base stack 1 a = argv" "stack_strings m' base stack (a + 2) e = envp"
    using args env by (simp_all only: drop_0 ss)
  moreover have "load_words m' (base + of_nat (8 * (a + e + 3))) 16 = aux"
  proof (rule nth_equalityI)
    fix i assume "i < length (load_words m' (base + of_nat (8 * (a + e + 3))) 16)"
    then have i: "i < 16" by simp
    have "base + of_nat (8 * (a + e + 3)) + of_nat (8 * i) = base + of_nat (8 * (a + e + 3 + i))"
      by (simp add: algebra_simps)
    then show "load_words m' (base + of_nat (8 * (a + e + 3))) 16 ! i = aux ! i"
      using word [of "a + e + 3 + i"] i by (simp only: nth_load_words nth(7)) (simp add: nth(7) len)
  qed (simp add: len)
  ultimately show "stack_image m' base stack argv envp (aux_vector stack at_phdr phent phnum entry)"
    using word [of 0] word [of "1 + a"] word [of "a + e + 2"] page_random [of m base ?ws ?ss] nth(2,4,6)
    unfolding stack_image_def aux_def [symmetric] len a_def [symmetric] e_def [symmetric]
    by (simp add: m')
qed

section \<open>Properties\<close>

text \<open>
  C26. A program started with at most twelve argument and environment strings, each shorter than
  256 bytes and free of zero bytes, finds on its stack exactly what it was started with: the
  argument count, the argument strings through their pointers, a null pointer, the environment
  strings, a null pointer, the auxiliary vector, and sixteen bytes of randomness; and nothing
  outside the stack page is written.
\<close>

theorem build_stack_roundtrip:
  assumes "length argv + length envp \<le> 12" "\<forall>s \<in> set (argv @ envp). length s < 256 \<and> 0 \<notin> set s"
    and "build_stack m base stack argv envp at_phdr phent phnum entry = (sp, m')"
  shows "sp = stack \<and>
    load_u64 m' base = of_nat (length argv) \<and>
    stack_strings m' base stack 1 (length argv) = argv \<and>
    load_u64 m' (base + of_nat (8 * (1 + length argv))) = 0 \<and>
    stack_strings m' base stack (length argv + 2) (length envp) = envp \<and>
    load_u64 m' (base + of_nat (8 * (length argv + length envp + 2))) = 0 \<and>
    load_words m' (base + of_nat (8 * (length argv + length envp + 3))) 16 =
      aux_vector stack at_phdr phent phnum entry \<and>
    load_bytes m' (base + 0x200) 16 = replicate 16 0xab \<and>
    (\<forall>a. 4096 \<le> a - base \<longrightarrow> m' a = m a)"
proof -
  have "length (aux_vector stack at_phdr phent phnum entry) = 16" by (simp add: aux_vector_def)
  then show ?thesis
    using build_stack_image(1) [OF assms] build_stack_image(2) [OF assms, unfolded stack_image_def]
      build_stack_image(3) [OF assms] by (metis (no_types))
qed

theorem build_stack_roundtrip_witness:
  "stack_strings (snd (build_stack (\<lambda>_. 0) 0x80500000 stack_top [[115, 104]] [[80, 61, 47]] 64 56 2 65536))
     0x80500000 stack_top 1 1 = [[115, 104]]"
proof -
  obtain m' where "build_stack (\<lambda>_. 0) 0x80500000 stack_top [[115, 104]] [[80, 61, 47]] 64 56 2 65536 = (stack_top, m')"
    by (simp add: build_stack_eq)
  with build_stack_roundtrip [of "[[115, 104]]" "[[80, 61, 47]]" "\<lambda>_. 0" "0x80500000" stack_top 64 56 2 65536 stack_top m']
  show ?thesis by simp
qed

text \<open>
  The layout has room for twelve strings only, and nothing checks it: with a thirteenth, the
  first byte of that string is written to the physical page after the stack page, whatever that
  page belongs to.
\<close>

theorem build_stack_overrun:
  assumes "12 < length (argv @ envp)" "length (argv @ envp) < 2 ^ 32" "\<forall>s \<in> set (argv @ envp). length s < 256"
  shows "snd (build_stack m base stack argv envp at_phdr phent phnum entry) (base + 4096) =
    ((argv @ envp) ! 12 @ [0]) ! 0"
proof -
  let ?ws = "stack_words stack (length argv) (length envp) (aux_vector stack at_phdr phent phnum entry)"
  let ?ss = "argv @ envp"
  have "stack_page m base ?ws ?ss (base + of_nat 4096) =
      snd (store_strings (store_words m (base + of_nat 0) ?ws) base (of_nat 0x400) ?ss) (base + of_nat 4096)"
    unfolding stack_page_def by (subst store_bytes_window) auto
  also have "\<dots> = (?ss ! 12 @ [0]) ! 0"
    using store_strings_inside [OF assms(3), of "0x400" 12 0 "store_words m (base + of_nat 0) ?ws" base] assms(1,2)
    by simp
  finally show ?thesis
    by (simp add: build_stack_eq)
qed

theorem build_stack_overrun_witness:
  "snd (build_stack (\<lambda>_. 0) 0x80500000 stack_top (replicate 13 [65]) [] 64 56 2 65536) 0x80501000 = 65"
  using build_stack_overrun [of "replicate 13 [65]" "[]" "\<lambda>_. 0" "0x80500000" stack_top 64 56 2 65536] by simp

end
