(* ===== verification/Sys_File.thy ===== *)
theory Sys_File
  imports User_Mem
begin

text \<open>
  The system calls on files, pipes and descriptors, from \<^verbatim>\<open>src/src/syscall.rs\<close>.  Every handler takes
  the machine, the kernel and its arguments and returns the value for \<^verbatim>\<open>a0\<close> with the new kernel,
  or the way the kernel dies.  Buffers \<^verbatim>\<open>vec![0u8; count]\<close> are charged to the heap.
\<close>

section \<open>Descriptors that are not files\<close>

definition is_fake_fd :: "('s, 'h) kernel \<Rightarrow> usize \<Rightarrow> bool" where
  "is_fake_fd k fd \<longleftrightarrow> bt_get (k_fake k) fd \<noteq> None"

definition is_inet_socket :: "('s, 'h) kernel \<Rightarrow> usize \<Rightarrow> bool" where
  "is_inet_socket k fd \<longleftrightarrow> bt_get (k_fake k) fd = Some InetSocket"

section \<open>Writing\<close>

definition write_pipe ::
  "('s, 'h) env \<Rightarrow> ('s, 'h) kernel \<Rightarrow> usize \<Rightarrow> usize \<Rightarrow> usize \<Rightarrow> (isize \<times> ('s, 'h) kernel) res"
where
  "write_pipe E k pid buf count =
     (case bt_get (k_pipes k) pid of
        None \<Rightarrow> Inr (0, k)
      | Some pipe \<Rightarrow>
          res_bind (vec_zeroed k count) (\<lambda>(_, k).
          res_bind (vload E k buf (unat count)) (\<lambda>tmp.
          res_bind (pipe_write pipe tmp) (\<lambda>(n, pipe).
          Inr (n, k\<lparr>k_pipes := bt_modify (k_pipes k) pid (\<lambda>_. pipe)\<rparr>)))))"

definition write_file ::
  "('s, 'h) env \<Rightarrow> ('s, 'h) kernel \<Rightarrow> usize \<Rightarrow> open_file \<Rightarrow> usize \<Rightarrow> usize \<Rightarrow> (isize \<times> ('s, 'h) kernel) res"
where
  "write_file E k fd f buf count =
     res_bind (vec_zeroed k count) (\<lambda>(_, k).
     res_bind (vload E k buf (unat count)) (\<lambda>tmp.
     res_bind (write_inode (k_fs k) (of_inode f) tmp (of_offset f)) (\<lambda>(n, fs).
     Inr (n, k\<lparr>k_fs := fs, k_fds := fd_set (k_fds k) fd (f\<lparr>of_offset := of_offset f + n\<rparr>)\<rparr>))))"

definition sys_write :: "('s, 'h) env \<Rightarrow> ('s, 'h) kernel \<Rightarrow> isize \<Rightarrow> usize \<Rightarrow> usize \<Rightarrow> (isize \<times> ('s, 'h) kernel) res" where
  "sys_write E k fd buf count =
     (if fd = 1 \<or> fd = 2 then
        res_bind (vload E k buf (unat count)) (\<lambda>bytes.
        let s = (if utf8_valid bytes then bytes else string_bytes ''<invalid utf8>'') in
        Inr (count, console_print k s))
      else
        res_bind (if fd = 3 \<or> fd = 4 \<or> fd = 5 \<or> fd = 6 then vload E k buf (unat count) else Inr []) (\<lambda>_.
        if is_inet_socket k fd then send_to_fd E k fd buf count
        else (case fd_get (k_fds k) fd of
                None \<Rightarrow> Inr (- 1, k)
              | Some f \<Rightarrow>
                  (case of_pipe_id f of
                     Some pid \<Rightarrow> write_pipe E k pid buf count
                   | None \<Rightarrow> write_file E k fd f buf count))))"

fun writev_loop ::
  "('s, 'h) env \<Rightarrow> isize \<Rightarrow> usize \<Rightarrow> nat \<Rightarrow> usize \<Rightarrow> isize \<Rightarrow> ('s, 'h) kernel \<Rightarrow> (isize \<times> ('s, 'h) kernel) res"
where
  "writev_loop E fd iov 0 i tot k = Inr (tot, k)"
| "writev_loop E fd iov (Suc left) i tot k =
     (let ptr = iov + i * 16 in
      res_bind (vload_u64 E k ptr) (\<lambda>base.
      res_bind (vload_u64 E k (ptr + 8)) (\<lambda>len.
      if len = 0 then writev_loop E fd iov left (i + 1) tot k
      else
        res_bind (sys_write E k fd base len) (\<lambda>(n, k).
        if sint n < 0 then Inr (if tot = 0 then n else tot, k)
        else if n < len then Inr (tot + n, k)
        else writev_loop E fd iov left (i + 1) (tot + n) k))))"

definition sys_writev :: "('s, 'h) env \<Rightarrow> ('s, 'h) kernel \<Rightarrow> isize \<Rightarrow> usize \<Rightarrow> usize \<Rightarrow> (isize \<times> ('s, 'h) kernel) res" where
  "sys_writev E k fd iov iovcnt = writev_loop E fd iov (unat iovcnt) 0 0 k"

section \<open>Reading\<close>

text \<open>Echoing a character; carriage return becomes line feed in the buffer.\<close>

definition stdin_echo :: "u8 \<Rightarrow> u8 \<times> u8 list" where
  "stdin_echo c =
     (if c = 13 \<or> c = 10 then (10, [13, 10])
      else if 0x20 \<le> c \<and> c < 0x7f then (c, [c])
      else if c = 9 then (c, [9])
      else (c, []))"

fun stdin_loop ::
  "('s, 'h) env \<Rightarrow> usize \<Rightarrow> usize \<Rightarrow> nat \<Rightarrow> usize \<Rightarrow> ('s, 'h) kernel \<Rightarrow> (usize \<times> ('s, 'h) kernel) res"
where
  "stdin_loop E buf count 0 n k = (if n < count then Inl Hang else Inr (n, k))"
| "stdin_loop E buf count (Suc fuel) n k =
     (if n < count then
        (case getchar E k of
           (None, k) \<Rightarrow> stdin_loop E buf count fuel n k
         | (Some c, k) \<Rightarrow>
             if c = 8 \<or> c = 0x7f then
               (if 0 < n then stdin_loop E buf count fuel (n - 1) (console_print k [8, 0x20, 8])
                else stdin_loop E buf count fuel n k)
             else
               (case stdin_echo c of (c, echo) \<Rightarrow>
                  res_bind (vstore E (console_print k echo) (buf + n) [c]) (\<lambda>k.
                  if c = 10 then Inr (n + 1, k) else stdin_loop E buf count fuel (n + 1) k)))
      else Inr (n, k))"

definition nscd_read :: "('s, 'h) env \<Rightarrow> ('s, 'h) kernel \<Rightarrow> usize \<Rightarrow> nscd_state \<Rightarrow> usize \<Rightarrow> usize \<Rightarrow> (isize \<times> ('s, 'h) kernel) res" where
  "nscd_read E k fd st buf count =
     (let n = min (of_nat (length (ns_data st) - unat (ns_offset st))) count in
      if 0 < n then
        res_bind (vstore E k buf (take (unat n) (drop (unat (ns_offset st)) (ns_data st)))) (\<lambda>k.
        Inr (n, k\<lparr>k_fake := bt_modify (k_fake k) fd (\<lambda>_. Nscd (st\<lparr>ns_offset := ns_offset st + n\<rparr>))\<rparr>))
      else Inr (n, k))"

definition read_pipe ::
  "('s, 'h) env \<Rightarrow> ('s, 'h) kernel \<Rightarrow> usize \<Rightarrow> usize \<Rightarrow> usize \<Rightarrow> (isize \<times> ('s, 'h) kernel) res"
where
  "read_pipe E k pid buf count =
     (case bt_get (k_pipes k) pid of
        None \<Rightarrow> Inr (0, k)
      | Some pipe \<Rightarrow>
          res_bind (vec_zeroed k count) (\<lambda>(_, k).
          res_bind (pipe_read pipe (replicate (unat count) 0)) (\<lambda>(n, tmp, pipe).
          res_bind (if 0 < n then vstore E k buf (take (unat n) tmp) else Inr k) (\<lambda>k.
          Inr (n, k\<lparr>k_pipes := bt_modify (k_pipes k) pid (\<lambda>_. pipe)\<rparr>)))))"

definition read_file ::
  "('s, 'h) env \<Rightarrow> ('s, 'h) kernel \<Rightarrow> usize \<Rightarrow> open_file \<Rightarrow> usize \<Rightarrow> usize \<Rightarrow> (isize \<times> ('s, 'h) kernel) res"
where
  "read_file E k fd f buf count =
     res_bind (vec_zeroed k count) (\<lambda>(_, k).
     res_bind (read_inode (k_fs k) (of_inode f) count (of_offset f)) (\<lambda>tmp.
     res_bind (vstore E k buf tmp) (\<lambda>k.
     let n = of_nat (length tmp) in
     Inr (n, k\<lparr>k_fds := fd_set (k_fds k) fd (f\<lparr>of_offset := of_offset f + n\<rparr>)\<rparr>))))"

text \<open>Everything but standard input: the name service replies, sockets, pipes and files.\<close>

definition read_other :: "('s, 'h) env \<Rightarrow> ('s, 'h) kernel \<Rightarrow> isize \<Rightarrow> usize \<Rightarrow> usize \<Rightarrow> (isize \<times> ('s, 'h) kernel) res" where
  "read_other E k fd buf count =
     (case bt_get (k_fake k) fd of
        Some (Nscd st) \<Rightarrow> nscd_read E k fd st buf count
      | _ \<Rightarrow>
          if is_inet_socket k fd then recv_from_fd E k fd buf count
          else (case fd_get (k_fds k) fd of
                  None \<Rightarrow> Inr (- 1, k)
                | Some f \<Rightarrow>
                    (case of_pipe_id f of
                       Some pid \<Rightarrow> read_pipe E k pid buf count
                     | None \<Rightarrow> read_file E k fd f buf count)))"

definition is_stdin :: "open_file \<Rightarrow> bool" where
  "is_stdin f \<longleftrightarrow> of_inode f = 0 \<and> of_pipe_id f = None"

definition sys_read :: "('s, 'h) env \<Rightarrow> ('s, 'h) kernel \<Rightarrow> isize \<Rightarrow> usize \<Rightarrow> usize \<Rightarrow> (isize \<times> ('s, 'h) kernel) res" where
  "sys_read E k fd buf count =
     (case fd_get (k_fds k) fd of
        None \<Rightarrow> read_other E k fd buf count
      | Some f \<Rightarrow>
          if is_stdin f then stdin_loop E buf count (spin_fuel E) 0 k
          else read_other E k fd buf count)"

section \<open>Opening, closing, seeking\<close>

definition sys_openat :: "('s, 'h) env \<Rightarrow> ('s, 'h) kernel \<Rightarrow> usize \<Rightarrow> isize \<Rightarrow> (isize \<times> ('s, 'h) kernel) res" where
  "sys_openat E k path flags =
     res_bind (cstr E k path) (\<lambda>path.
     case fs_lookup (k_fs k) path of
       None \<Rightarrow> Inr (- 2, k)
     | Some inode \<Rightarrow>
         (let writable = (flags AND 1 \<noteq> 0 \<or> flags AND 2 \<noteq> 0);
              (fd, t) = fd_alloc (k_fds k) \<lparr>of_inode = inode, of_offset = 0, of_readable = True,
                of_writable = writable, of_pipe_id = None\<rparr>
          in Inr (fd, k\<lparr>k_fds := t\<rparr>)))"

definition sys_close :: "('s, 'h) env \<Rightarrow> ('s, 'h) kernel \<Rightarrow> isize \<Rightarrow> (isize \<times> ('s, 'h) kernel) res" where
  "sys_close E k fd =
     (if sint fd < 3 \<and> 0 \<le> sint fd then Inr (- 1, k)
      else if is_inet_socket k fd then
        res_bind (net_close_fd E k fd) (\<lambda>k. Inr (0, k\<lparr>k_fake := bt_remove (k_fake k) fd\<rparr>))
      else if is_fake_fd k fd then Inr (0, k\<lparr>k_fake := bt_remove (k_fake k) fd\<rparr>)
      else Inr (0, k\<lparr>k_fds := fd_close (k_fds k) fd\<rparr>))"

definition sys_lseek :: "('s, 'h) kernel \<Rightarrow> isize \<Rightarrow> isize \<Rightarrow> isize \<Rightarrow> (isize \<times> ('s, 'h) kernel) res" where
  "sys_lseek k fd offset whence =
     (case fd_get (k_fds k) fd of
        None \<Rightarrow> Inr (- 1, k)
      | Some f \<Rightarrow>
          (let seek = (\<lambda>off. Inr (off, k\<lparr>k_fds := fd_set (k_fds k) fd (f\<lparr>of_offset := off\<rparr>)\<rparr>)) in
           if whence = 0 then seek offset
           else if whence = 1 then seek (of_offset f + offset)
           else if whence = 2 then seek (file_size (k_fs k) (of_inode f) + offset)
           else Inr (- 1, k)))"

definition sys_fstat :: "('s, 'h) env \<Rightarrow> ('s, 'h) kernel \<Rightarrow> isize \<Rightarrow> usize \<Rightarrow> (isize \<times> ('s, 'h) kernel) res" where
  "sys_fstat E k fd buf =
     (case fd_get (k_fds k) fd of
        None \<Rightarrow> Inr (- 1, k)
      | Some f \<Rightarrow>
          res_bind (if of_inode f = 0 then fill_stat_chr E k buf
                    else fill_stat E k buf (file_size (k_fs k) (of_inode f))) (\<lambda>k. Inr (0, k)))"

definition stat_path :: "('s, 'h) env \<Rightarrow> ('s, 'h) kernel \<Rightarrow> usize \<Rightarrow> usize \<Rightarrow> isize \<Rightarrow> (isize \<times> ('s, 'h) kernel) res" where
  "stat_path E k path buf err =
     res_bind (cstr E k path) (\<lambda>path.
     case fs_lookup (k_fs k) path of
       None \<Rightarrow> Inr (err, k)
     | Some inode \<Rightarrow> res_bind (fill_stat E k buf (file_size (k_fs k) inode)) (\<lambda>k. Inr (0, k)))"

definition sys_fstatat :: "('s, 'h) env \<Rightarrow> ('s, 'h) kernel \<Rightarrow> usize \<Rightarrow> usize \<Rightarrow> (isize \<times> ('s, 'h) kernel) res" where
  "sys_fstatat E k path buf = stat_path E k path buf (- 2)"

definition sys_statx :: "('s, 'h) env \<Rightarrow> ('s, 'h) kernel \<Rightarrow> usize \<Rightarrow> usize \<Rightarrow> (isize \<times> ('s, 'h) kernel) res" where
  "sys_statx E k path buf = stat_path E k path buf (- 1)"

definition sys_faccessat :: "('s, 'h) env \<Rightarrow> ('s, 'h) kernel \<Rightarrow> usize \<Rightarrow> (isize \<times> ('s, 'h) kernel) res" where
  "sys_faccessat E k path =
     res_bind (cstr E k path) (\<lambda>path. Inr (if fs_lookup (k_fs k) path \<noteq> None then 0 else - 2, k))"

definition sys_mkdirat :: "('s, 'h) env \<Rightarrow> ('s, 'h) kernel \<Rightarrow> usize \<Rightarrow> (isize \<times> ('s, 'h) kernel) res" where
  "sys_mkdirat E k path =
     res_bind (cstr E k path) (\<lambda>path.
     if fs_lookup (k_fs k) path \<noteq> None then Inr (0, k)
     else Inr (0, k\<lparr>k_fs := fs_mkdir (k_fs k) path\<rparr>))"

definition sys_readlinkat :: "('s, 'h) env \<Rightarrow> ('s, 'h) kernel \<Rightarrow> usize \<Rightarrow> usize \<Rightarrow> usize \<Rightarrow> (isize \<times> ('s, 'h) kernel) res" where
  "sys_readlinkat E k path buf bufsiz =
     res_bind (cstr E k path) (\<lambda>path.
     if path = ''/proc/self/exe'' then
       (let bytes = string_bytes ''/sbin/nginx''; len = min (of_nat (length bytes)) bufsiz in
        res_bind (vstore E k buf (take (unat len) bytes)) (\<lambda>k. Inr (len, k)))
     else Inr (- 1, k))"

section \<open>Directories and positioned access\<close>

definition sys_getdents64 :: "('s, 'h) env \<Rightarrow> ('s, 'h) kernel \<Rightarrow> isize \<Rightarrow> usize \<Rightarrow> usize \<Rightarrow> (isize \<times> ('s, 'h) kernel) res" where
  "sys_getdents64 E k fd buf count =
     (case fd_get (k_fds k) fd of
        None \<Rightarrow> Inr (- 1, k)
      | Some f \<Rightarrow>
          res_bind (vec_zeroed k count) (\<lambda>(_, k).
          case read_dir (k_fs k) (of_inode f) count (of_offset f) of (bytes, next_off) \<Rightarrow>
            (let n = of_nat (length bytes) in
             if 0 < n then
               res_bind (vstore E k buf bytes) (\<lambda>k.
               Inr (n, k\<lparr>k_fds := fd_set (k_fds k) fd (f\<lparr>of_offset := next_off\<rparr>)\<rparr>))
             else Inr (n, k))))"

definition sys_pread64 :: "('s, 'h) env \<Rightarrow> ('s, 'h) kernel \<Rightarrow> isize \<Rightarrow> usize \<Rightarrow> usize \<Rightarrow> usize \<Rightarrow> (isize \<times> ('s, 'h) kernel) res" where
  "sys_pread64 E k fd buf count offset =
     (case fd_get (k_fds k) fd of
        None \<Rightarrow> Inr (- 1, k)
      | Some f \<Rightarrow>
          res_bind (vec_zeroed k count) (\<lambda>(_, k).
          res_bind (read_inode (k_fs k) (of_inode f) count offset) (\<lambda>tmp.
          res_bind (vstore E k buf tmp) (\<lambda>k. Inr (of_nat (length tmp), k)))))"

definition sys_pwrite64 :: "('s, 'h) env \<Rightarrow> ('s, 'h) kernel \<Rightarrow> isize \<Rightarrow> usize \<Rightarrow> usize \<Rightarrow> usize \<Rightarrow> (isize \<times> ('s, 'h) kernel) res" where
  "sys_pwrite64 E k fd buf count offset =
     (case fd_get (k_fds k) fd of
        None \<Rightarrow> Inr (- 1, k)
      | Some f \<Rightarrow>
          res_bind (vec_zeroed k count) (\<lambda>(_, k).
          res_bind (vload E k buf (unat count)) (\<lambda>tmp.
          res_bind (write_inode (k_fs k) (of_inode f) tmp offset) (\<lambda>(n, fs).
          Inr (n, k\<lparr>k_fs := fs\<rparr>)))))"

section \<open>Pipes, copies of descriptors, devices\<close>

definition sys_pipe2 :: "('s, 'h) env \<Rightarrow> ('s, 'h) kernel \<Rightarrow> usize \<Rightarrow> (isize \<times> ('s, 'h) kernel) res" where
  "sys_pipe2 E k pipefd =
     (let id = k_next_pipe k;
          k = k\<lparr>k_next_pipe := id + 1, k_pipes := bt_insert (k_pipes k) id pipe_new\<rparr>;
          (rfd, t) = fd_alloc (k_fds k) \<lparr>of_inode = 0, of_offset = 0, of_readable = True, of_writable = False, of_pipe_id = Some id\<rparr>;
          (wfd, t) = fd_alloc t \<lparr>of_inode = 0, of_offset = 0, of_readable = False, of_writable = True, of_pipe_id = Some id\<rparr>
      in res_bind (vstore_u32 E (k\<lparr>k_fds := t\<rparr>) pipefd (ucast rfd)) (\<lambda>k.
         res_bind (vstore_u32 E k (pipefd + 4) (ucast wfd)) (\<lambda>k. Inr (0, k))))"

text \<open>The intermediate buffer is a vector on the heap, whose address the two calls are given.\<close>

definition sys_sendfile :: "('s, 'h) env \<Rightarrow> ('s, 'h) kernel \<Rightarrow> isize \<Rightarrow> isize \<Rightarrow> usize \<Rightarrow> (isize \<times> ('s, 'h) kernel) res" where
  "sys_sendfile E k out_fd in_fd count =
     (let len = min count 4096 in
      res_bind (vec_zeroed k len) (\<lambda>(ptr, k).
      res_bind (sys_read E (set_ram k (write_bytes (kram k) ptr 0 len)) in_fd ptr len) (\<lambda>(n, k).
      if sint n \<le> 0 then Inr (n, k) else sys_write E k out_fd ptr n)))"

definition sys_dup2 :: "('s, 'h) kernel \<Rightarrow> isize \<Rightarrow> isize \<Rightarrow> (isize \<times> ('s, 'h) kernel) res" where
  "sys_dup2 k oldfd newfd =
     res_bind (fd_dup2 (k_fds k) oldfd newfd) (\<lambda>(ok, t).
     Inr (if ok then newfd else - 1, k\<lparr>k_fds := t\<rparr>))"

definition sys_dup3 :: "('s, 'h) kernel \<Rightarrow> isize \<Rightarrow> isize \<Rightarrow> (isize \<times> ('s, 'h) kernel) res" where
  "sys_dup3 k oldfd newfd = sys_dup2 k oldfd newfd"

definition sys_fcntl :: "('s, 'h) kernel \<Rightarrow> isize \<Rightarrow> isize \<Rightarrow> (isize \<times> ('s, 'h) kernel) res" where
  "sys_fcntl k fd cmd =
     Inr (if cmd = 1 then fd
          else if cmd = 2 then 0
          else if cmd = 3 then (if is_inet_socket k fd then 0x800 else 0)
          else if cmd = 4 then 0 else 0, k)"

definition sys_ioctl :: "('s, 'h) env \<Rightarrow> ('s, 'h) kernel \<Rightarrow> isize \<Rightarrow> isize \<Rightarrow> usize \<Rightarrow> (isize \<times> ('s, 'h) kernel) res" where
  "sys_ioctl E k fd req arg =
     (if req = 0x5421 \<and> (is_fake_fd k fd \<or> is_socket_fd k fd) then Inr (0, k)
      else if req = 0x5401 \<and> sint fd < 3 then
        res_bind (vstore_u32 E k (arg + 12) 3) (\<lambda>k. Inr (0, k))
      else if req = 0x5402 \<or> req = 0x5403 \<or> req = 0x5404 then Inr (0, k)
      else if req = 0x5413 then
        res_bind (vfill E k arg 0 8) (\<lambda>k.
        res_bind (vstore_u16 E k arg 24) (\<lambda>k.
        res_bind (vstore_u16 E k (arg + 2) 80) (\<lambda>k. Inr (0, k))))
      else Inr (0, k))"

end
