(* ===== verification/Sys_Net.thy ===== *)
theory Sys_Net
  imports Sys_File
begin

text \<open>
  The system calls on sockets, event queues and the other descriptors that are not files, from
  \<^verbatim>\<open>src/src/syscall.rs\<close>.  A local (\<^verbatim>\<open>AF_UNIX\<close>) socket stands for the name service daemon: whatever is
  sent to it, it answers with the password entry of root.
\<close>

section \<open>New descriptors\<close>

definition fresh_fake_fd :: "('s, 'h) kernel \<Rightarrow> usize \<times> ('s, 'h) kernel" where
  "fresh_fake_fd k = (k_fake_next k, k\<lparr>k_fake_next := k_fake_next k + 1\<rparr>)"

abbreviation (input) put_fake :: "('s, 'h) kernel \<Rightarrow> usize \<Rightarrow> fake_fd_type \<Rightarrow> ('s, 'h) kernel" where
  "put_fake k fd t \<equiv> k\<lparr>k_fake := bt_insert (k_fake k) fd t\<rparr>"

definition sys_eventfd2 :: "('s, 'h) kernel \<Rightarrow> (isize \<times> ('s, 'h) kernel) res" where
  "sys_eventfd2 k = (case fresh_fake_fd k of (fd, k) \<Rightarrow> Inr (fd, put_fake k fd EventFd))"

definition sys_epoll_create1 :: "('s, 'h) kernel \<Rightarrow> (isize \<times> ('s, 'h) kernel) res" where
  "sys_epoll_create1 k = (case fresh_fake_fd k of (fd, k) \<Rightarrow> Inr (fd, put_fake k fd Epoll))"

definition nscd_new :: nscd_state where
  "nscd_new = \<lparr>ns_phase = Header, ns_header = replicate 36 0, ns_data = [], ns_offset = 0\<rparr>"

definition sys_socket :: "('s, 'h) kernel \<Rightarrow> isize \<Rightarrow> (isize \<times> ('s, 'h) kernel) res" where
  "sys_socket k domain =
     (case fresh_fake_fd k of (fd, k) \<Rightarrow>
        if domain = 1 then Inr (fd, put_fake k fd (Nscd nscd_new))
        else if domain = 2 then Inr (fd, put_fake k fd InetSocket)
        else Inr (- 1, k))"

definition sys_socketpair :: "('s, 'h) env \<Rightarrow> ('s, 'h) kernel \<Rightarrow> usize \<Rightarrow> (isize \<times> ('s, 'h) kernel) res" where
  "sys_socketpair E k sv =
     (case fresh_fake_fd k of (fd1, k) \<Rightarrow>
      case fresh_fake_fd k of (fd2, k) \<Rightarrow>
        res_bind (vstore_u32 E (put_fake (put_fake k fd1 InetSocket) fd2 InetSocket) sv (ucast fd1)) (\<lambda>k.
        res_bind (vstore_u32 E k (sv + 4) (ucast fd2)) (\<lambda>k. Inr (0, k))))"

section \<open>Connections\<close>

definition fake_status :: "('s, 'h) kernel \<Rightarrow> isize \<Rightarrow> (isize \<times> ('s, 'h) kernel) res" where
  "fake_status k fd = Inr (if is_fake_fd k fd then 0 else - 1, k)"

definition sys_bind :: "('s, 'h) kernel \<Rightarrow> isize \<Rightarrow> (isize \<times> ('s, 'h) kernel) res" where
  "sys_bind k fd = fake_status k fd"

definition sys_connect :: "('s, 'h) kernel \<Rightarrow> isize \<Rightarrow> (isize \<times> ('s, 'h) kernel) res" where
  "sys_connect k fd = fake_status k fd"

definition sys_setsockopt :: "('s, 'h) kernel \<Rightarrow> isize \<Rightarrow> (isize \<times> ('s, 'h) kernel) res" where
  "sys_setsockopt k fd = fake_status k fd"

definition sys_getsockopt :: "('s, 'h) kernel \<Rightarrow> isize \<Rightarrow> (isize \<times> ('s, 'h) kernel) res" where
  "sys_getsockopt k fd = fake_status k fd"

definition sys_shutdown :: "('s, 'h) kernel \<Rightarrow> isize \<Rightarrow> (isize \<times> ('s, 'h) kernel) res" where
  "sys_shutdown k fd = fake_status k fd"

definition sys_getsockname :: "('s, 'h) kernel \<Rightarrow> (isize \<times> ('s, 'h) kernel) res" where
  "sys_getsockname k = Inr (- 1, k)"

definition sys_getpeername :: "('s, 'h) kernel \<Rightarrow> (isize \<times> ('s, 'h) kernel) res" where
  "sys_getpeername k = Inr (- 1, k)"

definition sys_listen :: "('s, 'h) env \<Rightarrow> ('s, 'h) kernel \<Rightarrow> isize \<Rightarrow> (isize \<times> ('s, 'h) kernel) res" where
  "sys_listen E k fd =
     (if is_inet_socket k fd then res_bind (bind_listen_fd E k fd) (\<lambda>k. Inr (0, k))
      else fake_status k fd)"

definition store_peer :: "('s, 'h) env \<Rightarrow> ('s, 'h) kernel \<Rightarrow> usize \<Rightarrow> usize \<Rightarrow> ('s, 'h) kernel res" where
  "store_peer E k addr addrlen =
     res_bind (if addr \<noteq> 0 then
                 res_bind (vstore_u16 E k addr 2) (\<lambda>k.
                 res_bind (vstore_u16 E k (addr + 2) 0x5000) (\<lambda>k.
                 res_bind (vfill E k (addr + 4) 0 4) (\<lambda>k.
                 vfill E k (addr + 8) 0 8)))
               else Inr k) (\<lambda>k.
     if addrlen \<noteq> 0 then vstore_u32 E k addrlen 16 else Inr k)"

definition sys_accept :: "('s, 'h) env \<Rightarrow> ('s, 'h) kernel \<Rightarrow> isize \<Rightarrow> usize \<Rightarrow> usize \<Rightarrow> (isize \<times> ('s, 'h) kernel) res" where
  "sys_accept E k fd addr addrlen =
     (if is_inet_socket k fd then
        res_bind (accept_connection E k fd) (\<lambda>(h, k).
        case h of
          None \<Rightarrow> Inr (- 11, k)
        | Some handle \<Rightarrow>
            (case fresh_fake_fd k of (new_fd, k) \<Rightarrow>
               res_bind (store_peer E (add_fd_handle (put_fake k new_fd InetSocket) new_fd handle) addr addrlen) (\<lambda>k.
               Inr (new_fd, k))))
      else if is_fake_fd k fd then
        (case fresh_fake_fd k of (new_fd, k) \<Rightarrow> Inr (new_fd, put_fake k new_fd InetSocket))
      else Inr (- 1, k))"

definition sys_accept4 :: "('s, 'h) env \<Rightarrow> ('s, 'h) kernel \<Rightarrow> isize \<Rightarrow> usize \<Rightarrow> usize \<Rightarrow> (isize \<times> ('s, 'h) kernel) res" where
  "sys_accept4 E k fd addr addrlen = sys_accept E k fd addr addrlen"

section \<open>Messages\<close>

definition nscd_reply :: "u8 list" where
  "nscd_reply =
     (let name = string_bytes ''root'' @ [0]; passwd = string_bytes ''x'' @ [0]; gecos = string_bytes ''root'' @ [0];
          dir = string_bytes ''/root'' @ [0]; shell = string_bytes ''/bin/sh'' @ [0];
          i32 = (\<lambda>v. le_bytes 4 (v :: u32))
      in i32 2 @ i32 1 @ i32 (of_nat (length name)) @ i32 (of_nat (length passwd)) @ i32 0 @ i32 0 @
         i32 (of_nat (length gecos)) @ i32 (of_nat (length dir)) @ i32 (of_nat (length shell)) @
         name @ passwd @ gecos @ dir @ shell)"

definition sys_sendto :: "('s, 'h) env \<Rightarrow> ('s, 'h) kernel \<Rightarrow> isize \<Rightarrow> usize \<Rightarrow> usize \<Rightarrow> (isize \<times> ('s, 'h) kernel) res" where
  "sys_sendto E k fd buf len =
     (case bt_get (k_fake k) fd of
        Some (Nscd st) \<Rightarrow>
          res_bind (vec_zeroed k len) (\<lambda>(_, k).
          res_bind (vload E k buf (unat len)) (\<lambda>req.
          Inr (len, k\<lparr>k_fake := bt_modify (k_fake k) fd
            (\<lambda>_. Nscd (st\<lparr>ns_data := nscd_reply, ns_offset := 0, ns_phase := Data\<rparr>))\<rparr>)))
      | _ \<Rightarrow> if is_inet_socket k fd then send_to_fd E k fd buf len else Inr (- 1, k))"

definition sys_recvfrom :: "('s, 'h) env \<Rightarrow> ('s, 'h) kernel \<Rightarrow> isize \<Rightarrow> usize \<Rightarrow> usize \<Rightarrow> (isize \<times> ('s, 'h) kernel) res" where
  "sys_recvfrom E k fd buf len = sys_read E k fd buf len"

definition sys_recvmsg :: "('s, 'h) env \<Rightarrow> ('s, 'h) kernel \<Rightarrow> isize \<Rightarrow> usize \<Rightarrow> (isize \<times> ('s, 'h) kernel) res" where
  "sys_recvmsg E k fd msg =
     (case bt_get (k_fake k) fd of
        Some (Nscd st) \<Rightarrow>
          res_bind (vload_u64 E k (msg + 16)) (\<lambda>iov_ptr.
          res_bind (vload_u64 E k (msg + 24)) (\<lambda>iov_len.
          if 0 < iov_len \<and> iov_ptr \<noteq> 0 then
            res_bind (vload_u64 E k iov_ptr) (\<lambda>base.
            res_bind (vload_u64 E k (iov_ptr + 8)) (\<lambda>len.
            let n = min (of_nat (length (ns_data st) - unat (ns_offset st))) len in
            if 0 < n \<and> base \<noteq> 0 then
              res_bind (vstore E k base (take (unat n) (drop (unat (ns_offset st)) (ns_data st)))) (\<lambda>k.
              Inr (n, k\<lparr>k_fake := bt_modify (k_fake k) fd (\<lambda>_. Nscd (st\<lparr>ns_offset := ns_offset st + n\<rparr>))\<rparr>))
            else Inr (n, k)))
          else Inr (- 1, k)))
      | _ \<Rightarrow> Inr (- 1, k))"

section \<open>Waiting for events\<close>

definition sys_epoll_ctl :: "('s, 'h) env \<Rightarrow> ('s, 'h) kernel \<Rightarrow> isize \<Rightarrow> usize \<Rightarrow> (isize \<times> ('s, 'h) kernel) res" where
  "sys_epoll_ctl E k fd event =
     (if (is_inet_socket k fd \<or> is_fake_fd k fd) \<and> event \<noteq> 0 then
        res_bind (vload_u64 E k (event + 8)) (\<lambda>data. Inr (0, set_epoll_data k fd data))
      else Inr (0, k))"

fun epoll_wait_loop ::
  "('s, 'h) env \<Rightarrow> usize \<Rightarrow> usize \<Rightarrow> isize \<Rightarrow> usize option \<Rightarrow> nat \<Rightarrow> ('s, 'h) kernel \<Rightarrow> (isize \<times> ('s, 'h) kernel) res"
where
  "epoll_wait_loop E events maxevents timeout deadline 0 k = Inl Hang"
| "epoll_wait_loop E events maxevents timeout deadline (Suc fuel) k =
     res_bind (get_epoll_events E k events maxevents) (\<lambda>(n, k).
     if 0 < n then Inr (n, k)
     else if timeout = 0 then Inr (0, k)
     else (case deadline of
             None \<Rightarrow> epoll_wait_loop E events maxevents timeout deadline fuel k
           | Some d \<Rightarrow>
               (case get_time_ms E k of (now, k) \<Rightarrow>
                  if sint d \<le> sint now then Inr (0, k)
                  else epoll_wait_loop E events maxevents timeout deadline fuel k)))"

definition sys_epoll_pwait ::
  "('s, 'h) env \<Rightarrow> ('s, 'h) kernel \<Rightarrow> usize \<Rightarrow> usize \<Rightarrow> isize \<Rightarrow> (isize \<times> ('s, 'h) kernel) res"
where
  "sys_epoll_pwait E k events maxevents timeout =
     (case get_time_ms E k of (start_ms, k) \<Rightarrow>
        (let deadline = (if 0 < sint timeout then Some (start_ms + timeout) else None) in
         epoll_wait_loop E events maxevents timeout deadline (spin_fuel E) k))"

fun ppoll_loop ::
  "('s, 'h) env \<Rightarrow> usize \<Rightarrow> nat \<Rightarrow> usize \<Rightarrow> u32 \<Rightarrow> ('s, 'h) kernel \<Rightarrow> (u32 \<times> ('s, 'h) kernel) res"
where
  "ppoll_loop E fds 0 i ready k = Inr (ready, k)"
| "ppoll_loop E fds (Suc left) i ready k =
     (let p = fds + i * 8 in
      res_bind (vload E k p 4) (\<lambda>fd_bytes.
      res_bind (vload E k (p + 4) 2) (\<lambda>ev_bytes.
      let fd = le_word fd_bytes :: u32; events = le_word ev_bytes :: u16;
          is_ready = (sint fd < 3 \<or> is_inet_socket k (scast fd) \<or> is_fake_fd k (scast fd))
      in res_bind (vstore_u16 E k (p + 6) (if is_ready then events AND 5 else 0)) (\<lambda>k.
         ppoll_loop E fds left (i + 1) (if is_ready then ready + 1 else ready) k))))"

definition sys_ppoll :: "('s, 'h) env \<Rightarrow> ('s, 'h) kernel \<Rightarrow> usize \<Rightarrow> usize \<Rightarrow> (isize \<times> ('s, 'h) kernel) res" where
  "sys_ppoll E k fds nfds =
     res_bind (ppoll_loop E fds (unat nfds) 0 0 k) (\<lambda>(ready, k).
     Inr (if 0 < sint ready then scast ready else 0, k))"

end
