(* ===== verification/Syscall.thy ===== *)
theory Syscall
  imports Sys_Net Sys_Proc
begin

text \<open>
  The system call table, \<^verbatim>\<open>dispatch\<close> of \<^verbatim>\<open>src/src/syscall.rs\<close>, with the numbers of the Linux ABI.
  An unknown number is logged and answers \<open>-1\<close>.
\<close>

definition dispatch ::
  "('s, 'h) env \<Rightarrow> ('s, 'h) kernel \<Rightarrow> usize \<Rightarrow> usize \<Rightarrow> usize \<Rightarrow> usize \<Rightarrow> usize \<Rightarrow> usize \<Rightarrow> usize \<Rightarrow>
   (isize \<times> ('s, 'h) kernel) res"
where
  "dispatch E k num a0 a1 a2 a3 a4 a5 =
    (if num = 17 then sys_getcwd E k a0 a1
     else if num = 19 then sys_eventfd2 k
     else if num = 20 then sys_epoll_create1 k
     else if num = 21 then sys_epoll_ctl E k a2 a3
     else if num = 22 then sys_epoll_pwait E k a1 a2 a3
     else if num = 23 then sys_dup2 k a0 a1
     else if num = 24 then sys_dup3 k a0 a1
     else if num = 25 then sys_fcntl k a0 a1
     else if num = 29 then sys_ioctl E k a0 a1 a2
     else if num = 34 then sys_mkdirat E k a1
     else if num = 48 then sys_faccessat E k a1
     else if num = 54 then sys_fchownat k
     else if num = 56 then sys_openat E k a1 a2
     else if num = 57 then sys_close E k a0
     else if num = 59 then sys_pipe2 E k a0
     else if num = 61 then sys_getdents64 E k a0 a1 a2
     else if num = 62 then sys_lseek k a0 a1 a2
     else if num = 71 then sys_sendfile E k a0 a1 a3
     else if num = 63 then sys_read E k a0 a1 a2
     else if num = 64 then sys_write E k a0 a1 a2
     else if num = 66 then sys_writev E k a0 a1 a2
     else if num = 67 then sys_pread64 E k a0 a1 a2 a3
     else if num = 68 then sys_pwrite64 E k a0 a1 a2 a3
     else if num = 73 then sys_ppoll E k a0 a1
     else if num = 78 then sys_readlinkat E k a1 a2 a3
     else if num = 79 then sys_fstatat E k a1 a2
     else if num = 80 then sys_fstat E k a0 a1
     else if num = 93 then sys_exit k a0
     else if num = 94 then sys_exit k a0
     else if num = 96 then sys_set_tid_address k
     else if num = 99 then sys_set_robust_list k
     else if num = 113 then sys_clock_gettime E k a1
     else if num = 122 then sys_sched_setaffinity k
     else if num = 123 then sys_sched_getaffinity k
     else if num = 131 then sys_sigaction k
     else if num = 134 then sys_rt_sigaction k
     else if num = 135 then sys_rt_sigprocmask k
     else if num = 178 then sys_gettid k
     else if num = 144 then sys_setgid k
     else if num = 146 then sys_setuid k
     else if num = 154 then sys_setpgid k
     else if num = 155 then sys_getpgrp k
     else if num = 157 then sys_setsid k
     else if num = 159 then sys_setgroups k
     else if num = 160 then sys_uname E k a0
     else if num = 163 then sys_getrlimit E k a0 a1
     else if num = 166 then sys_umask k
     else if num = 167 then sys_prctl k
     else if num = 172 then sys_getpid k
     else if num = 173 then sys_getppid k
     else if num = 174 then sys_getuid k
     else if num = 175 then sys_geteuid k
     else if num = 176 then sys_getgid k
     else if num = 177 then sys_getegid k
     else if num = 198 then sys_socket k a0
     else if num = 199 then sys_socketpair E k a3
     else if num = 200 then sys_bind k a0
     else if num = 201 then sys_listen E k a0
     else if num = 202 then sys_accept E k a0 a1 a2
     else if num = 242 then sys_accept4 E k a0 a1 a2
     else if num = 203 then sys_connect k a0
     else if num = 204 then sys_getsockname k
     else if num = 205 then sys_getpeername k
     else if num = 206 then sys_sendto E k a0 a1 a2
     else if num = 207 then sys_recvfrom E k a0 a1 a2
     else if num = 208 then sys_setsockopt k a0
     else if num = 209 then sys_getsockopt k a0
     else if num = 210 then sys_shutdown k a0
     else if num = 212 then sys_recvmsg E k a0 a1
     else if num = 214 then sys_brk k a0
     else if num = 215 then sys_munmap k
     else if num = 220 then sys_clone k a1
     else if num = 221 then sys_execve E k a0 a1 a2
     else if num = 222 then sys_mmap E k a0 a1 a2 a3 a4 a5
     else if num = 226 then sys_mprotect k
     else if num = 233 then sys_madvise k
     else if num = 260 then sys_wait4 E k a0 a1 a2
     else if num = 261 then sys_prlimit64 E k a1 a3
     else if num = 278 then sys_getrandom E k a0 a1
     else if num = 291 then sys_statx E k a1 a4
     else Inr (- 1, log_record E k Warn (string_bytes ''Unhandled syscall '' @ fmt_dec num)))"

end
