(* ===== verification/Trap_Handler.thy ===== *)
theory Trap_Handler
  imports Syscall
begin

text \<open>
  \<^verbatim>\<open>rust_trap_handler\<close> of \<^verbatim>\<open>src/src/trap.rs\<close> and the whole way of a trap: the entry code saves the
  registers on the kernel stack, the handler runs the system call and edits the saved frame in
  place, \<^verbatim>\<open>do_schedule\<close> may replace the frame by that of another process, and the exit code loads
  the registers from it.
\<close>

section \<open>The handler\<close>

text \<open>Fields of the frame at \<open>tf\<close>, as the handler reads and writes them.\<close>

abbreviation (input) frame_get :: "('s, 'h) kernel \<Rightarrow> usize \<Rightarrow> usize \<Rightarrow> usize" where
  "frame_get k tf off \<equiv> load_u64 (kram k) (tf + off)"

abbreviation (input) frame_put :: "('s, 'h) kernel \<Rightarrow> usize \<Rightarrow> usize \<Rightarrow> usize \<Rightarrow> ('s, 'h) kernel" where
  "frame_put k tf off v \<equiv> set_ram k (store_u64 (kram k) (tf + off) v)"

definition copy_frame :: "('s, 'h) kernel \<Rightarrow> usize \<Rightarrow> ('s, 'h) kernel" where
  "copy_frame k tf =
     (let raw = read_raw (kram k) tf in
      k\<lparr>k_ctf := (k_ctf k)\<lparr>tf_regs := (raw_x raw)[2 := raw_orig_sp raw], tf_sepc := raw_sepc raw,
        tf_sstatus := raw_sstatus raw\<rparr>\<rparr>)"

text \<open>What the handler does to the frame, depending on the call and its answer.\<close>

definition finish_call :: "('s, 'h) kernel \<Rightarrow> usize \<Rightarrow> usize \<Rightarrow> isize \<Rightarrow> ('s, 'h) kernel" where
  "finish_call k tf num ret =
     (if num = 260 \<and> ret = - 11 then
        (let k = frame_put k tf 264 (frame_get k tf 264 - 4) in
         k\<lparr>k_procs := bt_modify (k_procs k) (k_current k) (\<lambda>p. p\<lparr>p_state := Waiting\<rparr>)\<rparr>)
      else if num = 221 \<and> ret = 0 then
        (let k = frame_put k tf 264 (tf_sepc (k_ctf k));
             k = frame_put k tf 256 (tf_regs (k_ctf k) ! 2)
         in frame_put k tf 80 (tf_regs (k_ctf k) ! 10))
      else if num = 221 \<and> sint ret < 0 then frame_put k tf 264 (frame_get k tf 264 + 4)
      else k)"

definition handle_ecall :: "('s, 'h) env \<Rightarrow> ('s, 'h) kernel \<Rightarrow> usize \<Rightarrow> ('s, 'h) kernel res" where
  "handle_ecall E k tf =
     (let x = raw_x (read_raw (kram k) tf);
          num = x ! 17;
          k = (if num = 57 then k\<lparr>k_last_tp := x ! 4\<rparr> else k);
          k = (if num \<noteq> 221 then frame_put k tf 264 (frame_get k tf 264 + 4) else k)
      in res_bind (dispatch E k num (x ! 10) (x ! 11) (x ! 12) (x ! 13) (x ! 14) (x ! 15)) (\<lambda>(ret, k).
         let k = finish_call k tf num ret in
         Inr (frame_put k tf 80 ret)))"

text \<open>
  The report on any other trap: the cause, some registers, and eight words of the interrupted
  stack as far as the current process has them mapped.
\<close>

definition stack_word :: "('s, 'h) kernel \<Rightarrow> usize \<Rightarrow> usize" where
  "stack_word k addr =
     (case bt_get (k_procs k) (k_current k) of
        None \<Rightarrow> 0
      | Some p \<Rightarrow>
          (case pt_translate (kram k) (p_page_table p) addr of None \<Rightarrow> 0 | Some pa \<Rightarrow> load_u64 (kram k) pa))"

definition stack_dump :: "('s, 'h) kernel \<Rightarrow> usize \<Rightarrow> u8 list" where
  "stack_dump k sp =
     concat (map (\<lambda>i. let addr = sp + of_nat i * 8 in
       string_bytes '' '' @ fmt_hex addr @ string_bytes ''='' @ fmt_hex (stack_word k addr)) [0..<8])"

definition trap_report :: "('s, 'h) env \<Rightarrow> ('s, 'h) kernel \<Rightarrow> trap_frame_raw \<Rightarrow> usize \<Rightarrow> usize \<Rightarrow> usize \<Rightarrow> ('s, 'h) kernel" where
  "trap_report E k tf cause sepc stval =
     (let from_user = (raw_sstatus tf AND push_bit 8 1 = 0); x = raw_x tf;
          k = log_record E k Warn (string_bytes ''Trap cause='' @ fmt_dec cause @ string_bytes '' sepc='' @ fmt_hex sepc @
            string_bytes '' stval='' @ fmt_hex stval @ string_bytes '' from_user='' @ fmt_bool from_user);
          k = log_record E k Warn (string_bytes ''  ra='' @ fmt_hex (x ! 1) @ string_bytes '' a0='' @ fmt_hex (x ! 10) @
            string_bytes '' a1='' @ fmt_hex (x ! 11) @ string_bytes '' a2='' @ fmt_hex (x ! 12) @
            string_bytes '' a3='' @ fmt_hex (x ! 13) @ string_bytes '' sp='' @ fmt_hex (raw_orig_sp tf))
      in log_record E k Warn (string_bytes '' stack:'' @ stack_dump k (raw_orig_sp tf)))"

text \<open>\<^verbatim>\<open>loop {}\<close> in the given state.\<close>

definition loop_forever :: "('s, 'h) kernel \<Rightarrow> 'a res" where
  "loop_forever k = Inl Hang"

text \<open>Any trap but a system call, from user mode or from the kernel, is reported and ends in an endless loop.\<close>

definition rust_trap_handler ::
  "('s, 'h) env \<Rightarrow> ('s, 'h) kernel \<Rightarrow> usize \<Rightarrow> usize \<Rightarrow> usize \<Rightarrow> usize \<Rightarrow> ('s, 'h) kernel res"
where
  "rust_trap_handler E k tf scause stval sepc =
     (let cause = scause AND NOT (push_bit 63 1); raw = read_raw (kram k) tf; k = copy_frame k tf in
      if cause = 8 \<or> cause = 9 \<or> cause = 10 then handle_ecall E k tf
      else loop_forever (trap_report E k raw cause sepc stval))"

section \<open>A whole trap\<close>

text \<open>
  A call of a Rust function from the assembly keeps the callee-saved registers of the calling
  convention; the others come back with arbitrary contents \<open>junk\<close>, \<^verbatim>\<open>a0\<close> with the result.
\<close>

definition callee_saved :: "nat \<Rightarrow> bool" where
  "callee_saved r \<longleftrightarrow> r \<in> {2, 3, 4, 8, 9} \<or> 18 \<le> r \<and> r \<le> 27"

definition call_return :: "machine \<Rightarrow> (nat \<Rightarrow> usize) \<Rightarrow> usize \<Rightarrow> memory \<Rightarrow> machine" where
  "call_return s junk a0 m =
     s\<lparr>m_regs := (\<lambda>r. if callee_saved r then m_regs s r else junk r)(10 := a0), m_mem := m\<rparr>"

definition trap_cycle ::
  "('s, 'h) env \<Rightarrow> (nat \<Rightarrow> usize) \<Rightarrow> (nat \<Rightarrow> usize) \<Rightarrow> usize \<Rightarrow> usize \<Rightarrow> ('s, 'h) kernel \<Rightarrow> machine \<Rightarrow>
   (('s, 'h) kernel \<times> machine) res"
where
  "trap_cycle E junk junk' scause stval k s =
     (let s = exec_instrs (s\<lparr>m_mem := kram k\<rparr>) trap_entry in
      res_bind (rust_trap_handler E (set_ram k (m_mem s)) (rd s 10) scause stval (m_csrs s Sepc)) (\<lambda>k.
      let s = exec_instrs (call_return s junk (junk 10) (kram k)) trap_between in
      res_bind (do_schedule E k (rd s 10)) (\<lambda>(sp, k).
      Inr (k, exec_instrs (call_return s junk' sp (kram k)) trap_exit))))"

end
