(* ===== verification/Fork_Exit.thy ===== *)
theory Fork_Exit
  imports Proc
begin

text \<open>
  What \<^verbatim>\<open>fork_process\<close> and \<^verbatim>\<open>exit_process\<close> do to the process table and to memory.
\<close>

section \<open>Frames taken in blocks\<close>

lemma alloc_pages_mem:
  assumes "frames_ok s" "pages_ok n" "alloc_pages s n = (x, s')" "allocated s (drop_bit 12 a)"
  shows "ram s' a = ram s a"
  using assms(1-3)
proof (cases rule: alloc_pages_cases [OF assms(1-3)])
  case 2
  let ?p = "pg_current (page_alloc s)"
  have "unat (drop_bit 12 a) < unat ?p div 4096"
    using assms(4) by (simp add: allocated_def)
  then have lt: "unat a < unat ?p"
    unfolding unat_drop_bit_12 by (metis div_le_mono leD linorder_le_less_linear)
  have sz: "unat (n * 4096) = 4096 * unat n"
    using assms(2) by (simp add: pages_ok_def unat_word_ariths)
  have "unat (a - ?p) + unat (?p - a) = 2 ^ 64"
    using lt by (intro unat_diff_sum) auto
  moreover have "unat (?p - a) = unat ?p - unat a"
    using lt by (intro unat_sub) (simp add: word_le_nat_alt)
  moreover have "unat ?p + 4096 * unat n < 2 ^ 63"
    using 2(3,4) assms(1) by (simp add: frames_ok_def word_le_nat_alt)
  ultimately have "\<not> a - ?p < n * 4096"
    using lt sz by (simp add: word_less_nat_alt)
  then show ?thesis
    using 2(2) by (simp add: write_bytes_def)
qed simp

lemma alloc_pages_mono:
  assumes "frames_ok s" "pages_ok n" "alloc_pages s n = (x, s')"
  shows "frames_ok s'" "pg_current (page_alloc s) \<le> pg_current (page_alloc s')"
  using assms(1) by (cases rule: alloc_pages_cases [OF assms]; simp add: word_le_nat_alt)+

text \<open>Every translation and every allocated byte survives.\<close>

lemma alloc_pages_stable:
  assumes "pt_inv s r" "pages_ok n" "alloc_pages s n = (x, s')"
  shows "pt_inv s' r" "pt_tables (ram s') r = pt_tables (ram s) r" "pt_view r s' ks = pt_view r s ks"
proof -
  have fok: "frames_ok s"
    using assms(1) by (simp add: pt_inv_def)
  note mono = alloc_pages_mono [OF fok assms(2,3)]
  have mem: "\<forall>a. allocated s (drop_bit 12 a) \<longrightarrow> ram s' a = ram s a"
    using alloc_pages_mem [OF fok assms(2,3)] by blast
  note st = pt_stable [OF assms(1) mono mem]
  show "pt_inv s' r" "pt_tables (ram s') r = pt_tables (ram s) r" "pt_view r s' ks = pt_view r s ks"
    by (rule st)+
qed

section \<open>Fork\<close>

definition child_frame :: "trap_frame \<Rightarrow> trap_frame" where
  "child_frame tf = tf\<lparr>tf_regs := (tf_regs tf)[10 := 0], tf_sepc := tf_sepc tf + 4\<rparr>"

lemma fork_process_cases:
  assumes "fork_process k tf = Inr (r, k')" "proc_of k (k_current k) = Some parent"
  obtains (fail) s where "r = None" "k' = k\<lparr>k_mm := s\<rparr>"
  | (ok) child_pt s kstack s' where
      "clone_user_space (k_mm k) (p_page_table parent) = Inr (Some child_pt, s)"
      "alloc_pages s 2 = (Some kstack, s')" "r = Some (k_next_pid k)"
      "k' = k\<lparr>k_mm := s', k_next_pid := k_next_pid k + 1,
         k_procs := bt_insert (k_procs k) (k_next_pid k)
           \<lparr>p_pid = k_next_pid k, p_ppid = k_current k, p_state = Ready, p_page_table = child_pt,
             p_trap_frame = child_frame tf, p_kernel_stack = kstack + 2 * 4096, p_brk = p_brk parent,
             p_exit_code = 0, p_fd_table = p_fd_table parent\<rparr>\<rparr>"
proof -
  obtain c s where clone: "clone_user_space (k_mm k) (p_page_table parent) = Inr (c, s)"
    using assms by (auto simp: fork_process_def proc_of_def res_bind_Inr_iff split: prod.splits)
  show thesis
  proof (cases c)
    case None
    then show thesis
      using assms clone by (intro fail [of s]) (simp_all add: fork_process_def proc_of_def)
  next
    case (Some child_pt)
    obtain x s' where al: "alloc_pages s 2 = (x, s')" by fastforce
    show thesis
    proof (cases x)
      case None
      then show thesis
        using assms clone Some al by (intro fail [of s']) (simp_all add: fork_process_def proc_of_def)
    next
      case (Some kstack)
      then show thesis
        using assms clone \<open>c = Some child_pt\<close> al
        by (intro ok [of child_pt s kstack s'])
          (auto simp: fork_process_def proc_of_def Let_def child_frame_def)
    qed
  qed
qed

lemma sched_inv_insert:
  assumes "sched_inv k" "length (tf_regs (p_trap_frame p)) = 32" "p_state p \<noteq> Running"
    "k_procs k' = bt_insert (k_procs k) pid p" "k_current k' = k_current k"
  shows "sched_inv k'"
  using assms unfolding sched_inv_def by (auto simp: proc_of_def bt.get_put bt.inv_put split: if_splits)

text \<open>The memory side: the child's pages after the kernel stack has been taken as well.\<close>

lemma fork_memory:
  assumes sp: "space_ok s (root_ppn pt)" and clone: "clone_user_space s pt = Inr (Some child, s1)"
    and al: "alloc_pages s1 2 = (x, s2)"
  shows "\<forall>a. allocated s (drop_bit 12 a) \<longrightarrow> ram s2 a = ram s a"
    "pt_translate (ram s2) pt va = pt_translate (ram s) pt va"
    "user_va s pt va \<Longrightarrow> \<exists>pa pa'. pt_translate (ram s) pt va = Some pa \<and>
       pt_translate (ram s2) child va = Some pa' \<and> ram s2 pa' = ram s pa \<and> \<not> allocated s (drop_bit 12 pa')"
    "pt_inv s2 (root_ppn child)"
proof -
  have inv: "clone_inv s (root_ppn pt) (root_ppn child) (user_pages (root_ppn pt) s) s1"
    by (rule clone_user_space_inv [OF sp]) (use clone in auto)
  note i = inv [unfolded clone_inv_def]
  have n2: "pages_ok 2" by (simp add: pages_ok_def)
  have pinv: "pt_inv s (root_ppn pt)"
    using sp by (simp add: space_ok_def)
  note par = clone_inv_parent [OF inv pinv]
  have fok: "frames_ok s1" and cinv: "pt_inv s1 (root_ppn child)"
    using i by (simp_all add: pt_inv_def)
  have grow: "allocated s p \<Longrightarrow> allocated s1 p" for p
    using i allocated_mono [of s s1] by blast
  have mem: "ram s2 a = ram s1 a" if "allocated s1 (drop_bit 12 a)" for a
    by (rule alloc_pages_mem [OF fok n2 al that])
  show "\<forall>a. allocated s (drop_bit 12 a) \<longrightarrow> ram s2 a = ram s a"
    using mem grow i by simp
  show "pt_translate (ram s2) pt va = pt_translate (ram s) pt va"
    by (simp add: pt_translate_view alloc_pages_stable(3) [OF par(1) n2 al] par(3))
  show "pt_inv s2 (root_ppn child)"
    by (rule alloc_pages_stable(1) [OF cinv n2 al])
  assume va: "user_va s pt va"
  let ?f = "clone_frame (root_ppn child) s1 (vpn_indices (drop_bit 12 va))"
  obtain pa where pa: "pt_translate (ram s) pt va = Some pa"
      "pt_translate (ram s1) child va = Some (push_bit 12 ?f OR (va AND 4095))"
      "ram s1 (push_bit 12 ?f OR (va AND 4095)) = ram s pa" "\<not> allocated s ?f" "frame_ok ?f"
    by (rule clone_inv_user [OF inv va])
  have page: "drop_bit 12 (push_bit 12 ?f OR (va AND 4095)) = ?f"
    using pa(5) by (simp add: drop_page_or drop_push_frame)
  have "allocated s1 ?f"
    using i va by (auto simp: clone_of_def Let_def user_va_def)
  then have "ram s2 (push_bit 12 ?f OR (va AND 4095)) = ram s pa"
    using mem page pa(3) by simp
  moreover have "pt_translate (ram s2) child va = pt_translate (ram s1) child va"
    by (simp add: pt_translate_view alloc_pages_stable(3) [OF cinv n2 al])
  ultimately show "\<exists>pa pa'. pt_translate (ram s) pt va = Some pa \<and>
       pt_translate (ram s2) child va = Some pa' \<and> ram s2 pa' = ram s pa \<and> \<not> allocated s (drop_bit 12 pa')"
    using pa page by auto
qed

section \<open>Exit\<close>

lemma proc_of_exit:
  assumes "bt_wf (k_procs k)" "proc_of k (k_current k) = Some p"
  shows "proc_of (exit_process k code) u =
    (let z = p\<lparr>p_state := Zombie, p_exit_code := code\<rparr>; wake = (\<lambda>q. if p_state q = Waiting then q\<lparr>p_state := Ready\<rparr> else q) in
     if u = k_current k then Some z
     else if u = p_ppid p then map_option wake (proc_of k u) else proc_of k u)"
  using assms by (auto simp: proc_of_def exit_process_def Let_def bt.get_upd bt.inv_upd)

lemma exit_process_simps [simp]:
  "k_current (exit_process k code) = k_current k"
  "k_mm (exit_process k code) = k_mm k"
  by (simp_all add: exit_process_def Let_def)

section \<open>Properties\<close>

text \<open>
  C6. \<^verbatim>\<open>fork_process\<close> makes a second process like the first.  The new entry is ready, names the
  current process as its parent and resumes after the system call with the parent's registers,
  except that \<^verbatim>\<open>a0\<close> is zero.  Every user address of the parent translates in the child to a byte
  with the same value on a frame that was free before.  The parent's translations, all frames
  that were in use and all other entries stay as they were, and the table stays well formed.
  If it returns no process id, only the memory allocator has changed.
\<close>

theorem fork_correct:
  assumes "sched_inv k" "proc_of k (k_current k) = Some parent"
    and "space_ok (k_mm k) (root_ppn (p_page_table parent))" "length (tf_regs tf) = 32"
    and "fork_process k tf = Inr (r, k')"
  shows "(r = None \<longrightarrow> k' = k\<lparr>k_mm := k_mm k'\<rparr>) \<and>
    (\<forall>pid. r = Some pid \<longrightarrow> pid = k_next_pid k \<and> sched_inv k' \<and>
      (\<forall>u. u \<noteq> pid \<longrightarrow> proc_of k' u = proc_of k u) \<and>
      (\<exists>child. proc_of k' pid = Some child \<and> p_state child = Ready \<and> p_ppid child = k_current k \<and>
        tf_regs (p_trap_frame child) = (tf_regs tf)[10 := 0] \<and> tf_sepc (p_trap_frame child) = tf_sepc tf + 4 \<and>
        (\<forall>va. user_va (k_mm k) (p_page_table parent) va \<longrightarrow>
           (\<exists>pa pa'. pt_translate (kram k) (p_page_table parent) va = Some pa \<and>
              pt_translate (kram k') (p_page_table child) va = Some pa' \<and> kram k' pa' = kram k pa \<and>
              \<not> allocated (k_mm k) (drop_bit 12 pa'))) \<and>
        (\<forall>va. pt_translate (kram k') (p_page_table parent) va = pt_translate (kram k) (p_page_table parent) va) \<and>
        (\<forall>a. allocated (k_mm k) (drop_bit 12 a) \<longrightarrow> kram k' a = kram k a)))"
proof (cases rule: fork_process_cases [OF assms(5,2)])
  case 1
  then show ?thesis by simp
next
  case (2 child_pt s kstack s')
  note wf = sched_inv_wf [OF assms(1)]
  note mem = fork_memory [OF assms(3) 2(1,2)]
  let ?child = "\<lparr>p_pid = k_next_pid k, p_ppid = k_current k, p_state = Ready, p_page_table = child_pt,
    p_trap_frame = child_frame tf, p_kernel_stack = kstack + 2 * 4096, p_brk = p_brk parent,
    p_exit_code = 0, p_fd_table = p_fd_table parent\<rparr>"
  have procs: "proc_of k' u = (if u = k_next_pid k then Some ?child else proc_of k u)" for u
    using wf by (simp add: 2(4) proc_of_def bt.get_put)
  have "sched_inv k'"
    using assms(1,4) by (rule_tac sched_inv_insert) (simp_all add: 2(4) child_frame_def)
  moreover have "k_mm k' = s'"
    by (simp add: 2(4))
  ultimately show ?thesis
    using 2(3) mem procs by (auto simp: child_frame_def)
qed

lemma demo_clone:
  obtains pt t child s kstack s' where "space_ok t (root_ppn pt)" "user_pages (root_ppn pt) t = {vpn_indices 0x400}"
    "pt_translate (ram t) pt 0x400010 = Some 0x80300010" "clone_user_space t pt = Inr (Some child, s)"
    "alloc_pages s 2 = (Some kstack, s')"
proof -
  obtain pt s t where t: "space_ok t (root_ppn pt)" "user_pages (root_ppn pt) t = {vpn_indices 0x400}"
      "frames_used t + 900 \<le> frames_limit t" "pt_translate (ram t) pt 0x400010 = Some 0x80300010"
    by (rule demo_space)
  obtain child s1 where clone: "clone_user_space t pt = Inr (Some child, s1)"
      "clone_inv t (root_ppn pt) (root_ppn child) (user_pages (root_ppn pt) t) s1"
    by (rule clone_user_space_inv [OF t(1)]) (use t(2,3) in \<open>auto simp: short_of_frames_def\<close>)
  have room: "frames_ok s1" "frames_used s1 + 2 \<le> frames_limit s1"
    using clone(2) t(2,3) by (auto simp: clone_inv_def pt_inv_def)
  obtain x s2 where al: "alloc_pages s1 2 = (x, s2)" by fastforce
  have "x \<noteq> None"
  proof (cases rule: alloc_pages_cases [OF room(1) _ al])
    case 2
    then show ?thesis
      using frames_room [OF room(1), of 2] room(2) by simp
  qed (simp_all add: pages_ok_def)
  then obtain kstack where "x = Some kstack" by blast
  then show thesis
    using al by (intro that [OF t(1,2,4) clone(1)]) simp
qed

theorem fork_correct_witness:
  "\<exists>(k :: (unit, unit) kernel) k' child. fork_process k trap_frame_new = Inr (Some 3, k') \<and> proc_of k' 3 = Some child \<and>
     p_state child = Ready \<and> tf_sepc (p_trap_frame child) = 4 \<and>
     (\<exists>pa'. pt_translate (kram k') (p_page_table child) 0x400010 = Some pa' \<and> kram k' pa' = kram k 0x80300010)"
proof -
  obtain pt t child s1 kstack s2 where t: "space_ok t (root_ppn pt)" "user_pages (root_ppn pt) t = {vpn_indices 0x400}"
      "pt_translate (ram t) pt 0x400010 = Some 0x80300010"
    and clone: "clone_user_space t pt = Inr (Some child, s1)" "alloc_pages s1 2 = (Some kstack, s2)"
    by (rule demo_clone)
  define p where "p = (demo_proc 1 Running)\<lparr>p_page_table := pt\<rparr>"
  define k where "k = demo_kernel\<lparr>k_mm := t, k_procs := [(1, p)]\<rparr>"
  have inv: "sched_inv k" "proc_of k (k_current k) = Some p" "k_next_pid k = 3"
    by (auto simp: sched_inv_def k_def p_def demo_kernel_def demo_proc_def proc_of_def bt_get_def bt_wf_def
        trap_frame_new_def split: if_splits)
  obtain k' where run: "fork_process k trap_frame_new = Inr (Some 3, k')"
    using clone inv by (auto simp: fork_process_def k_def p_def demo_kernel_def bt_get_def Let_def)
  have eqs: "k_mm k = t" "p_page_table p = pt"
    by (simp_all add: k_def p_def)
  have va: "user_va (k_mm k) (p_page_table p) 0x400010"
    using t(2) by (simp add: user_va_def eqs)
  have sp: "space_ok (k_mm k) (root_ppn (p_page_table p))" and len: "length (tf_regs trap_frame_new) = 32"
    using t(1) by (simp_all add: eqs trap_frame_new_def)
  from fork_correct [OF inv(1,2) sp len run] obtain child where child:
    "proc_of k' 3 = Some child" "p_state child = Ready" "tf_sepc (p_trap_frame child) = tf_sepc trap_frame_new + 4"
    "\<forall>va. user_va (k_mm k) (p_page_table p) va \<longrightarrow>
           (\<exists>pa pa'. pt_translate (kram k) (p_page_table p) va = Some pa \<and>
              pt_translate (kram k') (p_page_table child) va = Some pa' \<and> kram k' pa' = kram k pa \<and>
              \<not> allocated (k_mm k) (drop_bit 12 pa'))"
    by blast
  then obtain pa pa' where pa: "pt_translate (kram k) pt 0x400010 = Some pa"
      "pt_translate (kram k') (p_page_table child) 0x400010 = Some pa'" "kram k' pa' = kram k pa"
    using va eqs(2) by blast
  then have "pa = 0x80300010"
    using t(3) by (simp add: eqs)
  then show ?thesis
    using run child(1-3) pa(2,3) by (intro exI [of _ k] exI [of _ k'] exI [of _ child]) (simp add: trap_frame_new_def)
qed

end
