(* ===== verification/Kernel_Inv.thy ===== *)
theory Kernel_Inv
  imports Trap_Handler Fork_Exit Elf_Load
begin

text \<open>
  The invariant of the whole kernel and the operations that keep it.  Every handler is treated
  with a small calculus of partial correctness: \<open>post r P\<close> says that the outcome \<open>r\<close>, if it is not
  a panic, a fault or an endless loop, satisfies \<open>P\<close>.
\<close>

section \<open>Partial correctness\<close>

definition post :: "'a res \<Rightarrow> ('a \<Rightarrow> bool) \<Rightarrow> bool" where
  "post r P \<longleftrightarrow> (\<forall>x. r = Inr x \<longrightarrow> P x)"

lemma post_simps [simp]:
  "post (Inl e) P"
  "post (Inr x) P = P x"
  "post (res_bind r f) P = post r (\<lambda>x. post (f x) P)"
  by (auto simp: post_def res_bind_Inr_iff)

lemma post_mono: "post r P \<Longrightarrow> (\<And>x. P x \<Longrightarrow> Q x) \<Longrightarrow> post r Q"
  by (auto simp: post_def)

lemma postI: "(\<And>x. r = Inr x \<Longrightarrow> P x) \<Longrightarrow> post r P"
  by (simp add: post_def)

lemma postD: "post r P \<Longrightarrow> r = Inr x \<Longrightarrow> P x"
  by (simp add: post_def)

lemma post_if: "(b \<Longrightarrow> post r P) \<Longrightarrow> (\<not> b \<Longrightarrow> post q P) \<Longrightarrow> post (if b then r else q) P"
  by simp

lemma post_fold:
  assumes "I s" "\<And>t x. I t \<Longrightarrow> post (f t x) I"
  shows "post (res_fold f s xs) I"
  using assms(1)
proof (induction xs arbitrary: s)
  case (Cons x xs)
  show ?case
  proof (cases "f s x")
    case (Inr t)
    then show ?thesis
      using Cons assms(2) [OF Cons.prems, of x] by simp
  qed simp
qed simp

lemma post_flow_fold:
  assumes "I s" "\<And>t x. I t \<Longrightarrow> post (f t x) (\<lambda>r. I (flow_state r))"
  shows "post (flow_fold f s xs) (\<lambda>r. I (flow_state r))"
  using assms(1)
proof (induction xs arbitrary: s)
  case (Cons x xs)
  show ?case
  proof (cases "f s x")
    case (Inr r)
    then show ?thesis
      using Cons assms(2) [OF Cons.prems, of x] by (cases r) simp_all
  qed simp
qed simp

section \<open>Memory operations\<close>

lemma frames_ok_cong: "page_alloc t = page_alloc s \<Longrightarrow> frames_ok t = frames_ok s"
  by (simp add: frames_ok_def)

lemma grow_ok: "frames_grow s t \<Longrightarrow> frames_ok t"
  by (simp add: frames_grow_def)

lemma post_pt_map: "frames_ok s \<Longrightarrow> post (pt_map s pt va pa fl) frames_ok"
  by (auto intro: postI grow_ok pt_map_grow)

lemma alloc_page_ok: "frames_ok s \<Longrightarrow> alloc_page s = (x, t) \<Longrightarrow> frames_ok t"
  by (blast intro: grow_ok alloc_page_grow)

lemma page_table_new_ok: "frames_ok s \<Longrightarrow> page_table_new s = (x, t) \<Longrightarrow> frames_ok t"
  by (auto simp: page_table_new_def split: prod.splits option.splits intro: alloc_page_ok)

lemma alloc_pages_ok: "frames_ok s \<Longrightarrow> pages_ok n \<Longrightarrow> alloc_pages s n = (x, t) \<Longrightarrow> frames_ok t"
  by (cases rule: alloc_pages_cases) auto

lemma post_map_kernel_regions: "frames_ok s \<Longrightarrow> post (map_kernel_regions s pt) frames_ok"
  unfolding map_kernel_regions_def pt_map_all_def
  by (rule post_fold) (auto simp: pt_map_entry_def split: prod.splits intro: post_pt_map)

lemma post_clone_copy:
  assumes "frames_ok s"
  shows "post (clone_copy pt s va pa fl) (\<lambda>r. frames_ok (flow_state r))"
proof -
  obtain x t where al: "alloc_page s = (x, t)" by fastforce
  have "frames_ok (t\<lparr>ram := m\<rparr>)" for m
    using alloc_page_ok [OF assms al] by (simp add: frames_ok_def)
  then show ?thesis
    using alloc_page_ok [OF assms al] post_pt_map
    by (auto simp: clone_copy_def al Let_def split: option.splits)
qed

lemma post_clone_user_space: "frames_ok s \<Longrightarrow> post (clone_user_space s pt) (\<lambda>r. frames_ok (snd r))"
proof -
  assume s: "frames_ok s"
  have page: "post (clone_page pt i j p t k) (\<lambda>r. frames_ok (flow_state r))" if "frames_ok t" for pt i j p t k
    using that post_clone_copy by (auto simp: clone_page_def Let_def)
  have table: "post (clone_table pt i p t j) (\<lambda>r. frames_ok (flow_state r))" if "frames_ok t" for pt i p t j
    using that page by (auto simp: clone_table_def Let_def intro!: post_flow_fold)
  have dir: "post (clone_dir pt p t j) (\<lambda>r. frames_ok (flow_state r))" if "frames_ok t" for pt p t j
    using that table by (auto simp: clone_dir_def Let_def intro!: post_flow_fold)
  have all: "post (flow_fold (clone_dir pt' p) t xs) (\<lambda>r. frames_ok (flow_state r))" if "frames_ok t" for pt' p t xs
    using that dir by (intro post_flow_fold)
  show ?thesis
  proof (cases "page_table_new s")
    case (Pair x t)
    have t: "frames_ok t" by (rule page_table_new_ok [OF s Pair])
    have "post (map_kernel_regions t p) (\<lambda>u. post (flow_fold (clone_dir p (root_ppn pt)) u table_indices)
        (\<lambda>r. post (case r of Return s \<Rightarrow> Inr (None, s) | Next s \<Rightarrow> Inr (Some p, s)) (\<lambda>r. frames_ok (snd r))))" for p
    proof (rule post_mono [OF post_map_kernel_regions [OF t]])
      fix u assume "frames_ok u"
      from all [OF this] show "post (flow_fold (clone_dir p (root_ppn pt)) u table_indices)
        (\<lambda>r. post (case r of Return s \<Rightarrow> Inr (None, s) | Next s \<Rightarrow> Inr (Some p, s)) (\<lambda>r. frames_ok (snd r)))"
        by (rule post_mono) (auto split: flow.splits)
    qed
    with t show ?thesis
      by (cases x) (simp_all add: clone_user_space_def Pair)
  qed
qed

lemma post_map_stack: "frames_ok s \<Longrightarrow> post (map_stack s pt) (\<lambda>r. frames_ok (snd r))"
proof -
  assume "frames_ok s"
  moreover have "post (map_stack_page pt st i) (\<lambda>r. frames_ok (snd (flow_state r)))" if "frames_ok (snd st)" for st i
    using that alloc_page_ok [OF that] post_pt_map
    by (auto simp: map_stack_page_def split: prod.splits option.splits)
  ultimately have "post (flow_fold (map_stack_page pt) (0, s) (map of_nat [0..<9])) (\<lambda>r. frames_ok (snd (flow_state r)))"
    by (intro post_flow_fold [where I = "\<lambda>st. frames_ok (snd st)"]) simp_all
  then show ?thesis
    unfolding map_stack_def post_simps by (rule post_mono) (auto split: flow.splits)
qed

lemma align_elf_ok: "frames_ok s \<Longrightarrow> align_elf s d = (x, t) \<Longrightarrow> frames_ok t"
  by (auto simp: align_elf_def frames_ok_def split: if_splits prod.splits option.splits)

lemma post_load_elf: "frames_ok s \<Longrightarrow> post (load_elf_into s pt data elf) (\<lambda>r. frames_ok (snd r))"
proof -
  assume "frames_ok s"
  then have "post (flow_fold (load_segment n pt data) (0, s) phs) (\<lambda>r. frames_ok (snd (flow_state r)))" for n phs
    by (intro postI) (blast intro: grow_ok load_segments_grow)
  then show ?thesis
    unfolding load_elf_into_def post_simps by (rule post_mono) (auto split: flow.splits)
qed

definition load_rest ::
  "mm_state \<Rightarrow> page_table \<Rightarrow> usize \<Rightarrow> elf_file \<Rightarrow> usize \<Rightarrow> u8 list list \<Rightarrow> u8 list list \<Rightarrow> (image_info option \<times> mm_state) res"
where
  "load_rest t pt data elf top_page argv envp =
     res_bind (load_elf_into t pt data elf) (\<lambda>(r, s).
       case r of None \<Rightarrow> Inr (None, s) | Some e \<Rightarrow>
         (let (sp, m) = build_stack (ram s) top_page stack_top argv envp (base_vaddr elf + elf_ph_offset elf)
                (elf_ph_entry_size elf) (elf_ph_count elf) (elf_entry elf);
              brk = (e + 4096 - 1) AND NOT (4096 - 1)
          in Inr (Some \<lparr>im_sp = sp, im_entry = elf_entry elf, im_brk = (if brk = 0 then 0x10000 else brk)\<rparr>, s\<lparr>ram := m\<rparr>)))"

lemma load_image_rest:
  "load_image E s pt d argv envp =
     res_bind (map_stack s pt) (\<lambda>(first, s).
     case first of None \<Rightarrow> Inr (None, s) | Some top_page \<Rightarrow>
     (case align_elf s d of
        (None, s) \<Rightarrow> Inr (None, s)
      | (Some data, s) \<Rightarrow>
          (case elf_parse E d of
             None \<Rightarrow> Inr (None, s)
           | Some elf \<Rightarrow> load_rest s pt data elf top_page argv envp)))"
  unfolding load_image_def load_rest_def Let_def ..

lemma post_load_rest:
  assumes "frames_ok t"
  shows "post (load_rest t pt data elf top_page argv envp) (\<lambda>r. frames_ok (snd r))"
proof -
  have ram: "frames_ok (s\<lparr>ram := m\<rparr>) = frames_ok s" for s m
    by (simp add: frames_ok_def)
  show ?thesis
    unfolding load_rest_def post_simps
    by (rule post_mono [OF post_load_elf [OF assms]])
      (auto simp: ram Let_def split_beta split: option.splits)
qed

lemma post_load_image:
  assumes "frames_ok s"
  shows "post (load_image E s pt d argv envp) (\<lambda>r. frames_ok (snd r))"
  unfolding load_image_rest post_simps
proof (rule post_mono [OF post_map_stack [OF assms]])
  fix z :: "usize option \<times> mm_state"
  assume z: "frames_ok (snd z)"
  obtain first t where zz: "z = (first, t)" by fastforce
  obtain x u where al: "align_elf t d = (x, u)" by fastforce
  have u: "frames_ok u"
    using z zz align_elf_ok [OF _ al] by simp
  show "post (case z of (first, s) \<Rightarrow> case first of None \<Rightarrow> Inr (None, s) | Some top_page \<Rightarrow>
     (case align_elf s d of (None, s) \<Rightarrow> Inr (None, s) | (Some data, s) \<Rightarrow>
          (case elf_parse E d of None \<Rightarrow> Inr (None, s)
           | Some elf \<Rightarrow> load_rest s pt data elf top_page argv envp))) (\<lambda>r. frames_ok (snd r))"
    using z u post_load_rest [OF u] by (simp add: zz al split: option.split)
qed

lemma post_exec_process:
  assumes s: "frames_ok s"
  shows "post (exec_process E s proc d argv envp) (\<lambda>(r, proc', s'). frames_ok s' \<and> p_pid proc' = p_pid proc \<and>
    p_ppid proc' = p_ppid proc \<and> p_state proc' = p_state proc \<and>
    length (tf_regs (p_trap_frame proc')) = length (tf_regs (p_trap_frame proc)))"
proof (cases "page_table_new s")
  case (Pair x t)
  have t: "frames_ok t" by (rule page_table_new_ok [OF s Pair])
  show ?thesis
  proof (cases x)
    case (Some pt)
    show ?thesis
      unfolding exec_process_def Pair Some prod.case option.case post_simps
    proof (rule post_mono [OF post_map_kernel_regions [OF t]])
      fix u assume "frames_ok u"
      from post_load_image [OF this] show "post (load_image E u pt d argv envp)
        (\<lambda>z. post (case z of (info, s) \<Rightarrow> (case info of None \<Rightarrow> Inr (None, proc, s) | Some im \<Rightarrow>
            (let tf = p_trap_frame proc in
             Inr (Some (im_sp im),
               proc\<lparr>p_page_table := pt, p_brk := im_brk im,
                 p_trap_frame := tf\<lparr>tf_sepc := im_entry im, tf_sstatus := user_sstatus,
                   tf_regs := (tf_regs tf)[2 := im_sp im]\<rparr>\<rparr>, s))))
        (\<lambda>(r, proc', s'). frames_ok s' \<and> p_pid proc' = p_pid proc \<and> p_ppid proc' = p_ppid proc \<and>
          p_state proc' = p_state proc \<and>
          length (tf_regs (p_trap_frame proc')) = length (tf_regs (p_trap_frame proc))))"
        by (rule post_mono) (auto simp: Let_def split: option.splits)
    qed
  qed (use t in \<open>simp add: exec_process_def Pair\<close>)
qed

section \<open>The invariant\<close>

text \<open>
  Processes: pids are keys, lie below the counter and above the pid of the parent; register
  files are complete; only the current process, which exists, may be marked as running.
\<close>

definition procs_inv :: "('s, 'h) kernel \<Rightarrow> bool" where
  "procs_inv k \<longleftrightarrow> sched_inv k \<and> proc_of k (k_current k) \<noteq> None \<and>
     (\<forall>pid p. proc_of k pid = Some p \<longrightarrow> p_pid p = pid \<and> pid < k_next_pid k \<and> p_ppid p < pid)"

text \<open>
  Descriptors: the three standard ones are open, a descriptor of a pipe has its pipe, a
  descriptor of a file has its file.
\<close>

definition fd_ok :: "('s, 'h) kernel \<Rightarrow> open_file \<Rightarrow> bool" where
  "fd_ok k f \<longleftrightarrow> (\<forall>i. of_pipe_id f = Some i \<longrightarrow> bt_get (k_pipes k) i \<noteq> None) \<and>
     (of_pipe_id f = None \<longrightarrow> of_inode f \<noteq> 0 \<longrightarrow> inode_file (k_fs k) (of_inode f) \<noteq> None)"

definition fds_inv :: "('s, 'h) kernel \<Rightarrow> bool" where
  "fds_inv k \<longleftrightarrow> fd_wf (k_fds k) \<and> (\<forall>fd < 3. fd_get (k_fds k) fd \<noteq> None) \<and>
     (\<forall>fd f. fd_get (k_fds k) fd = Some f \<longrightarrow> fd_ok k f)"

definition pipes_inv :: "('s, 'h) kernel \<Rightarrow> bool" where
  "pipes_inv k \<longleftrightarrow> bt_wf (k_pipes k) \<and>
     (\<forall>i q. bt_get (k_pipes k) i = Some q \<longrightarrow> pipe_inv q \<and> i < k_next_pipe k)"

definition fake_inv :: "('s, 'h) kernel \<Rightarrow> bool" where
  "fake_inv k \<longleftrightarrow> bt_wf (k_fake k) \<and> 100 \<le> k_fake_next k \<and>
     (\<forall>fd t. bt_get (k_fake k) fd = Some t \<longrightarrow> 100 \<le> fd \<and> fd < k_fake_next k) \<and>
     bt_wf (nt_fd_to_handle (k_net k)) \<and> bt_wf (nt_epoll_data (k_net k))"

definition kernel_inv :: "('s, 'h) kernel \<Rightarrow> bool" where
  "kernel_inv k \<longleftrightarrow> procs_inv k \<and> length (tf_regs (k_ctf k)) = 32 \<and> fs_wf (k_fs k) \<and> fds_inv k \<and>
     pipes_inv k \<and> fake_inv k \<and> frames_ok (k_mm k)"

text \<open>
  No counter is about to wrap around: two more of everything still fit.  A system call takes
  at most two descriptors, one pid, one inode and one pipe.
\<close>

definition counters_ok :: "('s, 'h) kernel \<Rightarrow> bool" where
  "counters_ok k \<longleftrightarrow> k_next_pid k + 1 \<noteq> 0 \<and> fs_next_inode (k_fs k) + 1 \<noteq> 0 \<and> k_next_pipe k + 1 \<noteq> 0 \<and>
     unat (k_fake_next k) + 2 < 2 ^ 64 \<and> 40 * (length (fd_files (k_fds k)) + 2) < 2 ^ 63"

section \<open>Steps that only touch memory, the console, the clock or the network stack\<close>

definition quiet :: "('s, 'h) kernel \<Rightarrow> ('s, 'h) kernel \<Rightarrow> bool" where
  "quiet k k' \<longleftrightarrow> k_procs k' = k_procs k \<and> k_current k' = k_current k \<and> k_next_pid k' = k_next_pid k \<and>
     k_ctf k' = k_ctf k \<and> k_fs k' = k_fs k \<and> k_fds k' = k_fds k \<and> k_fake k' = k_fake k \<and>
     k_fake_next k' = k_fake_next k \<and> k_pipes k' = k_pipes k \<and> k_next_pipe k' = k_next_pipe k \<and>
     nt_fd_to_handle (k_net k') = nt_fd_to_handle (k_net k) \<and> nt_epoll_data (k_net k') = nt_epoll_data (k_net k) \<and>
     nt_listen_fd (k_net k') = nt_listen_fd (k_net k) \<and> page_alloc (k_mm k') = page_alloc (k_mm k)"

lemma quiet_refl [simp]: "quiet k k"
  by (simp add: quiet_def)

lemma quiet_trans: "quiet k k' \<Longrightarrow> quiet k' k'' \<Longrightarrow> quiet k k''"
  by (simp add: quiet_def)

lemma quiet_inv: "quiet k k' \<Longrightarrow> kernel_inv k' = kernel_inv k"
  by (simp add: quiet_def kernel_inv_def procs_inv_def sched_inv_def proc_of_def fds_inv_def fd_ok_def
      pipes_inv_def fake_inv_def frames_ok_def)

lemma quiet_counters: "quiet k k' \<Longrightarrow> counters_ok k' = counters_ok k"
  by (simp add: quiet_def counters_ok_def)

lemma quiet_updates [simp]:
  "quiet k (k\<lparr>k_mm := (k_mm k)\<lparr>ram := m\<rparr>\<rparr>)" "quiet k (k\<lparr>k_mm := (k_mm k)\<lparr>heap_alloc := h\<rparr>\<rparr>)"
  "quiet k (k\<lparr>k_out := out\<rparr>)" "quiet k (k\<lparr>k_polls := n\<rparr>)" "quiet k (k\<lparr>k_ticks := n\<rparr>)"
  "quiet k (k\<lparr>k_net := (k_net k)\<lparr>nt_stack := st\<rparr>\<rparr>)" "quiet k (k\<lparr>k_last_tp := tp\<rparr>)"
  "quiet k (k\<lparr>k_mmap_base := b\<rparr>)" "quiet k (k\<lparr>k_satp := satp\<rparr>)"
  by (simp_all add: quiet_def)

lemma quiet_uart [simp]: "quiet k (console_print k s)"
  by (simp add: console_print_eq)

lemma quiet_log [simp]: "quiet k (log_record E k l args)"
  using log_record_out [of E k l args] by auto

lemma post_quiet: "post r (\<lambda>x. quiet k (f x)) \<Longrightarrow> (\<And>x. quiet k (f x) \<Longrightarrow> Q x) \<Longrightarrow> post r Q"
  by (auto simp: post_def)

lemma post_vstore: "post (vstore E k va bs) (quiet k)"
proof (induction bs arbitrary: k va)
  case (Cons b bs)
  show ?case
  proof (cases "mmu E (kram k) (k_satp k) True va")
    case (Some pa)
    have "post (vstore E (set_ram k ((kram k)(pa := b))) (va + 1) bs) (quiet k)"
      by (rule post_mono [OF Cons]) (metis quiet_trans quiet_updates(1))
    then show ?thesis by (simp add: Some)
  qed simp
qed simp

lemma post_vstores [simp]:
  "post (vfill E k va b n) (quiet k)" "post (vstore_u16 E k va v) (quiet k)"
  "post (vstore_u32 E k va w) (quiet k)" "post (vstore_u64 E k va x) (quiet k)"
  by (simp_all add: vfill_def vstore_u16_def vstore_u32_def vstore_u64_def post_vstore)

lemma post_vec_zeroed: "post (vec_zeroed k n) (\<lambda>r. quiet k (snd r))"
  by (auto simp: vec_zeroed_def split: prod.splits option.splits)

lemma quiet_getchar: "getchar E k = (c, k') \<Longrightarrow> quiet k k'"
  by (auto simp: getchar_def Let_def split: if_splits)

lemma quiet_time: "read_time E k = (t, k') \<Longrightarrow> quiet k k'" "get_time_ms E k = (t, k') \<Longrightarrow> quiet k k'"
  by (auto simp: get_time_ms_def read_time_def)

text \<open>
  A handler is calm when its outcome is quiet.  The rules follow the shape of the code, so that
  calm handlers are found by the automation.
\<close>

definition calm :: "('s, 'h) kernel \<Rightarrow> ('x \<times> ('s, 'h) kernel) res \<Rightarrow> bool" where
  "calm k r \<longleftrightarrow> post r (\<lambda>x. quiet k (snd x))"

definition calm1 :: "('s, 'h) kernel \<Rightarrow> ('s, 'h) kernel res \<Rightarrow> bool" where
  "calm1 k r \<longleftrightarrow> post r (quiet k)"

named_theorems calms

lemma calm_Inl [calms]: "calm k (Inl e)" "calm1 k (Inl e)"
  by (simp_all add: calm_def calm1_def)

lemma calm_Inr [calms]: "quiet k k' \<Longrightarrow> calm k (Inr (x, k'))" "quiet k k' \<Longrightarrow> calm1 k (Inr k')"
  by (simp_all add: calm_def calm1_def)

lemma calm_then1:
  assumes "calm1 k r"
  shows "(\<And>k'. calm k' (f k')) \<Longrightarrow> calm k (res_bind r f)" "(\<And>k'. calm1 k' (g k')) \<Longrightarrow> calm1 k (res_bind r g)"
  using assms by (auto simp: calm_def calm1_def post_def res_bind_Inr_iff intro: quiet_trans)

lemma calm_then2:
  assumes "calm k r"
  shows "(\<And>x k'. calm k' (f (x, k'))) \<Longrightarrow> calm k (res_bind r f)"
    "(\<And>x k'. calm1 k' (g (x, k'))) \<Longrightarrow> calm1 k (res_bind r g)"
  using assms by (auto simp: calm_def calm1_def post_def res_bind_Inr_iff intro: quiet_trans)

lemma calm_after:
  "(\<And>x. r = Inr x \<Longrightarrow> calm k (f x)) \<Longrightarrow> calm k (res_bind r f)"
  "(\<And>x. r = Inr x \<Longrightarrow> calm1 k (g x)) \<Longrightarrow> calm1 k (res_bind r g)"
  by (auto simp: calm_def calm1_def post_def res_bind_Inr_iff)

lemma calm_if [calms]:
  "(b \<Longrightarrow> calm k r) \<Longrightarrow> (\<not> b \<Longrightarrow> calm k q) \<Longrightarrow> calm k (if b then r else q)"
  "(b \<Longrightarrow> calm1 k r1) \<Longrightarrow> (\<not> b \<Longrightarrow> calm1 k q1) \<Longrightarrow> calm1 k (if b then r1 else q1)"
  by simp_all

lemma calm_case [calms]:
  "(o' = None \<Longrightarrow> calm k r) \<Longrightarrow> (\<And>y. o' = Some y \<Longrightarrow> calm k (f y)) \<Longrightarrow> calm k (case o' of None \<Rightarrow> r | Some y \<Rightarrow> f y)"
  "(o' = None \<Longrightarrow> calm1 k r1) \<Longrightarrow> (\<And>y. o' = Some y \<Longrightarrow> calm1 k (g y)) \<Longrightarrow> calm1 k (case o' of None \<Rightarrow> r1 | Some y \<Rightarrow> g y)"
  "(\<And>a b. p = (a, b) \<Longrightarrow> calm k (h a b)) \<Longrightarrow> calm k (case p of (a, b) \<Rightarrow> h a b)"
  by (cases o'; simp; fail | cases p; simp)+

lemma calm_trans: "quiet k k' \<Longrightarrow> calm k' r \<Longrightarrow> calm k r" "quiet k k' \<Longrightarrow> calm1 k' r1 \<Longrightarrow> calm1 k r1"
  by (auto simp: calm_def calm1_def post_def intro: quiet_trans)

lemma calm_stores [calms]:
  "calm1 k (vstore E k va bs)" "calm1 k (vfill E k va b n)" "calm1 k (vstore_u16 E k va v)"
  "calm1 k (vstore_u32 E k va w)" "calm1 k (vstore_u64 E k va x)"
  by (simp_all add: calm1_def post_vstore)

lemma calm_vec [calms]: "calm k (vec_zeroed k n)"
  by (simp add: calm_def post_vec_zeroed)

lemmas calm_binds =
  calm_then1 calm_then2
  calm_after [where r = "vload E k va n" for E k va n] calm_after [where r = "vload_u64 E k va" for E k va]
  calm_after [where r = "cstr E k p" for E k p] calm_after [where r = "read_inode s i n off" for s i n off]
  calm_after [where r = "get_socket E k h" for E k h]

declare calm_binds [calms]

lemma calm_inv: "calm k r \<Longrightarrow> kernel_inv k \<Longrightarrow> post r (\<lambda>x. kernel_inv (snd x))"
  by (auto simp: calm_def post_def quiet_inv)

section \<open>Calm handlers\<close>

lemma calm_fill_stat [calms]: "calm1 k (fill_stat E k buf sz)" "calm1 k (fill_stat_chr E k buf)"
  unfolding fill_stat_def fill_stat_chr_def Let_def by (intro calms)+

lemma calm_poll [calms]: "calm1 k (poll_network E k)"
  by (auto simp: poll_network_def calm1_def split: prod.splits option.splits dest!: quiet_time
      intro: quiet_trans quiet_updates)

lemma calm_net [calms]: "calm k (send_to_fd E k fd buf n)" "calm k (recv_from_fd E k fd buf n)"
  unfolding send_to_fd_def recv_from_fd_def Let_def
  by (intro calms quiet_refl quiet_updates)+

lemma calm_stdin_loop: "calm k (stdin_loop E buf count fuel n k)"
proof (induction fuel arbitrary: n k)
  case (Suc fuel)
  show ?case
  proof (cases "getchar E k")
    case (Pair c k')
    note q = quiet_getchar [OF Pair]
    have "calm k' (res_bind (vstore E (console_print k' echo) (buf + n) [d])
        (\<lambda>k. if d = 10 then Inr (n + 1, k) else stdin_loop E buf count fuel (n + 1) k))" for d echo
      by (rule calm_trans(1) [OF quiet_uart [of k' echo]]) (intro calms Suc quiet_refl)+
    moreover have "calm k' (stdin_loop E buf count fuel (n - 1) (console_print k' s))" for s
      by (rule calm_trans(1) [OF quiet_uart Suc])
    ultimately have "calm k' (stdin_loop E buf count (Suc fuel) n k)" if "n < count"
      using that Suc by (simp add: Pair del: vstore.simps split: option.splits prod.splits)
    then show ?thesis
      using calm_trans(1) [OF q] by (cases "n < count") (auto intro: calms)
  qed
qed (auto intro: calms)

text \<open>The handlers that store their answer in user memory, or only answer.\<close>

lemma calm_answers:
  "calm k (sys_fstat E k fd buf)" "calm k (stat_path E k path buf err)" "calm k (sys_faccessat E k path)"
  "calm k (sys_readlinkat E k path buf n)" "calm k (sys_pread64 E k fd buf n off)" "calm k (sys_fcntl k fd cmd)"
  "calm k (sys_ioctl E k fd req arg)" "calm k (sys_uname E k buf)" "calm k (sys_getcwd E k buf n)"
  "calm k (sys_getrlimit E k res buf)" "calm k (sys_prlimit64 E k res buf)" "calm k (sys_getrandom E k buf n)"
  unfolding sys_fstat_def stat_path_def sys_faccessat_def sys_readlinkat_def sys_pread64_def sys_fcntl_def
    sys_ioctl_def sys_uname_def sys_getcwd_def sys_getrlimit_def sys_prlimit64_def sys_getrandom_def
    Let_def
  by (simp only: prod.case | rule calms quiet_refl quiet_updates)+

lemma calm_clock: "calm k (sys_clock_gettime E k buf)"
proof (cases "read_time E k")
  case (Pair t k')
  show ?thesis
    unfolding sys_clock_gettime_def Pair prod.case
    by (rule calm_trans(1) [OF quiet_time(1) [OF Pair]]) (intro calms quiet_refl)+
qed

lemma calm_epoll_scan: "calm k (epoll_scan E k buf m count fds)"
proof (induction fds arbitrary: count k)
  case (Cons x fds)
  obtain fd h where "x = (fd, h)" by fastforce
  then show ?case
    by (simp only: epoll_scan.simps Let_def) (intro calms Cons quiet_refl)+
qed (auto intro: calms)

lemma calm_get_epoll_events [calms]: "calm k (get_epoll_events E k buf m)"
  unfolding get_epoll_events_def by (intro calms calm_epoll_scan)+

lemma calm_epoll_wait_loop: "calm k (epoll_wait_loop E buf m timeout deadline fuel k)"
proof (induction fuel arbitrary: k)
  case (Suc fuel)
  have "calm k' (case get_time_ms E k' of (now, k) \<Rightarrow>
      if sint d \<le> sint now then Inr (0, k) else epoll_wait_loop E buf m timeout deadline fuel k)" for k' d
    using quiet_time(2) [of E k'] calm_trans(1) [OF _ Suc]
    by (auto split: prod.split intro: calms)
  then have "calm k' (case (n, k') of (n, k) \<Rightarrow> if 0 < n then Inr (n, k) else if timeout = 0 then Inr (0, k)
      else (case deadline of None \<Rightarrow> epoll_wait_loop E buf m timeout deadline fuel k
            | Some d \<Rightarrow> (case get_time_ms E k of (now, k) \<Rightarrow>
                if sint d \<le> sint now then Inr (0, k) else epoll_wait_loop E buf m timeout deadline fuel k)))" for n k'
    using Suc [of k'] by (auto intro: calms simp del: epoll_wait_loop.simps split: option.split)
  then show ?case
    unfolding epoll_wait_loop.simps by (rule calm_then2(1) [OF calm_get_epoll_events])
qed (auto intro: calms)

lemma calm_epoll_pwait: "calm k (sys_epoll_pwait E k buf m timeout)"
proof (cases "get_time_ms E k")
  case (Pair t k')
  show ?thesis
    unfolding sys_epoll_pwait_def Pair prod.case Let_def
    by (rule calm_trans(1) [OF quiet_time(2) [OF Pair] calm_epoll_wait_loop])
qed

lemma calm_ppoll_loop: "calm k (ppoll_loop E fds left i ready k)"
proof (induction left arbitrary: i ready k)
  case (Suc left)
  show ?case
    by (simp only: ppoll_loop.simps Let_def) (intro calms Suc quiet_refl)+
qed (auto intro: calms)

lemma calm_ppoll: "calm k (sys_ppoll E k fds n)"
  unfolding sys_ppoll_def by (rule calm_then2(1) [OF calm_ppoll_loop]) (auto intro: calms)

lemma calm_listening: "calm k (is_listen_readable E k)"
  unfolding is_listen_readable_def by (intro calms quiet_refl)+

section \<open>State changes that keep the invariant\<close>

lemmas kernel_inv_defs = kernel_inv_def procs_inv_def sched_inv_def proc_of_def fds_inv_def fd_ok_def
  pipes_inv_def fake_inv_def

lemma inv_fd_set:
  assumes "kernel_inv k" "fd_get (k_fds k) fd = Some f" "of_pipe_id f' = of_pipe_id f" "of_inode f' = of_inode f"
  shows "kernel_inv (k\<lparr>k_fds := fd_set (k_fds k) fd f'\<rparr>)"
  using assms unfolding kernel_inv_defs by (simp add: fd_set_view fd_set_wf)

lemma inv_fs:
  assumes "kernel_inv k" "fs_wf s" "\<And>i. inode_file (k_fs k) i \<noteq> None \<Longrightarrow> inode_file s i \<noteq> None"
  shows "kernel_inv (k\<lparr>k_fs := s\<rparr>)"
  using assms unfolding kernel_inv_defs by simp

lemma inv_pipe:
  assumes "kernel_inv k" "pipe_inv q"
  shows "kernel_inv (k\<lparr>k_pipes := bt_modify (k_pipes k) i (\<lambda>_. q)\<rparr>)"
proof -
  have "bt_get (bt_modify (k_pipes k) i (\<lambda>_. q)) j =
      (if j = i then map_option (\<lambda>_. q) (bt_get (k_pipes k) i) else bt_get (k_pipes k) j)" for j
    using assms by (simp add: kernel_inv_defs bt.get_upd)
  then show ?thesis
    using assms unfolding kernel_inv_defs by (auto simp: bt.inv_upd)
qed

lemma inv_pipeD: "kernel_inv k \<Longrightarrow> bt_get (k_pipes k) i = Some q \<Longrightarrow> pipe_inv q"
  by (auto simp: kernel_inv_defs)

lemma inv_fake:
  assumes "kernel_inv k" "bt_wf m" "\<And>fd. bt_get m fd \<noteq> None \<Longrightarrow> bt_get (k_fake k) fd \<noteq> None"
  shows "kernel_inv (k\<lparr>k_fake := m\<rparr>)"
  using assms unfolding kernel_inv_defs by (auto simp: not_None_eq)

lemma inv_fake_modify: "kernel_inv k \<Longrightarrow> kernel_inv (k\<lparr>k_fake := bt_modify (k_fake k) fd g\<rparr>)"
  by (rule inv_fake) (auto simp: kernel_inv_defs bt.get_upd bt.inv_upd split: if_splits)

lemma inv_fake_remove: "kernel_inv k \<Longrightarrow> kernel_inv (k\<lparr>k_fake := bt_remove (k_fake k) fd\<rparr>)"
  by (rule inv_fake) (auto simp: kernel_inv_defs bt.get_del bt.inv_del split: if_splits)

lemma inv_fake_new:
  assumes "kernel_inv k" "k_fake_next k + 1 \<noteq> 0"
  shows "kernel_inv (k\<lparr>k_fake_next := k_fake_next k + 1\<rparr>)"
    "kernel_inv (k\<lparr>k_fake_next := k_fake_next k + 1, k_fake := bt_insert (k_fake k) (k_fake_next k) t\<rparr>)"
proof -
  have n: "x < k_fake_next k + 1" if "x < k_fake_next k \<or> x = k_fake_next k" for x
    using that word_less_succ(1) [OF _ assms(2)] word_less_succ(2) [OF assms(2)] by blast
  then have "100 \<le> k_fake_next k + 1"
    using assms(1) n [of "k_fake_next k"] unfolding kernel_inv_defs by (meson dual_order.trans less_imp_le)
  with n show "kernel_inv (k\<lparr>k_fake_next := k_fake_next k + 1\<rparr>)"
    "kernel_inv (k\<lparr>k_fake_next := k_fake_next k + 1, k_fake := bt_insert (k_fake k) (k_fake_next k) t\<rparr>)"
    using assms(1) unfolding kernel_inv_defs by (auto simp: bt.get_put bt.inv_put)
qed

lemma inv_net:
  assumes "kernel_inv k" "bt_wf (nt_fd_to_handle n)" "bt_wf (nt_epoll_data n)"
  shows "kernel_inv (k\<lparr>k_net := n\<rparr>)"
  using assms unfolding kernel_inv_defs by simp

lemma inv_netD: "kernel_inv k \<Longrightarrow> bt_wf (nt_fd_to_handle (k_net k)) \<and> bt_wf (nt_epoll_data (k_net k))"
  by (simp add: kernel_inv_defs)

lemma inv_fd_alloc:
  assumes "kernel_inv k" "fd_alloc (k_fds k) f = (fd, t)" "fd_ok k f" "40 * (length (fd_files (k_fds k)) + 1) < 2 ^ 63"
  shows "kernel_inv (k\<lparr>k_fds := t\<rparr>)"
proof -
  have wf: "fd_wf (k_fds k)" using assms(1) by (simp add: kernel_inv_defs)
  have "fd_get t = (fd_get (k_fds k))(fd \<mapsto> f)" "fd_wf t"
    using fd_alloc_free(3) [OF wf assms(2)] fd_wf_alloc [OF assms(4), of f] assms(2) by simp_all
  then show ?thesis
    using assms(1,3) unfolding kernel_inv_def procs_inv_def sched_inv_def proc_of_def fds_inv_def fd_ok_def
      pipes_inv_def fake_inv_def by simp
qed

lemma inv_fd_close:
  assumes "kernel_inv k" "\<not> fd < 3"
  shows "kernel_inv (k\<lparr>k_fds := fd_close (k_fds k) fd\<rparr>)"
  using assms unfolding kernel_inv_defs by (auto simp: fd_close_view fd_close_wf)

lemma inv_mm: "kernel_inv k \<Longrightarrow> frames_ok s \<Longrightarrow> kernel_inv (k\<lparr>k_mm := s\<rparr>)"
  unfolding kernel_inv_defs by simp

lemma inv_frames: "kernel_inv k \<Longrightarrow> frames_ok (k_mm k)"
  by (simp add: kernel_inv_def)

end
