(* ===== verification/Handler_Inv.thy ===== *)
theory Handler_Inv
  imports Kernel_Inv
begin

text \<open>
  Every system call keeps the invariant of the kernel, as long as no counter is about to wrap
  around.
\<close>

section \<open>What the components promise the handlers\<close>

lemma pipe_write_inv: "pipe_inv q \<Longrightarrow> pipe_write q data = Inr (n, q') \<Longrightarrow> pipe_inv q'"
  using pipe_write_loop_eq [of q 0 data] by (auto simp: pipe_write_def split: if_splits)

lemma pipe_read_inv: "pipe_inv q \<Longrightarrow> length out < 2 ^ 64 \<Longrightarrow> pipe_read q out = Inr (n, out', q') \<Longrightarrow> pipe_inv q'"
  using pipe_read_loop_eq [of q out 0] by (auto simp: pipe_read_def)

lemma write_inode_wf:
  assumes wf: "fs_wf s" and run: "write_inode s i buf off = Inr (n, s')" and len: "length buf < 2 ^ 64"
  shows "fs_wf s' \<and> (\<forall>j. inode_file s j \<noteq> None \<longrightarrow> inode_file s' j \<noteq> None)"
proof (cases "\<exists>p f v. inode_file s i = Some (p, f) \<and> file_data f = Dynamic v")
  case True
  then obtain p f v where f: "inode_file s i = Some (p, f)" "file_data f = Dynamic v" by blast
  let ?e = "off + of_nat (length buf)"
  obtain w where w: "(if of_nat (length v) < ?e then vec_resize v ?e else Inr v) = Inr w"
      and sl: "post (slice w off ?e) (\<lambda>_. True)" "\<exists>y. slice w off ?e = Inr y"
      and s': "s' = s\<lparr>fs_files := bt_modify (fs_files s) p
        (\<lambda>f. f\<lparr>file_data := Dynamic (take (unat off) w @ buf @ drop (unat ?e) w)\<rparr>)\<rparr>"
    using run f by (auto simp: write_inode_def file_as_mut_vec_def Let_def res_bind_Inr_iff post_def)
  have "length v < 2 ^ 63"
    using fs_wf_len [OF wf f(1)] by (simp add: file_slice_def f(2))
  then have wlen: "length w < 2 ^ 63"
    using w by (auto simp: vec_resize_def word_less_nat_alt not_less split: if_splits)
  have "off \<le> ?e" "unat ?e \<le> length w"
    using sl(2) by (auto simp: slice_def not_less split: if_splits)
  moreover have "unat (of_nat (length buf) :: usize) = length buf"
    using len by (simp add: unat_of_nat)
  ultimately have "unat ?e = unat off + length buf"
    by (metis unat_plus_simple)
  then have "length (take (unat off) w @ buf @ drop (unat ?e) w) < 2 ^ 63"
    using wlen \<open>unat ?e \<le> length w\<close> by simp
  then have "fs_wf s'"
    unfolding s' by (rule fs_wf_modify [OF wf])
  moreover have "bt_get (fs_files s') q \<noteq> None \<longleftrightarrow> bt_get (fs_files s) q \<noteq> None" for q
    using wf by (auto simp: s' fs_wf_def bt.get_upd)
  then have "inode_file s' j \<noteq> None" if "inode_file s j \<noteq> None" for j
    using that by (auto simp: inode_file_def s' split: option.splits)
  ultimately show ?thesis by blast
next
  case False
  then have "s' = s"
    using run by (auto simp: write_inode_def file_as_mut_vec_def split: option.splits file_contents.splits)
  then show ?thesis using wf by simp
qed

lemma lookup_inode: "fs_wf s \<Longrightarrow> fs_lookup s path = Some i \<Longrightarrow> inode_file s i \<noteq> None"
  by (auto simp: fs_lookup_iff inode_file_def fs_wf_def split: option.splits)

lemma mkdir_wf:
  assumes wf: "fs_wf s" and n: "fs_next_inode s + 1 \<noteq> 0"
  shows "fs_wf (fs_mkdir s path)" "inode_file s i \<noteq> None \<Longrightarrow> inode_file (fs_mkdir s path) i \<noteq> None"
proof -
  show "fs_wf (fs_mkdir s path)"
    unfolding fs_mkdir_def create_file_static_def using create_file_step [OF wf n] by (simp add: file_slice_def)
  assume i: "inode_file s i \<noteq> None"
  then have "i < fs_next_inode s"
    using wf by (auto simp: inode_file_def fs_wf_def split: option.splits)
  then show "inode_file (fs_mkdir s path) i \<noteq> None"
    using i wf by (auto simp: inode_file_def fs_mkdir_def create_file_static_def create_file_def Let_def fs_wf_def
        bt.get_put split: option.splits)
qed

section \<open>Handlers on files\<close>

definition keeps :: "('s, 'h) kernel \<Rightarrow> ('x \<times> ('s, 'h) kernel) res \<Rightarrow> bool" where
  "keeps k r \<longleftrightarrow> (kernel_inv k \<longrightarrow> post r (\<lambda>x. kernel_inv (snd x)))"

lemma keeps_calm: "calm k r \<Longrightarrow> keeps k r"
  by (simp add: keeps_def calm_inv)

lemma keeps_Inr: "(kernel_inv k \<Longrightarrow> kernel_inv k') \<Longrightarrow> keeps k (Inr (x, k'))"
  by (simp add: keeps_def)

lemma keeps_then1:
  "calm1 k r \<Longrightarrow> (\<And>k'. quiet k k' \<Longrightarrow> keeps k' (f k')) \<Longrightarrow> keeps k (res_bind r f)"
  by (auto simp: keeps_def calm1_def post_def res_bind_Inr_iff quiet_inv)

lemma keeps_then2:
  "calm k r \<Longrightarrow> (\<And>x k'. quiet k k' \<Longrightarrow> keeps k' (f (x, k'))) \<Longrightarrow> keeps k (res_bind r f)"
  by (fastforce simp: keeps_def calm_def post_def res_bind_Inr_iff quiet_inv)

lemma keeps_after: "(\<And>x. r = Inr x \<Longrightarrow> keeps k (f x)) \<Longrightarrow> keeps k (res_bind r f)"
  by (auto simp: keeps_def post_def res_bind_Inr_iff)

lemma keeps_trans: "quiet k k' \<Longrightarrow> keeps k' r \<Longrightarrow> keeps k r"
  by (simp add: keeps_def quiet_inv)

lemma quiet_fields:
  assumes "quiet k k'"
  shows "k_fds k' = k_fds k" "k_fs k' = k_fs k" "k_pipes k' = k_pipes k" "k_fake k' = k_fake k"
    "k_procs k' = k_procs k" "k_current k' = k_current k" "k_fake_next k' = k_fake_next k"
  using assms by (simp_all add: quiet_def)

lemma keeps_write_pipe: "keeps k (write_pipe E k i buf n)"
proof (cases "bt_get (k_pipes k) i")
  case (Some q)
  show ?thesis
    unfolding write_pipe_def Some option.case
  proof (rule keeps_then2 [OF calm_vec], unfold prod.case, intro keeps_after)
    fix k' tmp x assume "quiet k k'" and w: "pipe_write q tmp = Inr x"
    then have "bt_get (k_pipes k') i = Some q" using Some by (simp add: quiet_fields)
    then show "keeps k' (case x of (m, q) \<Rightarrow> Inr (m, k'\<lparr>k_pipes := bt_modify (k_pipes k') i (\<lambda>_. q)\<rparr>))"
      using w by (cases x) (auto intro!: keeps_Inr inv_pipe intro: pipe_write_inv inv_pipeD)
  qed
qed (simp add: write_pipe_def keeps_Inr)

lemma keeps_read_pipe: "keeps k (read_pipe E k i buf n)"
proof (cases "bt_get (k_pipes k) i")
  case (Some q)
  show ?thesis
    unfolding read_pipe_def Some option.case
  proof (rule keeps_then2 [OF calm_vec], unfold prod.case, rule keeps_after)
    fix k' x assume q: "quiet k k'" and r: "pipe_read q (replicate (unat n) 0) = Inr x"
    obtain m tmp q' where x: "x = (m, tmp, q')" by (cases x) auto
    have get: "bt_get (k_pipes k') i = Some q" using Some q by (simp add: quiet_fields)
    have small: "length (replicate (unat n) (0 :: u8)) < 2 ^ 64"
      using unsigned_less [of n] by simp
    have "keeps k'' (Inr (m, k''\<lparr>k_pipes := bt_modify (k_pipes k'') i (\<lambda>_. q')\<rparr>))" if "quiet k' k''" for k''
    proof (intro keeps_Inr inv_pipe)
      assume inv: "kernel_inv k''"
      have "bt_get (k_pipes k'') i = Some q"
        using that get by (simp add: quiet_fields)
      with inv have "pipe_inv q" by (rule inv_pipeD)
      then show "pipe_inv q'" using r small unfolding x by (blast intro: pipe_read_inv)
    qed
    then show "keeps k' (case x of (m, tmp, q) \<Rightarrow>
        res_bind (if 0 < m then vstore E k' buf (take (unat m) tmp) else Inr k') (\<lambda>k.
          Inr (m, k\<lparr>k_pipes := bt_modify (k_pipes k) i (\<lambda>_. q)\<rparr>)))"
      unfolding x prod.case by (intro keeps_then1) (auto intro: calms)
  qed
qed (simp add: read_pipe_def keeps_Inr)

lemma keeps_write_file:
  assumes "fd_get (k_fds k) fd = Some f"
  shows "keeps k (write_file E k fd f buf n)"
  unfolding write_file_def
proof (rule keeps_then2 [OF calm_vec], unfold prod.case, intro keeps_after)
  fix k' tmp x
  assume q: "quiet k k'" and ld: "vload E k' buf (unat n) = Inr tmp"
    and w: "write_inode (k_fs k') (of_inode f) tmp (of_offset f) = Inr x"
  have len: "length tmp < 2 ^ 64"
    using length_vload [OF ld] unsigned_less [of n] by simp
  obtain m fs where x: "x = (m, fs)" by fastforce
  have "kernel_inv (k'\<lparr>k_fs := fs, k_fds := fd_set (k_fds k') fd (f\<lparr>of_offset := of_offset f + m\<rparr>)\<rparr>)"
    if inv: "kernel_inv k'"
  proof -
    have wf: "fs_wf (k_fs k')" using inv by (simp add: kernel_inv_def)
    note fw = write_inode_wf [OF wf w [unfolded x] len]
    have "kernel_inv (k'\<lparr>k_fs := fs\<rparr>)"
      using fw by (intro inv_fs [OF inv]) blast+
    then show ?thesis
      using assms inv_fd_set [of "k'\<lparr>k_fs := fs\<rparr>" fd f "f\<lparr>of_offset := of_offset f + m\<rparr>"]
      by (simp add: quiet_fields [OF q])
  qed
  then show "keeps k' (case x of (m, fs) \<Rightarrow>
      Inr (m, k'\<lparr>k_fs := fs, k_fds := fd_set (k_fds k') fd (f\<lparr>of_offset := of_offset f + m\<rparr>)\<rparr>))"
    unfolding x prod.case by (rule keeps_Inr)
qed

lemma keeps_seek:
  assumes "fd_get (k_fds k) fd = Some f"
  shows "keeps k (Inr (x, k\<lparr>k_fds := fd_set (k_fds k) fd (f\<lparr>of_offset := off\<rparr>)\<rparr>))"
  using assms by (intro keeps_Inr inv_fd_set) simp_all

lemma keeps_read_file:
  assumes "fd_get (k_fds k) fd = Some f"
  shows "keeps k (read_file E k fd f buf n)"
  unfolding read_file_def Let_def
  by (rule keeps_then2 [OF calm_vec], unfold prod.case, rule keeps_after, rule keeps_then1 [OF calm_stores(1)],
      rule keeps_seek) (use assms in \<open>simp add: quiet_fields\<close>)

lemma keeps_nscd_read: "keeps k (nscd_read E k fd st buf n)"
proof -
  have "keeps k' (Inr (x, k'\<lparr>k_fake := bt_modify (k_fake k') fd g\<rparr>))" for k' g and x :: isize
    by (intro keeps_Inr inv_fake_modify)
  then have "keeps k (res_bind (vstore E k buf bs) (\<lambda>k'. Inr (x, k'\<lparr>k_fake := bt_modify (k_fake k') fd g\<rparr>)))"
    for bs g and x :: isize
    by (rule keeps_then1 [OF calm_stores(1)])
  then show ?thesis
    by (auto simp: nscd_read_def Let_def intro: keeps_Inr)
qed

lemma keeps_sys_write: "keeps k (sys_write E k fd buf n)"
proof -
  have "keeps k (if is_inet_socket k fd then send_to_fd E k fd buf n
      else (case fd_get (k_fds k) fd of None \<Rightarrow> Inr (- 1, k) | Some f \<Rightarrow>
        (case of_pipe_id f of Some pid \<Rightarrow> write_pipe E k pid buf n | None \<Rightarrow> write_file E k fd f buf n)))"
    by (auto intro: keeps_calm calm_net keeps_Inr keeps_write_pipe keeps_write_file split: option.split)
  then have "keeps k (res_bind q (\<lambda>_. if is_inet_socket k fd then send_to_fd E k fd buf n
      else (case fd_get (k_fds k) fd of None \<Rightarrow> Inr (- 1, k) | Some f \<Rightarrow>
        (case of_pipe_id f of Some pid \<Rightarrow> write_pipe E k pid buf n | None \<Rightarrow> write_file E k fd f buf n))))"
    for q :: "u8 list res"
    by (rule keeps_after)
  moreover have "keeps k (res_bind (vload E k buf (unat n)) (\<lambda>bytes.
      let s = (if utf8_valid bytes then bytes else t) in Inr (n, console_print k s)))" for t
    by (auto simp: Let_def intro!: keeps_calm calms)
  ultimately show ?thesis
    unfolding sys_write_def by (simp only: if_split) blast
qed

lemma keeps_read_other: "keeps k (read_other E k fd buf n)"
proof -
  have "keeps k (if is_inet_socket k fd then recv_from_fd E k fd buf n
      else (case fd_get (k_fds k) fd of None \<Rightarrow> Inr (- 1, k) | Some f \<Rightarrow>
        (case of_pipe_id f of Some pid \<Rightarrow> read_pipe E k pid buf n | None \<Rightarrow> read_file E k fd f buf n)))"
    by (auto intro: keeps_calm calm_net keeps_Inr keeps_read_pipe keeps_read_file split: option.split)
  then show ?thesis
    unfolding read_other_def by (auto intro: keeps_nscd_read split: option.split fake_fd_type.split)
qed

lemma keeps_sys_read: "keeps k (sys_read E k fd buf n)"
  unfolding sys_read_def
  by (auto intro: keeps_read_other keeps_calm calm_stdin_loop split: option.split)

lemma keeps_then:
  assumes "keeps k r" "\<And>x k'. keeps k' (f (x, k'))"
  shows "keeps k (res_bind r f)"
proof (cases r)
  case (Inr y)
  then show ?thesis
    using assms(1) assms(2) [of "snd y" "fst y"] by (simp add: keeps_def)
qed (simp add: keeps_def)

lemma keeps_writev_loop: "keeps k (writev_loop E fd iov left i tot k)"
proof (induction left arbitrary: i tot k)
  case (Suc left)
  have "keeps k' (case (n, k') of (n, k) \<Rightarrow> if sint n < 0 then Inr (if tot = 0 then n else tot, k)
      else if n < len then Inr (tot + n, k) else writev_loop E fd iov left (i + 1) (tot + n) k)" for n len k'
    using Suc by (auto intro: keeps_Inr)
  then have "keeps k (res_bind (sys_write E k fd base len) (\<lambda>(n, k). if sint n < 0 then Inr (if tot = 0 then n else tot, k)
      else if n < len then Inr (tot + n, k) else writev_loop E fd iov left (i + 1) (tot + n) k))" for base len
    by (rule keeps_then [OF keeps_sys_write])
  then show ?case
    unfolding writev_loop.simps Let_def by (intro keeps_after) (auto intro: Suc)
qed (simp add: keeps_Inr)

lemma keeps_sendfile: "keeps k (sys_sendfile E k out_fd in_fd n)"
proof -
  have "keeps k' (case (m, k') of (m, k) \<Rightarrow> if sint m \<le> 0 then Inr (m, k) else sys_write E k out_fd ptr m)" for m k' ptr
    by (auto intro: keeps_Inr keeps_sys_write)
  then have "keeps k' (res_bind (sys_read E k' in_fd ptr len)
      (\<lambda>(m, k). if sint m \<le> 0 then Inr (m, k) else sys_write E k out_fd ptr m))" for k' ptr len
    by (rule keeps_then [OF keeps_sys_read])
  then have "keeps k' (res_bind (sys_read E (set_ram k' m) in_fd ptr len)
      (\<lambda>(m, k). if sint m \<le> 0 then Inr (m, k) else sys_write E k out_fd ptr m))" for k' ptr len m
    by (rule keeps_trans [OF quiet_updates(1)])
  then show ?thesis
    unfolding sys_sendfile_def Let_def by (intro keeps_then2 [OF calm_vec]) simp
qed

lemma keeps_openat: "counters_ok k \<Longrightarrow> keeps k (sys_openat E k path flags)"
proof -
  assume c: "counters_ok k"
  have "keeps k (let (fd, t) = fd_alloc (k_fds k) \<lparr>of_inode = i, of_offset = 0, of_readable = True,
      of_writable = w, of_pipe_id = None\<rparr> in Inr (fd, k\<lparr>k_fds := t\<rparr>))" if "fs_lookup (k_fs k) p = Some i" for p i w
  proof -
    obtain fd t where al: "fd_alloc (k_fds k) \<lparr>of_inode = i, of_offset = 0, of_readable = True,
        of_writable = w, of_pipe_id = None\<rparr> = (fd, t)" by fastforce
    have "fd_ok k \<lparr>of_inode = i, of_offset = 0, of_readable = True, of_writable = w, of_pipe_id = None\<rparr>" if "kernel_inv k"
      using that lookup_inode [OF _ \<open>fs_lookup (k_fs k) p = Some i\<close>] by (simp add: fd_ok_def kernel_inv_def)
    moreover have "40 * (length (fd_files (k_fds k)) + 1) < 2 ^ 63"
      using c by (simp add: counters_ok_def)
    ultimately show ?thesis
      unfolding al Let_def prod.case by (blast intro: keeps_Inr inv_fd_alloc [OF _ al])
  qed
  then show ?thesis
    unfolding sys_openat_def Let_def by (auto intro!: keeps_after keeps_Inr split: option.split)
qed

lemma fd_small:
  assumes "(fd :: isize) < 3"
  shows "sint fd < 3 \<and> 0 \<le> sint fd"
proof -
  have "unat fd = 0 \<or> unat fd = 1 \<or> unat fd = 2"
    using assms by (auto simp: word_less_nat_alt)
  then have "fd = 0 \<or> fd = 1 \<or> fd = 2"
    by (auto simp: unat_eq_of_nat)
  then show ?thesis by auto
qed

lemma keeps_net_close:
  assumes "kernel_inv k"
  shows "post (net_close_fd E k fd) kernel_inv"
proof -
  have n: "bt_wf (nt_fd_to_handle (k_net k))" "bt_wf (nt_epoll_data (k_net k))"
    using inv_netD [OF assms] by simp_all
  have "kernel_inv (k\<lparr>k_net := (k_net k)\<lparr>nt_fd_to_handle := bt_remove (nt_fd_to_handle (k_net k)) fd, nt_stack := st,
      nt_epoll_data := bt_remove (nt_epoll_data (k_net k)) fd\<rparr>\<rparr>)" for st
    using n by (intro inv_net [OF assms]) (simp_all add: bt.inv_del)
  moreover have "kernel_inv (k\<lparr>k_net := (k_net k)\<lparr>nt_epoll_data := bt_remove (nt_epoll_data (k_net k)) fd\<rparr>\<rparr>)"
    using n by (intro inv_net [OF assms]) (simp_all add: bt.inv_del)
  ultimately show ?thesis
    by (auto simp: net_close_fd_def Let_def intro: postI split: option.split)
qed

lemma keeps_close: "keeps k (sys_close E k fd)"
  using fd_small [of fd]
  by (auto simp: sys_close_def keeps_def intro!: inv_fake_remove inv_fd_close post_mono [OF keeps_net_close])

lemma keeps_lseek: "keeps k (sys_lseek k fd off whence)"
  by (auto simp: sys_lseek_def Let_def intro: keeps_seek keeps_Inr split: option.split)

lemma keeps_getdents: "keeps k (sys_getdents64 E k fd buf n)"
proof (cases "fd_get (k_fds k) fd")
  case (Some f)
  have "keeps k' (case read_dir (k_fs k') (of_inode f) n (of_offset f) of (bytes, next_off) \<Rightarrow>
      (let n = of_nat (length bytes) in
       if 0 < n then res_bind (vstore E k' buf bytes) (\<lambda>k.
         Inr (n, k\<lparr>k_fds := fd_set (k_fds k) fd (f\<lparr>of_offset := next_off\<rparr>)\<rparr>)) else Inr (n, k')))" if "quiet k k'" for k'
    using that Some by (auto simp: Let_def quiet_fields intro!: keeps_Inr keeps_then1 [OF calm_stores(1)] keeps_seek
        split: prod.split)
  then show ?thesis
    unfolding sys_getdents64_def Some option.case by (intro keeps_then2 [OF calm_vec]) simp
qed (simp add: sys_getdents64_def keeps_Inr)

lemma keeps_mkdirat: "counters_ok k \<Longrightarrow> keeps k (sys_mkdirat E k path)"
proof -
  assume c: "counters_ok k"
  have "kernel_inv (k\<lparr>k_fs := fs_mkdir (k_fs k) p\<rparr>)" if inv: "kernel_inv k" for p
  proof -
    have "fs_wf (k_fs k)" "fs_next_inode (k_fs k) + 1 \<noteq> 0"
      using inv c by (simp_all add: kernel_inv_def counters_ok_def)
    from mkdir_wf [OF this] show ?thesis
      by (intro inv_fs [OF inv])
  qed
  then show ?thesis
    unfolding sys_mkdirat_def by (auto intro!: keeps_after keeps_Inr)
qed

lemma keeps_pwrite: "keeps k (sys_pwrite64 E k fd buf n off)"
proof (cases "fd_get (k_fds k) fd")
  case (Some f)
  show ?thesis
    unfolding sys_pwrite64_def Some option.case
  proof (rule keeps_then2 [OF calm_vec], unfold prod.case, intro keeps_after)
    fix k' tmp x
    assume ld: "vload E k' buf (unat n) = Inr tmp" and w: "write_inode (k_fs k') (of_inode f) tmp off = Inr x"
    have len: "length tmp < 2 ^ 64"
      using length_vload [OF ld] unsigned_less [of n] by simp
    have "kernel_inv (k'\<lparr>k_fs := snd x\<rparr>)" if inv: "kernel_inv k'"
    proof -
      have "fs_wf (k_fs k')" using inv by (simp add: kernel_inv_def)
      from write_inode_wf [OF this, of _ tmp off "fst x" "snd x"] w len show ?thesis
        by (intro inv_fs [OF inv]) auto
    qed
    then show "keeps k' (case x of (m, fs) \<Rightarrow> Inr (m, k'\<lparr>k_fs := fs\<rparr>))"
      by (cases x) (auto intro: keeps_Inr)
  qed
qed (simp add: sys_pwrite64_def keeps_Inr)

lemma keeps_dup2: "keeps k (sys_dup2 k old new)"
proof -
  have "kernel_inv (k\<lparr>k_fds := t\<rparr>)" if inv: "kernel_inv k" and run: "fd_dup2 (k_fds k) old new = Inr (ok, t)" for ok t
  proof -
    have wf: "fd_wf (k_fds k)" using inv by (simp add: kernel_inv_defs)
    show ?thesis
    proof (cases "fd_get (k_fds k) old")
      case None
      then have "t = k_fds k" using fd_dup2_bad [OF wf, of old new] run by simp
      then show ?thesis using inv by simp
    next
      case (Some f)
      have "unat new < fd_limit"
        using fd_dup2_panic [OF wf, of old new] Some run by (force simp: not_less)
      with fd_dup2_ok [OF wf Some] run have "fd_wf t" "fd_get t = (fd_get (k_fds k))(new \<mapsto> f)"
        by force+
      then show ?thesis
        using inv Some unfolding kernel_inv_defs by auto
    qed
  qed
  then show ?thesis
    by (auto simp: sys_dup2_def keeps_def post_def res_bind_Inr_iff)
qed

lemma inv_new_pipe:
  assumes inv: "kernel_inv k" and n: "k_next_pipe k + 1 \<noteq> 0"
  shows "kernel_inv (k\<lparr>k_next_pipe := k_next_pipe k + 1, k_pipes := bt_insert (k_pipes k) (k_next_pipe k) pipe_new\<rparr>)"
proof -
  have wf: "bt_wf (k_pipes k)" using inv by (simp add: kernel_inv_defs)
  have lt: "x < k_next_pipe k + 1" if "x < k_next_pipe k \<or> x = k_next_pipe k" for x
    using that word_less_succ(1) [OF _ n] word_less_succ(2) [OF n] by blast
  show ?thesis
    using inv wf lt pipe_inv_new(1) unfolding kernel_inv_defs by (auto simp: bt.get_put bt.inv_put)
qed

lemma keeps_pipe2: "counters_ok k \<Longrightarrow> keeps k (sys_pipe2 E k pipefd)"
proof -
  assume c: "counters_ok k"
  define i where "i = k_next_pipe k"
  define k1 where "k1 = k\<lparr>k_next_pipe := i + 1, k_pipes := bt_insert (k_pipes k) i pipe_new\<rparr>"
  define fr where "fr = \<lparr>of_inode = 0, of_offset = 0, of_readable = True, of_writable = False, of_pipe_id = Some i\<rparr>"
  define fw where "fw = \<lparr>of_inode = 0, of_offset = 0, of_readable = False, of_writable = True, of_pipe_id = Some i\<rparr>"
  obtain rfd t1 where a1: "fd_alloc (k_fds k1) fr = (rfd, t1)" by fastforce
  obtain wfd t2 where a2: "fd_alloc t1 fw = (wfd, t2)" by fastforce
  have eq: "sys_pipe2 E k pipefd = res_bind (vstore_u32 E (k1\<lparr>k_fds := t2\<rparr>) pipefd (ucast rfd)) (\<lambda>k.
      res_bind (vstore_u32 E k (pipefd + 4) (ucast wfd)) (\<lambda>k. Inr (0, k)))"
    using a1 a2 unfolding sys_pipe2_def Let_def k1_def fr_def fw_def i_def by simp
  have len: "length (fd_files t1) \<le> length (fd_files (k_fds k1)) + 1"
    using a1 by (auto simp: fd_alloc_def split: option.splits)
  have "kernel_inv (k1\<lparr>k_fds := t2\<rparr>)" if inv: "kernel_inv k"
  proof -
    have k1: "kernel_inv k1"
      using inv_new_pipe [OF inv] c by (simp add: k1_def i_def counters_ok_def)
    have pipe: "bt_get (k_pipes k1) i \<noteq> None"
      using inv by (simp add: k1_def bt.get_put kernel_inv_defs)
    have "kernel_inv (k1\<lparr>k_fds := t1\<rparr>)"
      using k1 pipe c by (intro inv_fd_alloc [OF k1 a1]) (simp_all add: fd_ok_def fr_def k1_def counters_ok_def)
    moreover have "fd_ok (k1\<lparr>k_fds := t1\<rparr>) fw"
      using pipe by (simp add: fd_ok_def fw_def)
    moreover have "40 * (length (fd_files (k_fds (k1\<lparr>k_fds := t1\<rparr>))) + 1) < 2 ^ 63"
      using c len by (simp add: k1_def counters_ok_def)
    ultimately have "kernel_inv ((k1\<lparr>k_fds := t1\<rparr>)\<lparr>k_fds := t2\<rparr>)"
      using a2 by (intro inv_fd_alloc [of "k1\<lparr>k_fds := t1\<rparr>" fw wfd t2]) simp_all
    then show ?thesis by simp
  qed
  moreover have "calm (k1\<lparr>k_fds := t2\<rparr>) (sys_pipe2 E k pipefd)"
    unfolding eq by (intro calms quiet_refl)+
  ultimately show ?thesis
    by (simp add: keeps_def calm_inv)
qed

section \<open>Handlers on sockets\<close>

text \<open>A state change first, then a calm rest.\<close>

lemma keeps_change: "(kernel_inv k \<Longrightarrow> kernel_inv k') \<Longrightarrow> keeps k' r \<Longrightarrow> keeps k r"
  by (simp add: keeps_def)

lemma fake_room:
  assumes "counters_ok k"
  shows "k_fake_next k + 1 \<noteq> 0"
proof
  assume z: "k_fake_next k + 1 = 0"
  have "unat (k_fake_next k + 1) = unat (k_fake_next k) + 1"
    using assms by (subst unat_add_noov) (simp_all add: counters_ok_def)
  then show False by (simp add: z)
qed

lemma keeps_fresh:
  assumes "counters_ok k"
  shows "keeps k (sys_eventfd2 k)" "keeps k (sys_epoll_create1 k)" "keeps k (sys_socket k d)"
  using inv_fake_new [OF _ fake_room [OF assms]]
  by (auto simp: sys_eventfd2_def sys_epoll_create1_def sys_socket_def fresh_fake_fd_def intro!: keeps_Inr)

lemma keeps_socketpair:
  assumes c: "counters_ok k"
  shows "keeps k (sys_socketpair E k sv)"
proof -
  let ?n = "k_fake_next k"
  have u: "unat (?n + 1) = unat ?n + 1"
    using c by (subst unat_add_noov) (simp_all add: counters_ok_def)
  have n2: "?n + 1 + 1 \<noteq> 0"
  proof
    assume z: "?n + 1 + 1 = 0"
    have "unat (?n + 1 + 1) = unat ?n + 2"
      using c u by (subst unat_add_noov) (simp_all add: counters_ok_def)
    then show False using z by simp
  qed
  have "kernel_inv (k\<lparr>k_fake_next := ?n + 1 + 1,
      k_fake := bt_insert (bt_insert (k_fake k) ?n InetSocket) (?n + 1) InetSocket\<rparr>)" if inv: "kernel_inv k"
    using inv_fake_new(2) [OF inv_fake_new(2) [OF inv fake_room [OF c], of InetSocket], of InetSocket] n2
    by simp
  then show ?thesis
    unfolding sys_socketpair_def fresh_fake_fd_def prod.case
    by (rule keeps_change [where k' = "k\<lparr>k_fake_next := ?n + 1 + 1,
        k_fake := bt_insert (bt_insert (k_fake k) ?n InetSocket) (?n + 1) InetSocket\<rparr>"])
      (auto intro!: keeps_calm calms quiet_refl)
qed

lemma calm_fake_status: "calm k (fake_status k fd)"
  unfolding fake_status_def by (intro calms quiet_refl)

lemma calm_create_listen: "calm k (create_listen_socket E k)"
proof -
  have listen: "calm k' (case tcp_listen (tcp E) s h 80 of (ok, s) \<Rightarrow> Inr (if ok then Some h else None, set_stack k' s))"
    for k' s h
    by (cases "tcp_listen (tcp E) s h 80") (simp add: calms)
  have "calm k' (case nt_stack (k_net k') of None \<Rightarrow> Inl e | Some s \<Rightarrow> res_bind (tcp_add (tcp E) s) (\<lambda>(h, s).
      case tcp_listen (tcp E) s h 80 of (ok, s) \<Rightarrow> Inr (if ok then Some h else None, set_stack k' s)))" for k' e
    using listen by (cases "nt_stack (k_net k')") (auto simp: calms intro!: calm_after)
  then show ?thesis
    unfolding create_listen_socket_def
    by (rule_tac calm_then2(1) [OF calm_vec], unfold prod.case, rule_tac calm_then2(1) [OF calm_vec], unfold prod.case)
qed

lemma inv_handles:
  "kernel_inv k \<Longrightarrow> kernel_inv (k\<lparr>k_net := (k_net k)\<lparr>nt_fd_to_handle := bt_insert (nt_fd_to_handle (k_net k)) fd h\<rparr>\<rparr>)"
  "kernel_inv k \<Longrightarrow> kernel_inv (k\<lparr>k_net := (k_net k)\<lparr>nt_fd_to_handle := bt_insert (nt_fd_to_handle (k_net k)) fd h,
     nt_listen_fd := l\<rparr>\<rparr>)"
  "kernel_inv k \<Longrightarrow> kernel_inv (set_epoll_data k fd data)"
  using inv_netD [of k] by (auto simp: set_epoll_data_def intro!: inv_net bt.inv_put)

lemma keeps_listen: "keeps k (sys_listen E k fd)"
proof -
  have "post (bind_listen_fd E k fd) kernel_inv" if "kernel_inv k"
  proof -
    have "keeps k (res_bind (create_listen_socket E k) (\<lambda>(h, k). case h of None \<Rightarrow> Inr ((), k) | Some handle \<Rightarrow>
        Inr ((), k\<lparr>k_net := (k_net k)\<lparr>nt_fd_to_handle := bt_insert (nt_fd_to_handle (k_net k)) fd handle,
          nt_listen_fd := Some fd\<rparr>\<rparr>)))"
      by (rule keeps_then2 [OF calm_create_listen]) (auto intro!: keeps_Inr inv_handles split: option.split)
    then show ?thesis
      using that unfolding bind_listen_fd_def keeps_def by (auto simp: post_def res_bind_Inr_iff split: option.splits)
  qed
  then have "keeps k (res_bind (bind_listen_fd E k fd) (\<lambda>k. Inr (0 :: isize, k)))"
    by (simp add: keeps_def)
  then show ?thesis
    by (simp add: sys_listen_def keeps_calm calm_fake_status)
qed


lemma keeps_epoll_ctl: "keeps k (sys_epoll_ctl E k fd event)"
  unfolding sys_epoll_ctl_def by (auto intro!: keeps_after keeps_Inr inv_handles)

lemma keeps_sendto: "keeps k (sys_sendto E k fd buf n)"
proof -
  have "keeps k (res_bind (vec_zeroed k n) (\<lambda>(_, k). res_bind (vload E k buf m) (\<lambda>req.
      Inr (n, k\<lparr>k_fake := bt_modify (k_fake k) fd g\<rparr>))))" for m g
    by (rule keeps_then2 [OF calm_vec]) (auto intro!: keeps_after keeps_Inr inv_fake_modify)
  then show ?thesis
    unfolding sys_sendto_def
    by (auto intro: keeps_calm calm_net keeps_Inr split: option.split fake_fd_type.split)
qed

lemma keeps_recvmsg: "keeps k (sys_recvmsg E k fd msg)"
proof -
  have "keeps k (res_bind (vstore E k base bs) (\<lambda>k. Inr (n, k\<lparr>k_fake := bt_modify (k_fake k) fd g\<rparr>)))" for base bs n g
    by (rule keeps_then1 [OF calm_stores(1)]) (intro keeps_Inr inv_fake_modify)
  then show ?thesis
    unfolding sys_recvmsg_def Let_def
    by (auto intro!: keeps_after [where r = "vload_u64 E k va" for va] keeps_Inr split: option.split fake_fd_type.split)
qed

lemma post_bindI: "post r P \<Longrightarrow> (\<And>x. P x \<Longrightarrow> post (f x) Q) \<Longrightarrow> post (res_bind r f) Q"
  by (cases r) simp_all

lemma post_bind_any: "(\<And>x. r = Inr x \<Longrightarrow> post (f x) P) \<Longrightarrow> post (res_bind r f) P"
  by (cases r) simp_all

lemma post_accept:
  assumes inv: "kernel_inv k"
  shows "post (accept_connection E k fd) (\<lambda>x. kernel_inv (snd x) \<and> k_fake_next (snd x) = k_fake_next k)"
proof -
  let ?P = "\<lambda>x :: 'b option \<times> ('a, 'b) kernel. kernel_inv (snd x) \<and> k_fake_next (snd x) = k_fake_next k"
  have q: "kernel_inv k' \<and> k_fake_next k' = k_fake_next k" if "quiet k k'" for k'
    using that inv by (simp add: quiet_inv quiet_fields)
  have new: "post (res_bind (create_listen_socket E k') (\<lambda>(new, k). case new of None \<Rightarrow> Inr (None, k)
      | Some nh \<Rightarrow> Inr (Some h, k\<lparr>k_net := (k_net k)\<lparr>nt_fd_to_handle := bt_insert (nt_fd_to_handle (k_net k)) l nh\<rparr>\<rparr>))) ?P"
    if "quiet k k'" for k' h l
  proof -
    have "post (create_listen_socket E k') (\<lambda>x. quiet k (snd x))"
      using calm_create_listen [of k' E] quiet_trans [OF that] by (auto simp: calm_def post_def)
    then show ?thesis
      unfolding post_simps by (rule post_mono) (auto dest!: q intro: inv_handles split: option.split)
  qed
  have sock: "post (res_bind (get_socket E k' h) (\<lambda>s. if tcp_is_listening (tcp E) s h then Inr (None, k')
      else res_bind (create_listen_socket E k') (\<lambda>(new, k). case new of None \<Rightarrow> Inr (None, k)
      | Some nh \<Rightarrow> Inr (Some h, k\<lparr>k_net := (k_net k)\<lparr>nt_fd_to_handle := bt_insert (nt_fd_to_handle (k_net k)) l nh\<rparr>\<rparr>)))) ?P"
    if "quiet k k'" for k' h l
    by (rule post_bind_any, rule post_if) (simp add: q [OF that], rule new [OF that])
  have rest: "post (case bt_get (nt_fd_to_handle (k_net k')) l of
      None \<Rightarrow> Inr (None, k') | Some h \<Rightarrow> res_bind (get_socket E k' h) (\<lambda>s. if tcp_is_listening (tcp E) s h then Inr (None, k')
      else res_bind (create_listen_socket E k') (\<lambda>(new, k). case new of None \<Rightarrow> Inr (None, k)
      | Some nh \<Rightarrow> Inr (Some h, k\<lparr>k_net := (k_net k)\<lparr>nt_fd_to_handle := bt_insert (nt_fd_to_handle (k_net k)) l nh\<rparr>\<rparr>)))) ?P"
    if "quiet k k'" for k' l
  proof (cases "bt_get (nt_fd_to_handle (k_net k')) l")
    case None
    show ?thesis
      unfolding None option.case post_simps(2) snd_conv by (rule q [OF that])
  next
    case (Some h)
    show ?thesis
      unfolding Some option.case by (rule sock [OF that])
  qed
  have "r = Inr k' \<Longrightarrow> quiet k k'" if "r = poll_network E k" for r k'
    using calm_poll [of k E] that by (simp add: calm1_def post_def)
  then show ?thesis
    using q [OF quiet_refl] unfolding accept_connection_def
    by (cases "nt_listen_fd (k_net k)") (simp, simp only: option.case, intro post_if post_bind_any rest, auto)
qed

lemma keeps_accept:
  assumes c: "counters_ok k"
  shows "keeps k (sys_accept E k fd addr len)"
proof -
  have conn: "keeps k1 (case fresh_fake_fd k1 of (nfd, k) \<Rightarrow>
      res_bind (store_peer E (add_fd_handle (put_fake k nfd InetSocket) nfd h) addr len) (\<lambda>k. Inr (nfd, k)))"
    if "k_fake_next k1 + 1 \<noteq> 0" for k1 h
  proof -
    have "kernel_inv (add_fd_handle (put_fake (k1\<lparr>k_fake_next := k_fake_next k1 + 1\<rparr>) (k_fake_next k1) InetSocket)
        (k_fake_next k1) h)" if "kernel_inv k1"
      using inv_handles(1) [OF inv_fake_new(2) [OF that \<open>k_fake_next k1 + 1 \<noteq> 0\<close>]] by (simp add: add_fd_handle_def)
    moreover have "calm k2 (res_bind (store_peer E k2 addr len) (\<lambda>k. Inr (x, k)))" for k2 and x :: isize
      unfolding store_peer_def by (rule calms quiet_refl)+
    ultimately show ?thesis
      unfolding fresh_fake_fd_def prod.case by (blast intro: keeps_change keeps_calm)
  qed
  have "post (accept_connection E k fd) (\<lambda>(h, k). post (case h of None \<Rightarrow> Inr (- 11, k) | Some handle \<Rightarrow>
      (case fresh_fake_fd k of (nfd, k) \<Rightarrow>
      res_bind (store_peer E (add_fd_handle (put_fake k nfd InetSocket) nfd handle) addr len) (\<lambda>k. Inr (nfd, k))))
      (\<lambda>x. kernel_inv (snd x)))" if "kernel_inv k"
    by (rule post_mono [OF post_accept [OF that]])
      (use conn fake_room [OF c] in \<open>auto simp: keeps_def simp del: post_simps(3) split: option.split\<close>)
  then have "keeps k (res_bind (accept_connection E k fd) (\<lambda>(h, k). case h of None \<Rightarrow> Inr (- 11, k) | Some handle \<Rightarrow>
      (case fresh_fake_fd k of (nfd, k) \<Rightarrow>
      res_bind (store_peer E (add_fd_handle (put_fake k nfd InetSocket) nfd handle) addr len) (\<lambda>k. Inr (nfd, k)))))"
    by (simp add: keeps_def case_prod_unfold)
  moreover have "keeps k (case fresh_fake_fd k of (nfd, k) \<Rightarrow> Inr (nfd, put_fake k nfd InetSocket))"
    unfolding fresh_fake_fd_def using inv_fake_new(2) [OF _ fake_room [OF c]] by (auto intro!: keeps_Inr)
  ultimately show ?thesis
    unfolding sys_accept_def by (auto intro: keeps_Inr)
qed

section \<open>Handlers on memory and processes\<close>

lemma inv_proc_modify:
  assumes inv: "kernel_inv k"
    and g: "\<And>p. proc_of k pid = Some p \<Longrightarrow> p_pid (g p) = p_pid p \<and> p_ppid (g p) = p_ppid p \<and>
      length (tf_regs (p_trap_frame (g p))) = 32 \<and> (p_state (g p) = Running \<longrightarrow> pid = k_current k)"
  shows "kernel_inv (k\<lparr>k_procs := bt_modify (k_procs k) pid g\<rparr>)"
proof -
  have wf: "bt_wf (k_procs k)" using inv by (simp add: kernel_inv_defs)
  have "procs_inv (k\<lparr>k_procs := bt_modify (k_procs k) pid g\<rparr>)"
    using inv g unfolding kernel_inv_def procs_inv_def sched_inv_def proc_of_def
    by (auto simp: bt.get_upd [OF wf] bt.inv_upd [OF wf])
  then show ?thesis
    using inv unfolding kernel_inv_def fds_inv_def fd_ok_def pipes_inv_def fake_inv_def by simp
qed

lemma inv_proc_regs: "kernel_inv k \<Longrightarrow> proc_of k pid = Some p \<Longrightarrow> length (tf_regs (p_trap_frame p)) = 32"
  by (simp add: kernel_inv_defs)

lemma inv_running: "kernel_inv k \<Longrightarrow> proc_of k pid = Some p \<Longrightarrow> p_state p = Running \<Longrightarrow> pid = k_current k"
  by (simp add: kernel_inv_defs)

text \<open>A closure on the current process that keeps its identity and only takes frames.\<close>

lemma keeps_with_proc:
  assumes f: "\<And>p. proc_of k (k_current k) = Some p \<Longrightarrow> frames_ok (k_mm k) \<Longrightarrow> post (f p k) (\<lambda>(r, p', k').
      k' = k\<lparr>k_mm := k_mm k'\<rparr> \<and> frames_ok (k_mm k') \<and> p_pid p' = p_pid p \<and> p_ppid p' = p_ppid p \<and> p_state p' = p_state p \<and>
      length (tf_regs (p_trap_frame p')) = length (tf_regs (p_trap_frame p)))"
  shows "keeps k (with_current_proc k f)"
proof (cases "bt_get (k_procs k) (k_current k)")
  case (Some p)
  have "kernel_inv (k'\<lparr>k_procs := bt_modify (k_procs k') (k_current k) (\<lambda>_. p')\<rparr>)"
    if inv: "kernel_inv k" and run: "f p k = Inr (r, p', k')" for r p' k'
  proof -
    have "proc_of k (k_current k) = Some p" using Some by (simp add: proc_of_def)
    define s where "s = k_mm k'"
    from f [OF \<open>proc_of k (k_current k) = Some p\<close> inv_frames [OF inv]] run have
      k': "k' = k\<lparr>k_mm := s\<rparr>" "frames_ok s" and p': "p_pid p' = p_pid p" "p_ppid p' = p_ppid p"
        "p_state p' = p_state p" "length (tf_regs (p_trap_frame p')) = length (tf_regs (p_trap_frame p))"
      by (auto simp: post_def s_def)
    have inv': "kernel_inv k'"
      unfolding k'(1) by (rule inv_mm [OF inv k'(2)])
    have "kernel_inv (k'\<lparr>k_procs := bt_modify (k_procs k') (k_current k') (\<lambda>_. p')\<rparr>)"
    proof (rule inv_proc_modify [OF inv'])
      fix q assume "proc_of k' (k_current k') = Some q"
      then have "q = p" using Some by (simp add: k'(1) proc_of_def)
      then show "p_pid p' = p_pid q \<and> p_ppid p' = p_ppid q \<and> length (tf_regs (p_trap_frame p')) = 32 \<and>
          (p_state p' = Running \<longrightarrow> k_current k' = k_current k')"
        using p' inv_proc_regs [OF inv \<open>proc_of k (k_current k) = Some p\<close>] by simp
    qed
    then show ?thesis by (simp add: k'(1))
  qed
  then show ?thesis
    unfolding with_current_proc_def Some option.case keeps_def post_simps by (auto intro: postI)
qed (simp add: with_current_proc_def keeps_Inr)

lemma post_map_missing: "frames_ok s \<Longrightarrow> post (map_missing pt fl s va) frames_ok"
  by (auto simp: map_missing_def split: prod.split option.split intro: post_pt_map alloc_page_ok)

lemma keeps_result: "keeps k r \<Longrightarrow> keeps k (res_bind r (\<lambda>(x, k). Inr (g x, k)))"
  by (auto simp: keeps_def case_prod_unfold)

lemma keeps_brk: "keeps k (sys_brk k addr)"
proof -
  have "post (brk_pages s p addr) frames_ok" if "frames_ok s" for s p
    using that by (auto simp: brk_pages_def Let_def intro: post_fold post_map_missing)
  then have "keeps k (with_current_proc k (\<lambda>p k. let p = (if p_brk p = 0 then p\<lparr>p_brk := 0x10000\<rparr> else p) in
      if addr = 0 then Inr (p_brk p, p, k)
      else res_bind (brk_pages (k_mm k) p addr) (\<lambda>s. Inr (addr, p\<lparr>p_brk := addr\<rparr>, k\<lparr>k_mm := s\<rparr>))))"
    by (intro keeps_with_proc) (auto simp: Let_def)
  then show ?thesis
    unfolding sys_brk_def by (rule keeps_result)
qed

lemma post_mmap_pages:
  assumes "kernel_inv k"
  shows "post (mmap_pages k ret len prot) kernel_inv"
proof -
  have "keeps k (with_current_proc k (\<lambda>p k.
      res_bind (res_fold (\<lambda>s page. map_missing (p_page_table p) (mmap_flags prot) s (ret + page)) (k_mm k)
        (range_step 0 len 0x1000)) (\<lambda>s. Inr ((), p, k\<lparr>k_mm := s\<rparr>))))"
    by (intro keeps_with_proc)
      (auto intro!: post_mono [where P = frames_ok] post_fold post_map_missing)
  then show ?thesis
    using assms unfolding mmap_pages_def by (auto simp: keeps_def case_prod_unfold)
qed

lemma calm_mmap_file: "calm1 k (mmap_file E k ret len fd off)"
  unfolding mmap_file_def by (simp only: prod.case | rule calms quiet_refl)+

lemma keeps_mmap: "keeps k (sys_mmap E k addr len prot flags fd off)"
proof -
  have rest: "calm k2 (res_bind (vfill E k2 ret 0 n) (\<lambda>k.
      res_bind (if b then mmap_file E k ret len fd off else Inr k) (\<lambda>k. Inr (ret, k))))" for k2 ret n b
    by (rule calms calm_mmap_file quiet_refl)+
  have "keeps k1 (res_bind (mmap_pages k1 ret n prot) (\<lambda>k. res_bind (vfill E k ret 0 n) (\<lambda>k.
      res_bind (if b then mmap_file E k ret len fd off else Inr k) (\<lambda>k. Inr (ret, k)))))" for k1 ret n b
    unfolding keeps_def by (intro impI, rule post_bindI [OF post_mmap_pages]) (assumption, rule calm_inv [OF rest])
  moreover obtain ret k1 where "mmap_place k addr ((len + 0xfff) AND NOT 0xfff) flags = (ret, k1)"
    by fastforce
  moreover from this have "quiet k k1"
    by (auto simp: mmap_place_def Let_def split: if_splits)
  ultimately show ?thesis
    unfolding sys_mmap_def Let_def by (simp add: keeps_trans)
qed

lemma inv_ctf:
  "kernel_inv k \<Longrightarrow> length (tf_regs tf) = 32 \<Longrightarrow> kernel_inv (k\<lparr>k_ctf := tf\<rparr>)"
  "kernel_inv k \<Longrightarrow> length (tf_regs tf) = 32 \<Longrightarrow> kernel_inv (k\<lparr>k_ctf := tf, k_satp := satp\<rparr>)"
  unfolding kernel_inv_defs by simp_all

lemma inv_exec_switch: "kernel_inv k \<Longrightarrow> kernel_inv (exec_switch k sp n)"
  unfolding exec_switch_def Let_def by (rule inv_ctf(2)) (simp_all add: kernel_inv_def)

lemma keeps_execve: "keeps k (sys_execve E k path argv envp)"
proof -
  have "keeps k (with_current_proc k (\<lambda>p k. res_bind (exec_process E (k_mm k) p d a e) (\<lambda>(r, p, s).
      Inr (r, p, k\<lparr>k_mm := s\<rparr>))))" for d a e
    by (intro keeps_with_proc) (auto intro!: post_mono [OF post_exec_process])
  then show ?thesis
    unfolding sys_execve_def Let_def
    by (auto simp: quiet_inv [OF quiet_log] intro!: keeps_Inr keeps_then intro: inv_exec_switch split: option.split)
qed

lemma keeps_clone: "counters_ok k \<Longrightarrow> keeps k (sys_clone k stack)"
proof -
  assume c: "counters_ok k"
  have "kernel_inv k'" if inv: "kernel_inv k" and run: "fork_process k (k_ctf k) = Inr (r, k')" for r k'
  proof -
    have n: "k_next_pid k + 1 \<noteq> 0" using c by (simp add: counters_ok_def)
    obtain parent where par: "proc_of k (k_current k) = Some parent"
      using inv by (auto simp: kernel_inv_def procs_inv_def)
    have cur: "k_current k < k_next_pid k"
      using inv par by (auto simp: kernel_inv_def procs_inv_def)
    have mm: "frames_ok (k_mm k')"
    proof -
      obtain ct s where cl: "clone_user_space (k_mm k) (p_page_table parent) = Inr (ct, s)"
        using run par by (auto simp: fork_process_def proc_of_def res_bind_Inr_iff)
      have s: "frames_ok s"
        using postD [OF post_clone_user_space [OF inv_frames [OF inv]] cl] by simp
      obtain x s' where al: "alloc_pages s 2 = (x, s')" by fastforce
      have "frames_ok s'"
        by (rule alloc_pages_ok [OF s _ al]) (simp add: pages_ok_def)
      then show ?thesis
        using run par cl al s by (auto simp: fork_process_def proc_of_def Let_def split: option.splits)
    qed
    show ?thesis
    proof (cases rule: fork_process_cases [OF run par])
      case (1 s)
      then show ?thesis using mm inv_mm [OF inv] by simp
    next
      case (2 child_pt s kstack s')
      have lt: "x < k_next_pid k + 1" if "x < k_next_pid k \<or> x = k_next_pid k" for x
        using that word_less_succ(1) [OF _ n] word_less_succ(2) [OF n] by blast
      have "k_current k \<noteq> k_next_pid k" using cur by auto
      then have "procs_inv k'"
        using inv cur lt par
        unfolding 2(4) kernel_inv_def procs_inv_def sched_inv_def proc_of_def
        by (auto simp: bt.get_put bt.inv_put child_frame_def)
      then show ?thesis
        using inv mm unfolding 2(4) kernel_inv_def fds_inv_def fd_ok_def pipes_inv_def fake_inv_def by simp
    qed
  qed
  then have "keeps k (fork_process k (k_ctf k))"
    by (auto simp: keeps_def post_def)
  moreover have "keeps k1 (case (r, k1) of (r, k) \<Rightarrow> case r of None \<Rightarrow> Inr (- 1, k) | Some child_pid \<Rightarrow>
      Inr (child_pid, if stack \<noteq> 0 then k\<lparr>k_procs := bt_modify (k_procs k) child_pid
        (\<lambda>p. p\<lparr>p_trap_frame := (p_trap_frame p)\<lparr>tf_regs := (tf_regs (p_trap_frame p))[2 := stack]\<rparr>\<rparr>)\<rparr> else k))"
    for r and k1 :: "('a, 'b) kernel"
    by (auto intro!: keeps_Inr inv_proc_modify dest: inv_proc_regs simp: kernel_inv_defs split: option.split)
  ultimately show ?thesis
    unfolding sys_clone_def by (rule keeps_then)
qed

lemma keeps_exit: "keeps k (sys_exit k code)"
  unfolding sys_exit_def exit_process_def Let_def
proof (rule keeps_Inr)
  assume inv: "kernel_inv k"
  let ?pp = "case bt_get (k_procs k) (k_current k) of None \<Rightarrow> 0 | Some p \<Rightarrow> p_ppid p"
  have i1: "kernel_inv (k\<lparr>k_procs := bt_modify (k_procs k) (k_current k) (\<lambda>p. p\<lparr>p_state := Zombie, p_exit_code := code\<rparr>)\<rparr>)"
    (is "kernel_inv ?k1")
    by (rule inv_proc_modify [OF inv]) (use inv_proc_regs [OF inv] in auto)
  have "kernel_inv (?k1\<lparr>k_procs := bt_modify (k_procs ?k1) ?pp
      (\<lambda>p. if p_state p = Waiting then p\<lparr>p_state := Ready\<rparr> else p)\<rparr>)"
    by (rule inv_proc_modify [OF i1]) (use inv_proc_regs [OF i1] inv_running [OF i1] in auto)
  then show "kernel_inv (k\<lparr>k_procs := bt_modify (bt_modify (k_procs k) (k_current k)
      (\<lambda>p. p\<lparr>p_state := Zombie, p_exit_code := code\<rparr>)) ?pp (\<lambda>p. if p_state p = Waiting then p\<lparr>p_state := Ready\<rparr> else p)\<rparr>)"
    by simp
qed

lemma zombie_childD:
  assumes "bt_wf (k_procs k)" "zombie_child k pid = Some (z, p)"
  shows "proc_of k z = Some p" "p_ppid p = k_current k" "p_state p = Zombie" "0 < sint pid \<longrightarrow> z = pid"
  using assms(2) unfolding zombie_child_def bt.find_least [OF assms(1)] by (auto simp: proc_of_def)

lemma keeps_wait4: "keeps k (sys_wait4 E k pid wstatus options)"
proof (cases "zombie_child k pid")
  case (Some zp)
  obtain z p where zp: "zp = (z, p)" by fastforce
  have "kernel_inv (k'\<lparr>k_procs := bt_remove (k_procs k') z\<rparr>)" if q: "quiet k k'" and inv': "kernel_inv k'" for k'
  proof -
    have inv: "kernel_inv k" using q inv' by (simp add: quiet_inv)
    have wf: "bt_wf (k_procs k)" using inv by (simp add: kernel_inv_defs)
    note zc = zombie_childD [OF wf Some [unfolded zp]]
    have "z \<noteq> k_current k"
      using inv zc(1,2) unfolding kernel_inv_def procs_inv_def by fastforce
    then have "procs_inv (k'\<lparr>k_procs := bt_remove (k_procs k') z\<rparr>)"
      using inv' q unfolding kernel_inv_def procs_inv_def sched_inv_def proc_of_def
      by (auto simp: bt.get_del bt.inv_del quiet_fields)
    then show ?thesis
      using inv' unfolding kernel_inv_def fds_inv_def fd_ok_def pipes_inv_def fake_inv_def by simp
  qed
  then show ?thesis
    unfolding sys_wait4_def Some zp option.case prod.case
    by (intro keeps_then1 keeps_Inr) (auto intro: calms)
qed (simp add: sys_wait4_def keeps_Inr)

end
