(* ===== verification/Kernel_Steps.thy ===== *)
theory Kernel_Steps
  imports Handler_Inv
begin

text \<open>
  The invariant of the kernel through a whole trap: the system call table, the trap handler and
  the scheduler.
\<close>

section \<open>The system call table\<close>

lemma keeps_if: "(b \<Longrightarrow> keeps k r) \<Longrightarrow> (\<not> b \<Longrightarrow> keeps k q) \<Longrightarrow> keeps k (if b then r else q)"
  by simp

lemmas constant_answers = sys_fchownat_def sys_set_tid_address_def sys_set_robust_list_def
  sys_sched_setaffinity_def sys_sched_getaffinity_def sys_sigaction_def sys_rt_sigaction_def
  sys_rt_sigprocmask_def sys_gettid_def sys_setgid_def sys_setuid_def sys_setpgid_def sys_getpgrp_def
  sys_setsid_def sys_setgroups_def sys_umask_def sys_prctl_def sys_getpid_def sys_getppid_def
  sys_getuid_def sys_geteuid_def sys_getgid_def sys_getegid_def sys_getsockname_def sys_getpeername_def
  sys_munmap_def sys_mprotect_def sys_madvise_def

lemmas other_names = sys_dup3_def sys_writev_def sys_fstatat_def sys_statx_def sys_bind_def sys_connect_def
  sys_setsockopt_def sys_getsockopt_def sys_shutdown_def sys_accept4_def sys_recvfrom_def

lemmas keeps_calls = keeps_sys_write keeps_sys_read keeps_writev_loop keeps_sendfile keeps_close keeps_lseek
  keeps_getdents keeps_pwrite keeps_dup2 keeps_listen keeps_epoll_ctl keeps_sendto keeps_recvmsg keeps_brk
  keeps_mmap keeps_execve keeps_exit keeps_wait4 calm_answers [THEN keeps_calm] calm_clock [THEN keeps_calm]
  calm_epoll_pwait [THEN keeps_calm] calm_ppoll [THEN keeps_calm] calm_fake_status [THEN keeps_calm]

lemmas keeps_counted_calls = keeps_openat keeps_mkdirat keeps_pipe2 keeps_fresh keeps_socketpair keeps_accept keeps_clone

lemma keeps_same: "keeps k (Inr (x, k))"
  by (simp add: keeps_Inr)

lemma keeps_log: "keeps k (Inr (x, log_record E k l args))"
  by (intro keeps_calm calms quiet_log)

lemma keeps_dispatch: "counters_ok k \<Longrightarrow> keeps k (dispatch E k num a0 a1 a2 a3 a4 a5)"
  unfolding dispatch_def constant_answers other_names
  by (intro keeps_if keeps_same keeps_log keeps_calls keeps_counted_calls)

section \<open>The trap handler\<close>

lemma length_raw_x: "length (raw_x (read_raw m p)) = 32"
  by (simp add: read_raw_def load_words_def)

lemma inv_copy_frame: "kernel_inv k \<Longrightarrow> kernel_inv (copy_frame k tf)"
  unfolding copy_frame_def Let_def by (rule inv_ctf(1)) (simp_all add: length_raw_x)

lemma counters_copy_frame: "counters_ok (copy_frame k tf) = counters_ok k"
  by (simp add: copy_frame_def counters_ok_def Let_def)

lemma inv_quiet: "kernel_inv k \<Longrightarrow> quiet k k' \<Longrightarrow> kernel_inv k'"
  by (simp add: quiet_inv)

lemma inv_finish_call:
  assumes inv: "kernel_inv k"
  shows "kernel_inv (finish_call k tf num ret)"
proof -
  have "kernel_inv (k1\<lparr>k_procs := bt_modify (k_procs k1) (k_current k1) (\<lambda>p. p\<lparr>p_state := Waiting\<rparr>)\<rparr>)"
    if i1: "kernel_inv k1" for k1 :: "('a, 'b) kernel"
    by (rule inv_proc_modify [OF i1]) (use inv_proc_regs [OF i1] in auto)
  from this [OF inv_quiet [OF inv quiet_updates(1)]] show ?thesis
    using inv_quiet [OF inv] by (simp add: finish_call_def Let_def quiet_def)
qed

lemma post_handle_ecall:
  assumes inv: "kernel_inv k" and c: "counters_ok k"
  shows "post (handle_ecall E k tf) kernel_inv"
proof -
  let ?x = "raw_x (read_raw (kram k) tf)"
  define k1 where "k1 = (if ?x ! 17 = 57 then k\<lparr>k_last_tp := ?x ! 4\<rparr> else k)"
  define k2 where "k2 = (if ?x ! 17 \<noteq> 221 then frame_put k1 tf 264 (frame_get k1 tf 264 + 4) else k1)"
  have "quiet k k1" by (simp add: k1_def)
  moreover have "quiet k1 k2" by (simp add: k2_def)
  ultimately have q: "quiet k k2" by (rule quiet_trans)
  have keep: "post (dispatch E k2 num a0 a1 a2 a3 a4 a5) (\<lambda>x. kernel_inv (snd x))" for num a0 a1 a2 a3 a4 a5
    using keeps_dispatch [of k2] inv c q by (simp add: keeps_def quiet_inv quiet_counters)
  have fin: "kernel_inv (frame_put (finish_call k3 tf num ret) tf 80 ret)" if "kernel_inv k3" for k3 num ret
    using inv_quiet [OF inv_finish_call [OF that] quiet_updates(1)] .
  show ?thesis
    unfolding handle_ecall_def Let_def k1_def [symmetric] k2_def [symmetric]
    by (rule post_bindI [OF keep]) (use fin in \<open>simp add: case_prod_unfold\<close>)
qed

lemma post_trap_handler: "kernel_inv k \<Longrightarrow> counters_ok k \<Longrightarrow> post (rust_trap_handler E k tf cause stval pc) kernel_inv"
  by (simp add: rust_trap_handler_def loop_forever_def Let_def post_handle_ecall inv_copy_frame counters_copy_frame)

section \<open>The scheduler\<close>

lemma inv_save: "kernel_inv k \<Longrightarrow> kernel_inv (save_current k sp)"
  unfolding save_current_def
  by (rule inv_proc_modify) (auto simp: saved_def Let_def length_raw_x)

text \<open>Switching keeps the invariant when no process is marked as running.\<close>

lemma inv_switch:
  assumes inv: "kernel_inv k" and none: "\<And>pid p. proc_of k pid = Some p \<Longrightarrow> p_state p \<noteq> Running"
  shows "post (switch_to k pid) (\<lambda>x. kernel_inv (snd x))"
proof (cases "bt_get (k_procs k) pid")
  case (Some q)
  let ?k = "k\<lparr>k_procs := bt_modify (k_procs k) pid (\<lambda>p. p\<lparr>p_state := Running\<rparr>), k_current := pid\<rparr>"
  have wf: "bt_wf (k_procs k)" using inv by (simp add: kernel_inv_defs)
  have "procs_inv ?k"
    using inv none Some unfolding kernel_inv_def procs_inv_def sched_inv_def proc_of_def
    by (auto simp: bt.get_upd [OF wf] bt.inv_upd [OF wf])
  then have "kernel_inv ?k"
    using inv unfolding kernel_inv_def fds_inv_def fd_ok_def pipes_inv_def fake_inv_def by simp
  moreover have "quiet ?k (?k\<lparr>k_satp := v, k_mm := (k_mm k)\<lparr>ram := m\<rparr>\<rparr>)" for v m
    by (simp add: quiet_def)
  ultimately have "kernel_inv (?k\<lparr>k_satp := v, k_mm := (k_mm k)\<lparr>ram := m\<rparr>\<rparr>)" for v m
    by (rule inv_quiet)
  then show ?thesis
    by (simp add: switch_to_def Some Let_def)
qed (simp add: switch_to_def)

lemma post_schedule:
  assumes inv: "kernel_inv k"
  shows "post (do_schedule E k sp) (\<lambda>x. kernel_inv (snd x))"
proof -
  let ?k = "save_current k sp"
  have i: "kernel_inv ?k" by (rule inv_save [OF inv])
  have sw: "post (switch_to ?k pid) (\<lambda>x. kernel_inv (snd x))" for pid
    by (rule inv_switch [OF i], rule saved_not_running [of k sp]) (use inv in \<open>simp add: kernel_inv_def procs_inv_def\<close>)
  have run: "kernel_inv (?k\<lparr>k_procs := bt_modify (k_procs ?k) (k_current ?k) (\<lambda>p. p\<lparr>p_state := Running\<rparr>)\<rparr>)"
    by (rule inv_proc_modify [OF i]) (use inv_proc_regs [OF i] in auto)
  show ?thesis
    using i sw run by (simp add: do_schedule_def Let_def split: option.split)
qed

section \<open>A whole trap\<close>

lemma post_trap_cycle:
  assumes inv: "kernel_inv k" and c: "counters_ok k"
  shows "post (trap_cycle E j j' cause stval k s) (\<lambda>x. kernel_inv (fst x))"
proof -
  have q: "quiet k (set_ram k m)" for m by simp
  have h: "post (rust_trap_handler E (set_ram k m) tf cause stval pc) kernel_inv" for m tf pc
    by (rule post_trap_handler) (use inv c q in \<open>simp_all add: quiet_inv [OF q] quiet_counters [OF q]\<close>)
  have sch: "post (res_bind (do_schedule E k1 sp) (\<lambda>(sp, k). Inr (k, f sp k))) (\<lambda>x. kernel_inv (fst x))"
    if "kernel_inv k1" for k1 :: "('a, 'b) kernel" and sp and f :: "usize \<Rightarrow> ('a, 'b) kernel \<Rightarrow> machine"
    by (rule post_bindI [OF post_schedule [OF that]]) (simp add: case_prod_unfold)
  show ?thesis
    unfolding trap_cycle_def Let_def by (rule post_bindI [OF h]) (rule sch)
qed

end
