(* ===== verification/Boot.thy ===== *)
theory Boot
  imports Proc Net
begin

text \<open>
  Start-up: the assembly stub \<^verbatim>\<open>src/src/entry.asm\<close>, the firmware calls of \<^verbatim>\<open>src/src/sbi.rs\<close>, the memory
  services and device search of \<^verbatim>\<open>src/src/virtio.rs\<close>, the device adapter at the head of
  \<^verbatim>\<open>src/src/net.rs\<close>, and \<^verbatim>\<open>rust_main\<close> of \<^verbatim>\<open>src/src/main.rs\<close>, which runs them in order and enters the shell.
\<close>

section \<open>The assembly stub\<close>

text \<open>
  Clearing the BSS segment, eight bytes at a time from \<^verbatim>\<open>t0\<close> (register 5) up to \<^verbatim>\<open>t1\<close> (register
  6).  After \<open>2 ^ 61\<close> rounds the pointer is back where it started, so the loop runs for ever.
\<close>

function clear_bss :: "nat \<Rightarrow> machine \<Rightarrow> machine res" where
  "clear_bss i s =
     (if 2 ^ 61 \<le> i then Inl Hang
      else if rd s 6 \<le> rd s 5 then Inr s
      else clear_bss (i + 1) (exec_instrs s [Sd 0 0 5, Addi 5 5 8]))"
  by pat_completeness auto
termination by (relation "measure (\<lambda>(i, s). 2 ^ 61 - i)") auto

declare clear_bss.simps [simp del]

text \<open>Addresses that the linker provides.\<close>

record symbols =
  sym_boot_stack_top :: usize
  sym_bss_start :: usize
  sym_bss_end :: usize
  sym_kernel_end :: usize
  sym_trap_vector :: usize

text \<open>Harts other than 0 park; hart 0 sets up its stack and the arguments of \<^verbatim>\<open>rust_main\<close>.\<close>

definition entry_stub :: "symbols \<Rightarrow> machine \<Rightarrow> machine res" where
  "entry_stub L s =
     (if rd s 10 \<noteq> 0 then Inl Hang
      else
        res_bind (clear_bss 0 (exec_instrs s [Li 2 (sym_boot_stack_top L), Mv 9 11, Li 5 (sym_bss_start L), Li 6 (sym_bss_end L)])) (\<lambda>s.
        Inr (exec_instrs s [Mv 10 0, Mv 11 9])))"

section \<open>Firmware calls\<close>

text \<open>
  The firmware is a function of the registers at the \<^verbatim>\<open>ecall\<close> instruction: it answers with the new
  value of \<^verbatim>\<open>x10\<close>, or it does not return.
\<close>

type_synonym firmware = "(nat \<rightharpoonup> usize) \<Rightarrow> usize res"

definition sbi_call :: "firmware \<Rightarrow> usize \<Rightarrow> usize \<Rightarrow> usize \<Rightarrow> usize \<Rightarrow> usize \<Rightarrow> usize res" where
  "sbi_call fw eid fid arg0 arg1 arg2 = fw [10 \<mapsto> arg0, 11 \<mapsto> arg1, 12 \<mapsto> arg2, 16 \<mapsto> eid, 17 \<mapsto> fid]"

definition SBI_SET_TIMER :: usize where
  "SBI_SET_TIMER = 0"

definition SBI_SRST :: usize where
  "SBI_SRST = 0x53525354"

definition sbi_set_timer :: "firmware \<Rightarrow> usize \<Rightarrow> unit res" where
  "sbi_set_timer fw timer = res_bind (sbi_call fw SBI_SET_TIMER 0 timer 0 0) (\<lambda>_. Inr ())"

text \<open>\<^verbatim>\<open>shutdown\<close> loops when the firmware returns.\<close>

definition sbi_shutdown :: "firmware \<Rightarrow> unit res" where
  "sbi_shutdown fw = res_bind (sbi_call fw SBI_SRST 0 0 0 0) (\<lambda>_. Inl Hang)"

section \<open>The virtio driver's services\<close>

definition dma_alloc :: "mm_state \<Rightarrow> usize \<Rightarrow> ((usize \<times> usize) \<times> mm_state) res" where
  "dma_alloc s pages =
     (case alloc_pages s pages of
        (None, s) \<Rightarrow> Inl (Panic ''DMA alloc failed'')
      | (Some paddr, s) \<Rightarrow>
          if paddr = 0 then Inl (Panic ''called `Option::unwrap()` on a `None` value'')
          else Inr ((paddr, paddr), s))"

definition dma_dealloc :: "mm_state \<Rightarrow> usize \<Rightarrow> usize \<Rightarrow> usize \<Rightarrow> usize \<times> mm_state" where
  "dma_dealloc s paddr vaddr pages = (0, s)"

definition mmio_phys_to_virt :: "usize \<Rightarrow> usize res" where
  "mmio_phys_to_virt paddr =
     (if paddr = 0 then Inl (Panic ''called `Option::unwrap()` on a `None` value'') else Inr paddr)"

definition hal_share :: "usize \<Rightarrow> usize" where
  "hal_share buffer = buffer"

definition hal_unshare :: "usize \<Rightarrow> usize \<Rightarrow> mm_state \<Rightarrow> mm_state" where
  "hal_unshare paddr buffer s = s"

text \<open>Accesses to device registers, in order.\<close>

datatype mmio_access = Mmio_Write usize u32 | Mmio_Read usize

type_synonym mmio_trace = "mmio_access list"

definition notify_rx :: "usize \<Rightarrow> mmio_trace" where
  "notify_rx base = (if base \<noteq> 0 then [Mmio_Write (base + 0x30) 0, Mmio_Write (base + 0x50) 0] else [])"

section \<open>Searching for the network device\<close>

text \<open>
  The driver crate: whether a transport is found at an address, whether it is a network
  device, and building the driver, which may fail with an error text and takes memory through
  \<open>dma_alloc\<close>; and what a register of the device reads as after a sequence of accesses.
\<close>

record virtio_ops =
  vp_transport :: "usize \<Rightarrow> bool"
  vp_is_net :: "usize \<Rightarrow> bool"
  vp_net_new :: "mm_state \<Rightarrow> usize \<Rightarrow> (u8 list option \<times> mm_state) res"
  vp_register :: "mmio_trace \<Rightarrow> usize \<Rightarrow> u32"

definition virtio_addrs :: "usize list" where
  "virtio_addrs = [0x10001000, 0x10002000, 0x10003000, 0x10004000, 0x10005000, 0x10006000, 0x10007000, 0x10008000]"

text \<open>
  The diagnostic dump after the device is found.  It reads the size, page and alignment of the two
  queues from the registers, and if the first queue has a page, the ring indices and four
  descriptors from there.  The values go to log lines of level \<^verbatim>\<open>info\<close>, but each read can fault.
\<close>

definition queue_regs :: "usize \<Rightarrow> u32 \<Rightarrow> mmio_trace" where
  "queue_regs base queue =
     [Mmio_Write (base + 0x30) queue, Mmio_Read (base + 0x38), Mmio_Read (base + 0x40), Mmio_Read (base + 0x3c)]"

definition queue_words :: "usize \<Rightarrow> (usize \<times> nat) list" where
  "queue_words desc_paddr =
     (let avail_paddr = desc_paddr + 256; used_paddr = desc_paddr + 4096 in
      [(avail_paddr + 2, 2), (used_paddr + 2, 2)] @
      concat (map (\<lambda>i. let daddr = desc_paddr + of_nat i * 16 in
        [(daddr, 8), (daddr + 8, 4), (daddr + 12, 2), (daddr + 14, 2)]) [0..<4]))"

fun read_all :: "('s, 'h) env \<Rightarrow> ('s, 'h) kernel \<Rightarrow> (usize \<times> nat) list \<Rightarrow> unit res" where
  "read_all E k [] = Inr ()"
| "read_all E k ((a, n) # rs) = res_bind (vload E k a n) (\<lambda>_. read_all E k rs)"

definition queue_dump :: "('s, 'h) env \<Rightarrow> virtio_ops \<Rightarrow> ('s, 'h) kernel \<Rightarrow> usize \<Rightarrow> mmio_trace res" where
  "queue_dump E V k base =
     (let q0_pfn = vp_register V (take 2 (queue_regs base 0)) (base + 0x40);
          trace = queue_regs base 0 @ queue_regs base 1
      in if q0_pfn \<noteq> 0 then res_bind (read_all E k (queue_words (ucast q0_pfn * 4096))) (\<lambda>_. Inr trace)
         else Inr trace)"

fun virtio_search ::
  "('s, 'h) env \<Rightarrow> virtio_ops \<Rightarrow> ('s, 'h) kernel \<Rightarrow> usize list \<Rightarrow> (usize option \<times> mmio_trace \<times> ('s, 'h) kernel) res"
where
  "virtio_search E V k [] =
     Inr (None, [], log_record E k Warn (string_bytes ''No VirtIO network device found''))"
| "virtio_search E V k (addr # addrs) =
     (if addr = 0 \<or> \<not> vp_transport V addr \<or> \<not> vp_is_net V addr then virtio_search E V k addrs
      else
        res_bind (vp_net_new V (k_mm k) addr) (\<lambda>(err, s).
        let k = k\<lparr>k_mm := s\<rparr> in
        case err of
          None \<Rightarrow> res_bind (queue_dump E V k addr) (\<lambda>trace. Inr (Some addr, trace, k))
        | Some e \<Rightarrow>
            virtio_search E V (log_record E k Warn (string_bytes ''Found virtio-net at '' @ fmt_hex addr @
              string_bytes '' but failed to initialize: '' @ e)) addrs))"

definition virtio_init ::
  "('s, 'h) env \<Rightarrow> virtio_ops \<Rightarrow> ('s, 'h) kernel \<Rightarrow> (usize option \<times> mmio_trace \<times> ('s, 'h) kernel) res"
where
  "virtio_init E V k = virtio_search E V k virtio_addrs"

section \<open>The device adapter\<close>

text \<open>The running driver, as the adapter of the TCP stack uses it.\<close>

record ('d, 'b) net_driver =
  nd_receive :: "'d \<Rightarrow> 'b option \<times> 'd"
  nd_packet :: "'b \<Rightarrow> u8 list"
  nd_set_packet :: "'b \<Rightarrow> u8 list \<Rightarrow> 'b"
  nd_recycle :: "'d \<Rightarrow> 'b \<Rightarrow> 'd"
  nd_can_send :: "'d \<Rightarrow> bool"
  nd_new_tx :: "'d \<Rightarrow> usize \<Rightarrow> u8 list"
  nd_send :: "'d \<Rightarrow> u8 list \<Rightarrow> 'd"

definition netdev_receive :: "('d, 'b) net_driver \<Rightarrow> usize \<Rightarrow> 'd option \<Rightarrow> 'b option \<times> mmio_trace \<times> 'd option" where
  "netdev_receive D base net =
     (case net of
        None \<Rightarrow> (None, [], None)
      | Some n \<Rightarrow>
          (case nd_receive D n of
             (Some rx_buf, n) \<Rightarrow> (Some rx_buf, [], Some n)
           | (None, n) \<Rightarrow> (None, notify_rx base, Some n)))"

definition netdev_transmit :: "('d, 'b) net_driver \<Rightarrow> 'd option \<Rightarrow> unit option" where
  "netdev_transmit D net = (case net of None \<Rightarrow> None | Some n \<Rightarrow> if nd_can_send D n then Some () else None)"

text \<open>The largest transmission unit and the largest burst.\<close>

definition netdev_capabilities :: "nat \<times> nat option" where
  "netdev_capabilities = (1514, Some 1)"

text \<open>
  The stack hands \<^verbatim>\<open>consume\<close> a closure that may change the packet in place: it is a function to
  its result and the changed packet.
\<close>

definition rx_consume ::
  "('d, 'b) net_driver \<Rightarrow> 'd option \<Rightarrow> 'b option \<Rightarrow> (u8 list \<Rightarrow> 'r \<times> u8 list) \<Rightarrow> ('r \<times> 'd option) res"
where
  "rx_consume D net buffer f =
     (case buffer of
        None \<Rightarrow> Inl (Panic ''called `Option::unwrap()` on a `None` value'')
      | Some buffer \<Rightarrow>
          (case f (nd_packet D buffer) of (result, packet) \<Rightarrow>
             Inr (result, map_option (\<lambda>n. nd_recycle D n (nd_set_packet D buffer packet)) net)))"

definition tx_consume ::
  "('d, 'b) net_driver \<Rightarrow> ('s, 'h) kernel \<Rightarrow> 'd option \<Rightarrow> usize \<Rightarrow> (u8 list \<Rightarrow> 'r \<times> u8 list) \<Rightarrow>
   ('r \<times> 'd option \<times> ('s, 'h) kernel) res"
where
  "tx_consume D k net len f =
     (case net of
        Some n \<Rightarrow>
          (case f (nd_new_tx D n len) of (result, packet) \<Rightarrow> Inr (result, Some (nd_send D n packet), k))
      | None \<Rightarrow>
          res_bind (vec_zeroed k len) (\<lambda>(_, k).
          Inr (fst (f (replicate (unat len) 0)), None, k)))"

section \<open>Main\<close>

text \<open>The initial values of the statics of all modules, with memory as the loader left it.\<close>

definition kernel_static :: "memory \<Rightarrow> ('s, 'h) kernel" where
  "kernel_static m =
     \<lparr>k_mm = \<lparr>ram = m, heap_alloc = heap_allocator_new, page_alloc = page_allocator_new, kernel_page_table = None\<rparr>,
      k_fs = fs_empty, k_procs = [], k_current = 0, k_next_pid = 1, k_ctf = trap_frame_new, k_last_tp = 0,
      k_fds = fd_table_new, k_fake = [], k_fake_next = 100, k_pipes = [], k_next_pipe = 1, k_mmap_base = 0,
      k_net = \<lparr>nt_device = False, nt_stack = None, nt_fd_to_handle = [], nt_epoll_data = [], nt_listen_fd = None\<rparr>,
      k_satp = 0, k_out = [], k_polls = 0, k_ticks = 0\<rparr>"

definition main_memory :: "usize \<Rightarrow> memory \<Rightarrow> ('s, 'h) kernel res" where
  "main_memory e m =
     (let k = console_init (kernel_static m) in
      res_bind (init_kernel_page_table (init_heap (mm_init e (k_mm k)))) (\<lambda>(satp, s).
      Inr (k\<lparr>k_mm := s, k_satp := satp\<rparr>)))"

definition main_devices :: "('s, 'h) env \<Rightarrow> virtio_ops \<Rightarrow> ('s, 'h) kernel \<Rightarrow> ('s, 'h) kernel res" where
  "main_devices E V k =
     res_bind (virtio_init E V k) (\<lambda>(base, _, k).
     net_init E (k\<lparr>k_net := (k_net k)\<lparr>nt_device := (base \<noteq> None)\<rparr>\<rparr>))"

definition main_shell :: "('s, 'h) env \<Rightarrow> ('s, 'h) kernel \<Rightarrow> (user_start \<times> ('s, 'h) kernel) res" where
  "main_shell E k =
     (case get_file_data (k_fs k) ''/bin/sh'' of
        None \<Rightarrow> Inl (Panic ''sh binary not found'')
      | Some sh_data \<Rightarrow>
          res_bind (init_user_proc E k sh_data [string_bytes ''sh'']) (\<lambda>(r, k).
          case r of
            None \<Rightarrow> Inl (Panic ''failed to load shell'')
          | Some _ \<Rightarrow> res_bind (run_user k) (\<lambda>u. Inr (u, k\<lparr>k_satp := us_satp u\<rparr>))))"

definition rust_main ::
  "('s, 'h) env \<Rightarrow> virtio_ops \<Rightarrow> images \<Rightarrow> usize \<Rightarrow> memory \<Rightarrow> (user_start \<times> ('s, 'h) kernel) res"
where
  "rust_main E V im e m =
     res_bind (main_memory e m) (\<lambda>k.
     res_bind (main_devices E V k) (\<lambda>k.
     main_shell E (k\<lparr>k_fs := fs_init im (k_fs k)\<rparr>)))"

text \<open>
  The processor at the first user instruction: \<^verbatim>\<open>run_user\<close> loads the control registers and the
  stack pointer, the other registers are left over from the kernel.
\<close>

definition enter_user :: "machine \<Rightarrow> (nat \<Rightarrow> usize) \<Rightarrow> user_start \<Rightarrow> machine" where
  "enter_user s junk u =
     (let s = wcsr (wcsr (wcsr (s\<lparr>m_regs := junk\<rparr>) Sscratch (us_sscratch u)) Sepc (us_sepc u)) Sstatus (us_sstatus u)
      in wr s 2 (us_sp u))"

text \<open>From the first instruction of the kernel to the first one of the shell.\<close>

definition start_kernel ::
  "('s, 'h) env \<Rightarrow> virtio_ops \<Rightarrow> images \<Rightarrow> symbols \<Rightarrow> (nat \<Rightarrow> usize) \<Rightarrow> machine \<Rightarrow> (machine \<times> ('s, 'h) kernel) res"
where
  "start_kernel E V im L junk s =
     res_bind (entry_stub L s) (\<lambda>s.
     res_bind (rust_main E V im (sym_kernel_end L) (m_mem s)) (\<lambda>(u, k).
     Inr (enter_user (trap_init (sym_trap_vector L) s) junk u, k)))"

section \<open>What the stub leaves\<close>

lemma store_zero_words:
  assumes "8 * n \<le> 2 ^ 64" "d < 2 ^ 64"
  shows "store_words m p (replicate n 0) (p + of_nat d) = (if d < 8 * n then 0 else m (p + of_nat d))"
  using assms
proof (induction n)
  case (Suc n)
  have zero: "le_bytes 8 (0 :: usize) = replicate 8 0"
    by (simp add: le_bytes_def map_replicate_const)
  have "store_words m p (replicate (Suc n) 0) = store_u64 (store_words m p (replicate n 0)) (p + of_nat (8 * n)) 0"
    by (simp add: store_words_append flip: replicate_append_same)
  then show ?case
    using Suc store_bytes_window [of "8 * n" "replicate 8 0" d "store_words m p (replicate n 0)" p]
    by (auto simp: store_u64_def zero)
qed simp

lemma clear_bss_run:
  assumes "unat (m_regs s 6) + 7 < 2 ^ 64" "i + (unat (m_regs s 6) - unat (m_regs s 5) + 7) div 8 < 2 ^ 61"
  shows "\<exists>r. clear_bss i s = Inr (s\<lparr>m_regs := (m_regs s)(5 := r),
    m_mem := store_words (m_mem s) (m_regs s 5) (replicate ((unat (m_regs s 6) - unat (m_regs s 5) + 7) div 8) 0)\<rparr>)"
  using assms
proof (induction "(unat (m_regs s 6) - unat (m_regs s 5) + 7) div 8" arbitrary: i s)
  case 0
  then have "unat (m_regs s 6) \<le> unat (m_regs s 5)" by (simp add: div_eq_0_iff)
  then show ?case
    using 0 by (intro exI [of _ "m_regs s 5"]) (simp add: clear_bss.simps [of i s] rd_def word_le_nat_alt)
next
  case (Suc n)
  define t where "t = s\<lparr>m_regs := (m_regs s)(5 := m_regs s 5 + 8), m_mem := store_u64 (m_mem s) (m_regs s 5) 0\<rparr>"
  have step: "exec_instrs s [Sd 0 0 5, Addi 5 5 8] = t"
    by (simp add: t_def wr_def rd_def)
  have lt: "unat (m_regs s 5) < unat (m_regs s 6)" using Suc(2) by (cases "unat (m_regs s 6) \<le> unat (m_regs s 5)") auto
  have up: "unat (m_regs s 5 + 8) = unat (m_regs s 5) + 8"
    using lt Suc.prems(1) by (intro unat_add_noov [where b = 8, simplified]) simp
  have n: "n = (unat (m_regs t 6) - unat (m_regs t 5) + 7) div 8"
    using Suc(2) lt by (simp add: t_def up)
  have "clear_bss i s = clear_bss (i + 1) t"
    using Suc.prems(2) lt unfolding step [symmetric]
    by (subst clear_bss.simps) (simp add: rd_def word_le_nat_alt del: exec_instrs_simps)
  moreover have "unat (m_regs t 6) + 7 < 2 ^ 64" "i + 1 + (unat (m_regs t 6) - unat (m_regs t 5) + 7) div 8 < 2 ^ 61"
    using Suc.prems Suc(2) unfolding n [symmetric] by (simp_all add: t_def)
  note Suc(1) [OF n this, folded n]
  ultimately show ?case unfolding Suc(2) [symmetric] by (auto simp: t_def)
qed

text \<open>
  C30. The assembly stub brings exactly hart 0 into \<^verbatim>\<open>rust_main\<close>.  With the kernel linked below the end
  of the address space it gets there with the boot stack, the arguments 0 and the device tree
  address, and the BSS segment cleared in words of eight bytes with no other byte of memory changed; every other hart
  parks for ever.
\<close>

theorem entry_stub_correct:
  fixes s :: machine and L :: symbols
  defines "n \<equiv> (unat (sym_bss_end L) - unat (sym_bss_start L) + 7) div 8"
  assumes "unat (sym_bss_end L) + 7 < 2 ^ 64"
  shows "if m_regs s 10 \<noteq> 0 then entry_stub L s = Inl Hang
    else (\<exists>s'. entry_stub L s = Inr s' \<and> m_regs s' 2 = sym_boot_stack_top L \<and> m_regs s' 10 = 0 \<and>
      m_regs s' 11 = m_regs s 11 \<and>
      (\<forall>a. m_mem s' a = (if unat (a - sym_bss_start L) < 8 * n then 0 else m_mem s a)))"
proof (cases "m_regs s 10 = 0")
  case True
  let ?t = "exec_instrs s [Li 2 (sym_boot_stack_top L), Mv 9 11, Li 5 (sym_bss_start L), Li 6 (sym_bss_end L)]"
  have t: "m_regs ?t = (m_regs s)(2 := sym_boot_stack_top L, 9 := m_regs s 11, 5 := sym_bss_start L, 6 := sym_bss_end L)"
    "m_mem ?t = m_mem s"
    by (simp_all add: wr_def rd_def)
  have n: "8 * n \<le> 2 ^ 64" "n < 2 ^ 61"
    using assms(2) unfolding n_def by (simp_all add: less_mult_imp_div_less)
  obtain r where r: "clear_bss 0 ?t = Inr (?t\<lparr>m_regs := (m_regs ?t)(5 := r),
      m_mem := store_words (m_mem s) (sym_bss_start L) (replicate n 0)\<rparr>)"
    using clear_bss_run [of ?t 0] assms(2) n(2) unfolding t n_def by auto
  have addr: "sym_bss_start L + of_nat (unat (a - sym_bss_start L)) = a" for a by simp
  have "store_words (m_mem s) (sym_bss_start L) (replicate n 0) a =
      (if unat (a - sym_bss_start L) < 8 * n then 0 else m_mem s a)" for a
    using store_zero_words [OF n(1), of "unat (a - sym_bss_start L)" "m_mem s" "sym_bss_start L"]
    unfolding addr by (simp add: unat_lt_2_64)
  then show ?thesis
    using True by (simp add: entry_stub_def r t wr_def rd_def del: exec_instrs_simps) (simp add: wr_def rd_def t)
next
  case False
  then show ?thesis by (simp add: entry_stub_def rd_def)
qed

theorem entry_stub_correct_witness:
  "\<exists>s'. entry_stub \<lparr>sym_boot_stack_top = 0x80240000, sym_bss_start = 0x80220000, sym_bss_end = 0x80240010,
       sym_kernel_end = 0x80240010, sym_trap_vector = 0x80200100\<rparr>
     \<lparr>m_regs = (\<lambda>r. if r = 11 then 0x87e00000 else 0), m_csrs = (\<lambda>_. 0), m_mem = (\<lambda>_. 7)\<rparr> = Inr s' \<and>
     m_regs s' 2 = 0x80240000 \<and> m_regs s' 11 = 0x87e00000 \<and> m_mem s' 0x8024000f = 0 \<and> m_mem s' 0x80240010 = 7"
proof -
  let ?L = "\<lparr>sym_boot_stack_top = 0x80240000, sym_bss_start = 0x80220000, sym_bss_end = 0x80240010,
       sym_kernel_end = 0x80240010, sym_trap_vector = 0x80200100\<rparr>"
  have "unat (sym_bss_end ?L) + 7 < 2 ^ 64" by simp
  from entry_stub_correct [OF this, of "\<lparr>m_regs = (\<lambda>r. if r = 11 then 0x87e00000 else 0), m_csrs = (\<lambda>_. 0), m_mem = (\<lambda>_. 7)\<rparr>"]
  show ?thesis by auto
qed

end
