(* ===== verification/Kernel_Reach.thy ===== *)
theory Kernel_Reach
  imports Kernel_Steps Boot
begin

text \<open>
  The kernel as a whole: the states it can be in after start-up, after any number of traps and
  any activity of user programs between them, and that all of them satisfy the invariant that
  the handlers rely on.
\<close>

section \<open>Reachable states\<close>

inductive kreach :: "('s, 'h) env \<Rightarrow> virtio_ops \<Rightarrow> images \<Rightarrow> usize \<Rightarrow> ('s, 'h) kernel \<Rightarrow> bool"
  for E V im kernel_end
where
  boot: "rust_main E V im kernel_end m = Inr (u, k) \<Longrightarrow> kreach E V im kernel_end k"
| user: "kreach E V im kernel_end k \<Longrightarrow> kreach E V im kernel_end (k\<lparr>k_mm := (k_mm k)\<lparr>ram := m\<rparr>\<rparr>)"
| trap: "kreach E V im kernel_end k \<Longrightarrow> counters_ok k \<Longrightarrow> trap_cycle E junk junk' cause stval k s = Inr (k', s') \<Longrightarrow>
    kreach E V im kernel_end k'"

definition kernel_end_ok :: "usize \<Rightarrow> bool" where
  "kernel_end_ok kernel_end \<longleftrightarrow> unat kernel_end \<le> 0x88000000"

text \<open>Documented of the driver: it takes its memory through \<open>dma_alloc\<close> only.\<close>

definition driver_ok :: "virtio_ops \<Rightarrow> bool" where
  "driver_ok V \<longleftrightarrow> (\<forall>s addr. frames_ok s \<longrightarrow> post (vp_net_new V s addr) (\<lambda>r. frames_ok (snd r)))"

section \<open>Start-up establishes the invariant\<close>

text \<open>The invariant before there is a process.\<close>

definition boot_inv :: "('s, 'h) kernel \<Rightarrow> bool" where
  "boot_inv k \<longleftrightarrow> k_procs k = [] \<and> length (tf_regs (k_ctf k)) = 32 \<and> fs_wf (k_fs k) \<and> fds_inv k \<and>
     pipes_inv k \<and> fake_inv k \<and> frames_ok (k_mm k)"

lemma quiet_boot_inv: "quiet k k' \<Longrightarrow> boot_inv k' = boot_inv k"
  by (simp add: quiet_def boot_inv_def fds_inv_def fd_ok_def pipes_inv_def fake_inv_def frames_ok_def)

lemma boot_inv_mm: "boot_inv k \<Longrightarrow> frames_ok s \<Longrightarrow> boot_inv (k\<lparr>k_mm := s, k_satp := satp\<rparr>)"
  by (simp add: boot_inv_def fds_inv_def fd_ok_def pipes_inv_def fake_inv_def)

lemma boot_inv_frames: "boot_inv k \<Longrightarrow> frames_ok s \<Longrightarrow> boot_inv (k\<lparr>k_mm := s\<rparr>)"
  by (simp add: boot_inv_def fds_inv_def fd_ok_def pipes_inv_def fake_inv_def)

lemma log_same: "k_fs (log_record E k l args) = k_fs k" "k_procs (log_record E k l args) = k_procs k"
    "k_net (log_record E k l args) = k_net k" "k_mm (log_record E k l args) = k_mm k"
  using log_record_out [of E k l args] by auto

lemma boot_inv_static: "frames_ok s \<Longrightarrow> boot_inv (kernel_static m\<lparr>k_mm := s, k_satp := satp\<rparr>)"
proof -
  assume s: "frames_ok s"
  have fd: "fd_get fd_table_new fd = (if fd < 3 then Some std_stream else None)" for fd
  proof -
    have "unat fd = 0 \<or> unat fd = 1 \<or> unat fd = 2 \<or> 3 \<le> unat fd" by arith
    then show ?thesis
      by (elim disjE) (simp_all add: fd_get_def fd_table_new_def word_less_nat_alt nth_Cons')
  qed
  then have "fds_inv (kernel_static m\<lparr>k_mm := s, k_satp := satp\<rparr>)"
    by (auto simp: fds_inv_def kernel_static_def fd_ok_def std_stream_def fd_wf_def fd_table_new_def split: if_splits)
  then show ?thesis
    using s fs_wf_empty
    by (simp add: boot_inv_def kernel_static_def pipes_inv_def fake_inv_def trap_frame_new_def bt_get_def bt_wf_def)
qed

lemma mm_init_ok: "kernel_end_ok e \<Longrightarrow> frames_ok (init_heap (mm_init e s))"
proof -
  assume e: "kernel_end_ok e"
  then have n: "unat e + 4095 < 2 ^ 64" by (simp add: kernel_end_ok_def)
  have "(unat e + 4095) div 4096 \<le> (0x88000000 + 4095) div 4096"
    using e unfolding kernel_end_ok_def by (intro div_le_mono) simp
  then have "(unat e + 4095) div 4096 * 4096 \<le> 0x88000000" by simp
  then show ?thesis
    using unat_page_align_up [OF n] by (simp add: frames_ok_def init_heap_def mm_init_def word_le_nat_alt)
qed

lemma post_init_kernel_page_table:
  assumes "frames_ok s"
  shows "post (init_kernel_page_table s) (\<lambda>r. frames_ok (snd r))"
proof -
  obtain x t where new: "page_table_new s = (x, t)" by fastforce
  have t: "frames_ok t" by (rule page_table_new_ok [OF assms new])
  have kpt: "frames_ok (u\<lparr>kernel_page_table := q\<rparr>) = frames_ok u" for u q
    by (simp add: frames_ok_def)
  show ?thesis
  proof (cases x)
    case (Some pt)
    show ?thesis
      unfolding init_kernel_page_table_def new Some prod.case option.case post_simps snd_conv kpt
      by (rule post_mono [OF post_map_kernel_regions [OF t]]) (rule post_pt_map)
  qed (simp add: init_kernel_page_table_def new)
qed

lemma post_main_memory: "kernel_end_ok e \<Longrightarrow> post (main_memory e m) (\<lambda>k. boot_inv k \<and> k_fs k = fs_empty)"
  unfolding main_memory_def console_init_def Let_def post_simps
  by (rule post_mono [OF post_init_kernel_page_table [OF mm_init_ok]]) (auto simp: kernel_static_def [of m, THEN arg_cong [of _ _ k_fs]] intro: boot_inv_static)

lemma post_virtio_search:
  assumes "driver_ok V"
  shows "boot_inv k \<Longrightarrow> post (virtio_search E V k addrs) (\<lambda>(base, trace, k'). boot_inv k' \<and> k_fs k' = k_fs k)"
proof (induction addrs arbitrary: k)
  case Nil
  then show ?case by (simp add: quiet_boot_inv [OF quiet_log] log_same)
next
  case (Cons addr addrs)
  let ?Q = "\<lambda>(base, trace, k'). boot_inv k' \<and> k_fs k' = k_fs k"
  have "frames_ok (k_mm k)" using Cons.prems by (simp add: boot_inv_def)
  then have new: "post (vp_net_new V (k_mm k) addr) (\<lambda>r. frames_ok (snd r))"
    using assms by (simp add: driver_ok_def)
  have "post (case err of None \<Rightarrow> res_bind (queue_dump E V j addr) (\<lambda>trace. Inr (Some addr, trace, j))
      | Some e \<Rightarrow> virtio_search E V (log_record E j Warn (msg e)) addrs) ?Q"
    if "boot_inv j" "k_fs j = k_fs k" for err j msg
  proof (cases err)
    case None
    then show ?thesis using that by (auto simp: post_def res_bind_Inr_iff)
  next
    case (Some e)
    have "boot_inv (log_record E j Warn (msg e))" "k_fs (log_record E j Warn (msg e)) = k_fs k"
      using that by (simp_all add: quiet_boot_inv [OF quiet_log] log_same)
    from Cons.IH [OF this(1)] this(2) Some show ?thesis by simp
  qed
  from this [OF boot_inv_frames [OF Cons.prems]]
  have "post (vp_net_new V (k_mm k) addr) (\<lambda>(err, s). post (let j = k\<lparr>k_mm := s\<rparr> in
      case err of None \<Rightarrow> res_bind (queue_dump E V j addr) (\<lambda>trace. Inr (Some addr, trace, j))
      | Some e \<Rightarrow> virtio_search E V (log_record E j Warn (msg e)) addrs) ?Q)" for msg
    by (intro post_mono [OF new]) (simp add: case_prod_unfold Let_def)
  then show ?case
    using Cons.IH [OF Cons.prems] by (simp add: case_prod_unfold)
qed

lemma calm_poll_times: "calm1 k (poll_times E n k)"
proof (induction n arbitrary: k)
  case (Suc n)
  show ?case
    unfolding calm1_def poll_times.simps post_simps
    by (rule post_mono [OF calm_poll [unfolded calm1_def]])
      (rule post_mono [OF Suc [unfolded calm1_def]], rule quiet_trans)
qed (simp add: calm1_def)

lemma calm_net_init: "calm1 k (net_init E k)"
proof (cases "nt_device (k_net k)")
  case True
  obtain now k1 where t: "get_time_ms E k = (now, k1)" by fastforce
  let ?mac = "tcp_mac (tcp E)"
  obtain err st where snd: "tcp_send_raw (tcp E) (tcp_stack_new (tcp E) ?mac now ([10, 0, 2, 15], 24) [10, 0, 2, 2])
      (arp_request ?mac) = (err, st)" by fastforce
  define k2 where "k2 = (case err of None \<Rightarrow> k1 | Some e \<Rightarrow> log_record E k1 Warn (string_bytes ''ARP send failed: '' @ e))"
  have "quiet k1 k2" by (simp add: k2_def split: option.split)
  then have "quiet k k2" using quiet_time(2) [OF t] by (blast intro: quiet_trans)
  then have q: "quiet k (set_stack k2 st)" by (rule quiet_trans) simp
  show ?thesis
    using True unfolding calm1_def net_init_def t snd prod.case Let_def k2_def [symmetric]
    by (simp add: post_mono [OF calm_poll_times [unfolded calm1_def] quiet_trans [OF q]])
qed (simp add: net_init_def calm1_def)

lemma post_main_devices:
  assumes "driver_ok V" "boot_inv k"
  shows "post (main_devices E V k) (\<lambda>k'. boot_inv k' \<and> k_fs k' = k_fs k)"
proof -
  have "boot_inv k' \<and> k_fs k' = k_fs k"
    if "boot_inv j" "k_fs j = k_fs k" "quiet (j\<lparr>k_net := (k_net j)\<lparr>nt_device := d\<rparr>\<rparr>) k'" for j d k'
    using that quiet_boot_inv [OF that(3)]
    by (simp add: boot_inv_def fds_inv_def fd_ok_def pipes_inv_def fake_inv_def quiet_def)
  then have "post (net_init E (j\<lparr>k_net := (k_net j)\<lparr>nt_device := d\<rparr>\<rparr>)) (\<lambda>k'. boot_inv k' \<and> k_fs k' = k_fs k)"
    if "boot_inv j" "k_fs j = k_fs k" for j d
    using that by (intro post_mono [OF calm_net_init [unfolded calm1_def]]) blast
  then show ?thesis
    unfolding main_devices_def virtio_init_def post_simps
    by (intro post_mono [OF post_virtio_search [OF assms]]) auto
qed

lemma post_process_new:
  assumes "frames_ok s"
  shows "post (process_new s pid) (\<lambda>r. frames_ok (snd r) \<and> (\<forall>p. fst r = Some p \<longrightarrow>
    p_pid p = pid \<and> p_ppid p = 0 \<and> length (tf_regs (p_trap_frame p)) = 32))"
proof -
  obtain x t where new: "page_table_new s = (x, t)" by fastforce
  obtain y u where stk: "alloc_pages t 2 = (y, u)" by fastforce
  have t: "frames_ok t" by (rule page_table_new_ok [OF assms new])
  have u: "frames_ok u" by (rule alloc_pages_ok [OF t _ stk]) (simp add: pages_ok_def)
  show ?thesis
  proof (cases x)
    case (Some pt)
    show ?thesis
    proof (cases y)
      case (Some kstack)
      with \<open>x = Some pt\<close> show ?thesis
        by (simp add: process_new_def new stk trap_frame_new_def post_mono [OF post_map_kernel_regions [OF u]])
    qed (simp add: process_new_def new stk Some u)
  qed (simp add: process_new_def new t)
qed

lemma inv_first_process:
  assumes "boot_inv k" "frames_ok s" "p_pid p = 1" "p_ppid p = 0" "length (tf_regs (p_trap_frame p)) = 32"
  shows "kernel_inv (k\<lparr>k_mm := s, k_current := 1, k_procs := bt_insert (k_procs k) 1 p, k_next_pid := 2\<rparr>)"
  using assms by (auto simp: boot_inv_def kernel_inv_defs bt_get_def bt_wf_def split: if_splits)

lemma post_init_user_proc:
  assumes "boot_inv k"
  shows "post (init_user_proc E k d argv) (\<lambda>r. fst r \<noteq> None \<longrightarrow> kernel_inv (snd r))"
proof -
  have s: "frames_ok (k_mm k)" using assms by (simp add: boot_inv_def)
  show ?thesis
    unfolding init_user_proc_def post_simps
  proof (rule post_mono [OF post_process_new [OF s]])
    fix z :: "process option \<times> mm_state"
    assume z: "frames_ok (snd z) \<and> (\<forall>p. fst z = Some p \<longrightarrow>
      p_pid p = 1 \<and> p_ppid p = 0 \<and> length (tf_regs (p_trap_frame p)) = 32)"
    obtain x t where zz: "z = (x, t)" by fastforce
    show "post (case z of (proc, s) \<Rightarrow> case proc of None \<Rightarrow> Inr (None, k\<lparr>k_mm := s\<rparr>) | Some proc \<Rightarrow>
        res_bind (load_image E s (p_page_table proc) d argv [string_bytes ''PATH=/bin'']) (\<lambda>(info, s).
        case info of None \<Rightarrow> Inr (None, k\<lparr>k_mm := s\<rparr>) | Some im \<Rightarrow>
          (let tf = p_trap_frame proc;
               proc = proc\<lparr>p_brk := im_brk im,
                 p_trap_frame := tf\<lparr>tf_sepc := im_entry im, tf_sstatus := user_sstatus,
                   tf_regs := (tf_regs tf)[2 := im_sp im, 10 := of_nat (length argv)]\<rparr>,
                 p_state := Running\<rparr>
           in Inr (Some (), k\<lparr>k_mm := s, k_current := 1, k_procs := bt_insert (k_procs k) 1 proc, k_next_pid := 2\<rparr>))))
      (\<lambda>r. fst r \<noteq> None \<longrightarrow> kernel_inv (snd r))"
    proof (cases x)
      case (Some p)
      have t: "frames_ok t" using z zz by simp
      show ?thesis
        unfolding zz Some prod.case option.case post_simps
        by (rule post_mono [OF post_load_image [OF t]])
          (use z zz Some assms in \<open>auto simp: Let_def split: option.split intro!: inv_first_process\<close>)
    qed (simp add: zz)
  qed
qed

lemma post_main_shell:
  assumes "boot_inv k"
  shows "post (main_shell E k) (\<lambda>r. kernel_inv (snd r))"
proof (cases "get_file_data (k_fs k) ''/bin/sh''")
  case (Some d)
  have run: "post (run_user j) (\<lambda>u. kernel_inv (j\<lparr>k_satp := us_satp u\<rparr>))" if "kernel_inv j" for j :: "('a, 'b) kernel"
    by (rule postI) (simp add: quiet_inv [OF quiet_updates(9)] that)
  show ?thesis
    unfolding main_shell_def Some option.case post_simps
    by (rule post_mono [OF post_init_user_proc [OF assms]]) (auto split: option.split intro: run)
qed (simp add: main_shell_def)

lemma boot_inv_fs:
  assumes "boot_inv k" "k_fs k = fs_empty" "fs_wf fs"
  shows "boot_inv (k\<lparr>k_fs := fs\<rparr>)"
proof -
  have "inode_file fs_empty i = None" for i
    by (simp add: inode_file_def fs_empty_def bt_get_def)
  then have "fd_ok k f \<Longrightarrow> fd_ok (k\<lparr>k_fs := fs\<rparr>) f" for f
    using assms(2) by (simp add: fd_ok_def)
  then show ?thesis
    using assms by (simp add: boot_inv_def fds_inv_def pipes_inv_def fake_inv_def)
qed

lemma post_rust_main:
  assumes "images_ok im" "kernel_end_ok e" "driver_ok V"
  shows "post (rust_main E V im e m) (\<lambda>r. kernel_inv (snd r))"
proof -
  have fs: "fs_wf (fs_init im fs_empty)" using fs_init_run [OF assms(1)] by blast
  show ?thesis
    unfolding rust_main_def post_simps
  proof (rule post_mono [OF post_main_memory [OF assms(2)]])
    fix k :: "('a, 'b) kernel"
    assume k: "boot_inv k \<and> k_fs k = fs_empty"
    then show "post (main_devices E V k)
        (\<lambda>k. post (main_shell E (k\<lparr>k_fs := fs_init im (k_fs k)\<rparr>)) (\<lambda>r. kernel_inv (snd r)))"
      by (intro post_mono [OF post_main_devices [OF assms(3)]]) (auto intro!: post_main_shell boot_inv_fs fs)
  qed
qed

section \<open>Every reachable state\<close>

lemma kreach_inv:
  assumes "images_ok im" "kernel_end_ok e" "driver_ok V" "kreach E V im e k"
  shows "kernel_inv k"
  using assms(4)
proof induction
  case (boot m u k)
  then show ?case using post_rust_main [OF assms(1-3), of E m] by (simp add: post_def)
next
  case (user k m)
  then show ?case by (simp add: quiet_inv [OF quiet_updates(1)])
next
  case (trap k junk junk' cause stval s k' s')
  then show ?case using post_trap_cycle [OF trap.IH trap.hyps(2)] by (fastforce simp: post_def)
qed

end
