(* ===== verification/Boot_Run.thy ===== *)
theory Boot_Run
  imports Kernel_Reach
begin

text \<open>
  Start-up gets to user mode: the steps of \<^verbatim>\<open>rust_main\<close> succeed when enough frames are free.
\<close>

section \<open>The user stack\<close>

definition stack_key :: "usize \<Rightarrow> usize list" where
  "stack_key i = vpn_indices (drop_bit 12 (stack_top - i * 4096))"

lemma map_stack_page_ok:
  assumes "pt_inv s (root_ppn pt)" "frames_used s + 3 \<le> frames_limit s" "pt_view (root_ppn pt) s (stack_key i) = None"
  obtains first' s' where "map_stack_page pt (first, s) i = Inr (Next (first', s'))" "pt_inv s' (root_ppn pt)"
    "frames_used s' \<le> frames_used s + 3" "frames_limit s' = frames_limit s" "heap_alloc s' = heap_alloc s"
    "\<And>k. k \<noteq> stack_key i \<Longrightarrow> pt_view (root_ppn pt) s' k = pt_view (root_ppn pt) s k"
proof -
  have fok: "frames_ok s" using assms(1) by (simp add: pt_inv_def)
  obtain u f where u: "alloc_page s = (Some (push_bit 12 f), u)" "frames_ok u"
      "ram u = write_bytes (ram s) (push_bit 12 f) 0 4096" "frame_ok f" "\<not> allocated s f"
      "frames_used u = frames_used s + 1" "frames_limit u = frames_limit s"
      "pg_current (page_alloc s) \<le> pg_current (page_alloc u)" "heap_alloc u = heap_alloc s"
    by (rule alloc_page_frame_cases [OF fok]) (use assms(2) in auto)
  have "\<forall>a. allocated s (drop_bit 12 a) \<longrightarrow> ram u a = ram s a"
    using u(3-5) by (auto simp: write_bytes_page)
  note st = pt_stable [OF assms(1) u(2,8) this]
  let ?x = "(stack_top - i * 4096, push_bit 12 f, PTE_U OR PTE_R OR PTE_W) :: mapping_req"
  have key: "req_key ?x = stack_key i" by (simp add: req_key_def stack_key_def)
  have cnt: "card (req_tables ?x - table_paths (root_ppn pt) u) \<le> 2" by (rule card_req_tables)
  show thesis
  proof (cases rule: pt_map_entry_cases [OF st(1), of ?x])
    case 1
    then show thesis using cnt u(6,7) assms(2) by simp
  next
    case 2
    then show thesis using assms(3) by (simp add: key st)
  next
    case (3 w)
    have "heap_alloc w = heap_alloc u" "frames_limit w = frames_limit u"
      using 3(3) by (simp_all add: pt_evolves_def frames_limit_def)
    then show thesis
      using 3 u cnt pt_evolves_inv [OF 3(3)]
      by (intro that [of "if i = 0 then push_bit 12 f else first" w])
        (simp_all add: map_stack_page_def pt_map_as_entry key st)
  qed
qed

lemma map_stack_pages_ok:
  assumes "pt_inv s (root_ppn pt)" "frames_used s + 3 * length is \<le> frames_limit s" "distinct (map stack_key is)"
    and "\<forall>i \<in> set is. pt_view (root_ppn pt) s (stack_key i) = None"
  shows "\<exists>first' s'. flow_fold (map_stack_page pt) (first, s) is = Inr (Next (first', s')) \<and>
    pt_inv s' (root_ppn pt) \<and> heap_alloc s' = heap_alloc s \<and> frames_used s' \<le> frames_used s + 3 * length is \<and>
    frames_limit s' = frames_limit s"
  using assms
proof (induction "is" arbitrary: first s)
  case (Cons i "is")
  obtain first' t where t: "map_stack_page pt (first, s) i = Inr (Next (first', t))" "pt_inv t (root_ppn pt)"
      "frames_used t \<le> frames_used s + 3" "frames_limit t = frames_limit s" "heap_alloc t = heap_alloc s"
      "\<And>k. k \<noteq> stack_key i \<Longrightarrow> pt_view (root_ppn pt) t k = pt_view (root_ppn pt) s k"
    by (rule map_stack_page_ok [OF Cons.prems(1), of i first]) (use Cons.prems(2,4) in auto)
  have free: "\<forall>j \<in> set is. pt_view (root_ppn pt) t (stack_key j) = None"
    using Cons.prems(3,4) t(6) by (auto simp: image_iff)
  have room: "frames_used t + 3 * length is \<le> frames_limit t"
    using Cons.prems(2) t(3,4) by simp
  have dis: "distinct (map stack_key is)"
    using Cons.prems(3) by simp
  show ?case
    using Cons.IH [OF t(2) room dis free, of first'] t(3) by (fastforce simp: t(1,4,5))
qed simp

lemma stack_indices: "map of_nat [0..<9] = ([0, 1, 2, 3, 4, 5, 6, 7, 8] :: usize list)"
  by (simp add: upt_conv_Cons)

lemma stack_keys_distinct: "distinct (map stack_key (map of_nat [0..<9]))"
  unfolding stack_indices by (simp add: stack_key_def vpn_indices_def stack_top_def)

lemma stack_keys_free: "i \<in> set (map of_nat [0..<9]) \<Longrightarrow> kernel_view (stack_key i) = None"
proof -
  assume "i \<in> set (map of_nat [0..<9])"
  then have "unat (drop_bit 12 (stack_top - i * 4096)) \<in> {0x3fffff7..0x3ffffff}"
    unfolding stack_indices by (auto simp: stack_top_def)
  then have n: "unat (drop_bit 12 (stack_top - i * 4096)) \<notin> set kernel_vpns"
    "unat (drop_bit 12 (stack_top - i * 4096)) < 2 ^ 27"
    by (auto simp: kernel_vpns_set)
  have "set kernel_vpns \<subseteq> {..<2 ^ 27}" by (auto simp: kernel_vpns_set)
  then have "digits (unat (drop_bit 12 (stack_top - i * 4096))) \<notin> digits ` set kernel_vpns"
    using n by (subst inj_on_image_mem_iff [OF digits_inj]) auto
  then show ?thesis by (simp add: stack_key_def vpn_indices_digits kernel_view_dom)
qed

lemma map_stack_ok:
  assumes "pt_inv s (root_ppn pt)" "frames_used s + 27 \<le> frames_limit s" "\<And>k. pt_view (root_ppn pt) s k = kernel_view k"
  obtains first s' where "map_stack s pt = Inr (Some first, s')" "frames_ok s'" "heap_alloc s' = heap_alloc s"
    "frames_used s' \<le> frames_used s + 27" "frames_limit s' = frames_limit s"
proof -
  obtain first s' where "flow_fold (map_stack_page pt) (0, s) (map of_nat [0..<9]) = Inr (Next (first, s'))"
      "pt_inv s' (root_ppn pt)" "heap_alloc s' = heap_alloc s" "frames_used s' \<le> frames_used s + 27"
      "frames_limit s' = frames_limit s"
    using map_stack_pages_ok [OF assms(1), of "map of_nat [0..<9]" 0] assms(2,3) stack_keys_distinct stack_keys_free
    by (auto simp del: upt_rec_numeral)
  then show thesis
    by (intro that [of first s']) (simp_all add: map_stack_def pt_inv_def)
qed

section \<open>Page tables\<close>

lemma kernel_regions_progress:
  assumes inv: "pt_inv s (root_ppn pt)" and view: "\<And>k. pt_view (root_ppn pt) s k = None"
    and room: "frames_used s + 68 \<le> frames_limit s"
  obtains s' where "map_kernel_regions s pt = Inr s'" "pt_inv s' (root_ppn pt)"
    "\<And>k. pt_view (root_ppn pt) s' k = kernel_view k" "frames_used s' \<le> frames_used s + 68"
    "frames_limit s' = frames_limit s" "heap_alloc s' = heap_alloc s"
proof -
  have need: "card (\<Union> (req_tables ` set kernel_regions) - table_paths (root_ppn pt) s) \<le> 68"
    unfolding kernel_regions_tables card_kernel_tables [symmetric]
    by (rule card_mono) (auto simp: kernel_tables_def)
  then have "\<exists>s'. res_fold (pt_map_entry pt) s kernel_regions = Inr s'"
    using ptm.map_all_progress [OF inv kernel_keys_distinct] view room by simp
  then obtain s' where run: "res_fold (pt_map_entry pt) s kernel_regions = Inr s'" ..
  have used: "frames_used s \<le> frames_limit s" using room by simp
  note u = ptm.map_all_used [OF inv run used]
  note v = ptm.map_all_view(1) [OF inv run]
  have "pt_evolves (root_ppn pt) s s'"
    using run by (intro pt_map_all_evolves [OF inv]) (simp add: pt_map_all_def)
  then have "heap_alloc s' = heap_alloc s" by (simp add: pt_evolves_def)
  moreover have "pt_view (root_ppn pt) s' k = kernel_view k" for k
    using v [of k] by (simp add: kernel_view_def view split: option.splits)
  ultimately show thesis
    using run u v need by (intro that [of s']) (simp_all add: map_kernel_regions_def pt_map_all_def)
qed

lemma init_kernel_page_table_ok:
  assumes "frames_ok s" "frames_used s + 71 \<le> frames_limit s"
  obtains satp s' where "init_kernel_page_table s = Inr (satp, s')" "frames_ok s'"
    "frames_used s' \<le> frames_used s + 71" "frames_limit s' = frames_limit s" "heap_alloc s' = heap_alloc s"
proof -
  obtain pt t where t: "page_table_new s = (Some pt, t)" "pt_inv t (root_ppn pt)"
      "\<And>k. pt_view (root_ppn pt) t k = None" "frames_used t = frames_used s + 1"
      "frames_limit t = frames_limit s" "heap_alloc t = heap_alloc s"
    by (rule page_table_new_cases [OF assms(1)]) (use assms(2) in auto)
  obtain u where u0: "map_kernel_regions t pt = Inr u" "pt_inv u (root_ppn pt)"
    "\<And>k. pt_view (root_ppn pt) u k = kernel_view k" "frames_used u \<le> frames_used t + 68"
    "frames_limit u = frames_limit t" "heap_alloc u = heap_alloc t"
    by (rule kernel_regions_progress [OF t(2,3)]) (use assms(2) t(4,5) in auto)
  note u = t(1) u0(1-3) u0(4) [unfolded t(4)] u0(5) [unfolded t(5)] u0(6) [unfolded t(6)]
  let ?x = "(0x100000, 0x100000, PTE_R OR PTE_W) :: mapping_req"
  have cnt: "card (req_tables ?x - table_paths (root_ppn pt) u) \<le> 2" by (rule card_req_tables)
  show thesis
  proof (cases rule: pt_map_entry_cases [OF u(3), of ?x])
    case 1
    then show thesis using cnt u(5,6) assms(2) by simp
  next
    case 2
    then show thesis by (simp add: u(4) test_page_fresh(1))
  next
    case (3 v)
    have "heap_alloc v = heap_alloc u" "frames_limit v = frames_limit u" "frames_ok v"
      using 3(3) pt_evolves_inv [OF 3(3)] by (simp_all add: pt_evolves_def frames_limit_def pt_inv_def)
    then show thesis
      using 3(1,6) u cnt
      by (intro that [of "satp_of pt" "v\<lparr>kernel_page_table := Some (root_ppn pt)\<rparr>"])
        (simp_all add: init_kernel_page_table_def pt_map_as_entry frames_ok_def frames_used_def frames_limit_def)
  qed
qed

section \<open>The first process\<close>

lemma process_new_ok:
  assumes "frames_ok s" "frames_used s + 71 \<le> frames_limit s"
  obtains p s' where "process_new s pid = Inr (Some p, s')" "pt_inv s' (root_ppn (p_page_table p))"
    "\<And>k. pt_view (root_ppn (p_page_table p)) s' k = kernel_view k" "frames_used s' \<le> frames_used s + 71"
    "frames_limit s' = frames_limit s" "heap_alloc s' = heap_alloc s"
proof -
  obtain pt t where t: "page_table_new s = (Some pt, t)" "pt_inv t (root_ppn pt)"
      "\<And>k. pt_view (root_ppn pt) t k = None" "frames_used t = frames_used s + 1"
      "frames_limit t = frames_limit s" "heap_alloc t = heap_alloc s"
    by (rule page_table_new_cases [OF assms(1)]) (use assms(2) in auto)
  obtain x u where al: "alloc_pages t 2 = (x, u)" by fastforce
  have two: "pages_ok 2" by (simp add: pages_ok_def)
  have fok: "frames_ok t" using t(2) by (simp add: pt_inv_def)
  have mod: "unat (pg_current (page_alloc t)) mod 4096 = 0" using fok by (simp add: frames_ok_def)
  have u: "\<exists>k. x = Some k" "frames_used u = frames_used t + 2" "frames_limit u = frames_limit t"
    "heap_alloc u = heap_alloc t"
    by (cases rule: alloc_pages_cases [OF fok two al];
        use mod t(4,5) assms(2) in \<open>simp add: frames_used_def frames_limit_def\<close>; linarith?)+
  note st = alloc_pages_stable [OF t(2) two al]
  obtain v where v: "map_kernel_regions u pt = Inr v" "pt_inv v (root_ppn pt)"
    "\<And>k. pt_view (root_ppn pt) v k = kernel_view k" "frames_used v \<le> frames_used u + 68"
    "frames_limit v = frames_limit u" "heap_alloc v = heap_alloc u"
    by (rule kernel_regions_progress [OF st(1)]) (use assms(2) t(3-5) u(2,3) st(3) in auto)
  from u(1) obtain kstack where "x = Some kstack" ..
  with t(1) al v(1) have "\<exists>p. process_new s pid = Inr (Some p, v) \<and> p_page_table p = pt"
    by (simp add: process_new_def)
  then show thesis using v t u by (auto intro!: that)
qed

section \<open>The whole start-up\<close>

lemma shell_image:
  assumes "images_ok im"
  shows "get_file_data (fs_init im fs_empty) ''/bin/sh'' = Some (img_busybox im)"
proof -
  have "bt_get (fs_files (fs_init im fs_empty)) (create_path (fs_creations im ! 33)) =
      Some \<lparr>file_data = create_contents (fs_creations im ! 33)\<rparr>"
    using fs_init_run [OF assms] by simp
  then show ?thesis
    by (simp add: fs_creations_nth create_path_def create_contents_def get_file_data_def)
qed

lemma align_elf_room:
  assumes "heap_alloc s = \<lparr>hp_current = 0x86000000, hp_end = 0x87000000\<rparr>" "length d \<le> 0x1000000"
  obtains data s' where "align_elf s d = (Some data, s')"
proof -
  have "unat (of_nat (length d) :: usize) = length d"
    using assms(2) by (intro unat_of_nat_len) simp
  then have "0x86000000 + of_nat (length d) \<le> (0x87000000 :: usize)"
    using assms(2) by (simp add: word_le_nat_alt unat_word_ariths)
  then show thesis
    using assms by (intro that) (auto simp: align_elf_def heap_grant_def bump_alloc_def Let_def)
qed

lemma load_empty_image:
  assumes "pt_inv s (root_ppn pt)" "frames_used s + 27 \<le> frames_limit s" "\<And>k. pt_view (root_ppn pt) s k = kernel_view k"
    and "heap_alloc s = \<lparr>hp_current = 0x86000000, hp_end = 0x87000000\<rparr>" "length d \<le> 0x1000000"
    and "elf_parse E d = Some elf" "elf_phdrs elf = []"
  shows "\<exists>im s'. load_image E s pt d argv envp = Inr (Some im, s')"
proof -
  obtain first t where t: "map_stack s pt = Inr (Some first, t)" "heap_alloc t = heap_alloc s"
    by (rule map_stack_ok [OF assms(1-3)])
  obtain data u where u: "align_elf t d = (Some data, u)"
    by (rule align_elf_room [of t d]) (use t(2) assms(4,5) in auto)
  show ?thesis
    by (simp add: load_image_def t(1) u assms(6,7) load_elf_into_def Let_def split: prod.split)
qed

lemma boot_runs:
  assumes "images_ok im" "unat e \<le> 0x87000000" "\<And>a. \<not> vp_transport V a"
    and "length (img_busybox im) \<le> 0x1000000" "elf_parse E (img_busybox im) = Some elf" "elf_phdrs elf = []"
  shows "\<exists>u k. rust_main E V im e m = Inr (u, k)"
proof -
  let ?s0 = "init_heap (mm_init e (k_mm (kernel_static m :: ('a, 'b) kernel)))"
  have ok: "frames_ok ?s0" by (rule mm_init_ok) (use assms(2) in \<open>simp add: kernel_end_ok_def\<close>)
  have al: "unat (page_align_up e) = (unat e + 4095) div 4096 * 4096"
    by (rule unat_page_align_up) (use assms(2) in simp)
  have "(unat e + 4095) div 4096 \<le> (0x87000000 + 4095) div 4096"
    using assms(2) by (intro div_le_mono) simp
  then have room: "frames_used ?s0 + 500 \<le> frames_limit ?s0"
    using al by (simp add: frames_used_def frames_limit_def init_heap_def mm_init_def)
  obtain satp s1 where s1: "init_kernel_page_table ?s0 = Inr (satp, s1)" "frames_ok s1"
      "frames_used s1 \<le> frames_used ?s0 + 71" "frames_limit s1 = frames_limit ?s0" "heap_alloc s1 = heap_alloc ?s0"
    by (rule init_kernel_page_table_ok [OF ok]) (use room in auto)
  obtain p s2 where s2: "process_new s1 1 = Inr (Some p, s2)" "pt_inv s2 (root_ppn (p_page_table p))"
      "\<And>k. pt_view (root_ppn (p_page_table p)) s2 k = kernel_view k" "frames_used s2 \<le> frames_used s1 + 71"
      "frames_limit s2 = frames_limit s1" "heap_alloc s2 = heap_alloc s1"
    by (rule process_new_ok [OF s1(2), of 1]) (use room s1(3,4) in auto)
  have heap: "heap_alloc s2 = \<lparr>hp_current = 0x86000000, hp_end = 0x87000000\<rparr>"
    by (simp add: s2(6) s1(5) init_heap_def)
  obtain i s3 where s3: "load_image E s2 (p_page_table p) (img_busybox im) [string_bytes ''sh'']
      [string_bytes ''PATH=/bin''] = Inr (Some i, s3)"
    using load_empty_image [OF s2(2) _ s2(3) heap assms(4-6)] room s1(3,4) s2(4,5) by force
  have search: "virtio_search E V j addrs = Inr (None, [], log_record E j Warn (string_bytes ''No VirtIO network device found''))"
    for j :: "('a, 'b) kernel" and addrs
    by (induction addrs) (simp_all add: assms(3))
  have fs: "k_fs (kernel_static m :: ('a, 'b) kernel) = fs_empty" "\<not> nt_device (k_net (kernel_static m :: ('a, 'b) kernel))"
    "k_procs (kernel_static m :: ('a, 'b) kernel) = []"
    by (simp_all add: kernel_static_def)
  show ?thesis
    by (simp add: rust_main_def main_memory_def main_devices_def main_shell_def init_user_proc_def virtio_init_def
        search net_init_def console_init_def log_same s1(1) s2(1) s3 fs shell_image [OF assms(1)] Let_def run_user_def bt_get_def)
qed

end
