(* ===== verification/Syscall_Props.thy ===== *)
theory Syscall_Props
  imports Kernel_Reach
begin

text \<open>
  What user programs can rely on of single system calls: \<^verbatim>\<open>read\<close> stays within the caller's buffer,
  the console reads lines like a line editor, and \<^verbatim>\<open>wait4\<close> reaps exactly the exited children.
\<close>

section \<open>Writing to user memory\<close>

text \<open>A physical byte that no address of the buffer can ever be translated to for writing.\<close>

definition outside :: "('s, 'h) env \<Rightarrow> usize \<Rightarrow> usize \<Rightarrow> nat \<Rightarrow> usize \<Rightarrow> bool" where
  "outside E satp buf n pa \<longleftrightarrow> (\<forall>m i. i < n \<longrightarrow> mmu E m satp True (buf + of_nat i) \<noteq> Some pa)"

lemma outside_mono: "outside E satp buf n pa \<Longrightarrow> j \<le> n \<Longrightarrow> outside E satp buf j pa"
  by (simp add: outside_def)

lemma vstore_outside:
  "vstore E k va bs = Inr k' \<Longrightarrow> k_satp k' = k_satp k \<and>
    (outside E (k_satp k) va (length bs) pa \<longrightarrow> kram k' pa = kram k pa)"
proof (induction bs arbitrary: k va)
  case (Cons b bs)
  from Cons.prems obtain q where q: "mmu E (kram k) (k_satp k) True va = Some q"
    "vstore E (set_ram k ((kram k)(q := b))) (va + 1) bs = Inr k'"
    by (auto split: option.splits)
  note IH = Cons.IH [OF q(2)]
  have "q \<noteq> pa \<and> outside E (k_satp k) (va + 1) (length bs) pa" if o: "outside E (k_satp k) va (length (b # bs)) pa"
  proof
    show "q \<noteq> pa" using o [unfolded outside_def, rule_format, of 0 "kram k"] q(1) by auto
    show "outside E (k_satp k) (va + 1) (length bs) pa"
      unfolding outside_def
    proof (intro allI impI)
      fix m i assume "i < length bs"
      then have "mmu E m (k_satp k) True (va + of_nat (Suc i)) \<noteq> Some pa"
        using o unfolding outside_def by (metis Suc_less_eq length_Cons)
      then show "mmu E m (k_satp k) True (va + 1 + of_nat i) \<noteq> Some pa" by (simp add: add.assoc)
    qed
  qed
  then show ?case using IH by auto
qed simp

text \<open>The answer of a read: an error or at most \<open>count\<close> bytes, written into the buffer only.\<close>

definition bounded_read ::
  "('s, 'h) env \<Rightarrow> ('s, 'h) kernel \<Rightarrow> usize \<Rightarrow> usize \<Rightarrow> isize \<times> ('s, 'h) kernel \<Rightarrow> bool"
where
  "bounded_read E k buf count r \<longleftrightarrow> (fst r = - 1 \<or> fst r = - 11 \<or> fst r \<le> count) \<and>
     (\<forall>pa. outside E (k_satp k) buf (unat count) pa \<longrightarrow> kram (snd r) pa = kram k pa)"

lemma vec_zeroed_same: "vec_zeroed k n = Inr (p, k') \<Longrightarrow> kram k' = kram k \<and> k_satp k' = k_satp k \<and> k_fs k' = k_fs k"
  by (auto simp: vec_zeroed_def split: if_splits prod.splits option.splits)

lemma poll_same: "poll_network E k = Inr k' \<Longrightarrow> kram k' = kram k \<and> k_satp k' = k_satp k"
  by (auto simp: poll_network_def get_time_ms_def read_time_def split: if_splits prod.splits option.splits)

lemma getchar_same: "getchar E k = (c, k') \<Longrightarrow> kram k' = kram k \<and> k_satp k' = k_satp k"
  by (auto simp: getchar_def Let_def split: if_splits)

section \<open>Reading stays within the buffer\<close>

lemma bounded_store:
  assumes "vstore E j buf bs = Inr k'" "length bs \<le> unat count" "kram j = kram k" "k_satp j = k_satp k"
    and "kram k'' = kram k'" "r = - 1 \<or> r = - 11 \<or> r \<le> count"
  shows "bounded_read E k buf count (r, k'')"
  using assms vstore_outside [OF assms(1)] outside_mono [of E "k_satp k" buf "unat count" _ "length bs"]
  by (auto simp: bounded_read_def)

lemma bounded_same: "kram k' = kram k \<Longrightarrow> r = - 1 \<or> r = - 11 \<or> r \<le> count \<Longrightarrow> bounded_read E k buf count (r, k')"
  by (simp add: bounded_read_def)

lemma word_of_len: "unat n = l \<Longrightarrow> n = (of_nat l :: usize)"
  by (drule sym) simp

lemma unat_of_nat_le: "unat (of_nat n :: usize) \<le> n"
  by (simp add: unat_of_nat)

lemma of_nat_le_word: "n \<le> unat c \<Longrightarrow> of_nat n \<le> (c :: usize)"
  using unat_of_nat_le [of n] by (simp add: word_le_nat_alt)

lemma bounded_nscd: "post (nscd_read E k fd st buf count) (bounded_read E k buf count)"
proof (rule postI)
  fix x assume r: "nscd_read E k fd st buf count = Inr x"
  let ?n = "min (of_nat (length (ns_data st) - unat (ns_offset st))) count"
  show "bounded_read E k buf count x"
  proof (cases "0 < ?n")
    case True
    then obtain k1 where k1: "vstore E k buf (take (unat ?n) (drop (unat (ns_offset st)) (ns_data st))) = Inr k1"
        "x = (?n, k1\<lparr>k_fake := bt_modify (k_fake k1) fd (\<lambda>_. Nscd (st\<lparr>ns_offset := ns_offset st + ?n\<rparr>))\<rparr>)"
      using r by (auto simp: nscd_read_def Let_def res_bind_def split: sum.splits)
    have "unat ?n \<le> unat count" by (simp add: word_le_nat_alt [symmetric])
    then show ?thesis
      unfolding k1(2) by (intro bounded_store [OF k1(1)]) auto
  next
    case False
    then show ?thesis using r by (auto simp: nscd_read_def Let_def intro!: bounded_same)
  qed
qed

lemma bounded_recv: "post (recv_from_fd E k fd buf count) (bounded_read E k buf count)"
proof (rule postI)
  fix x assume r: "recv_from_fd E k fd buf count = Inr x"
  then obtain k1 where p: "poll_network E k = Inr k1"
    by (auto simp: recv_from_fd_def res_bind_def split: sum.splits)
  note same = poll_same [OF p]
  show "bounded_read E k buf count x"
  proof (cases "bt_get (nt_fd_to_handle (k_net k1)) fd")
    case None
    then show ?thesis using r p same by (auto simp: recv_from_fd_def intro!: bounded_same)
  next
    case (Some h)
    obtain s where s: "get_socket E k1 h = Inr s"
      using r p Some by (auto simp: recv_from_fd_def res_bind_def split: sum.splits)
    show ?thesis
    proof (cases "tcp_can_recv (tcp E) s h \<and> tcp_rx_data (tcp E) s h \<noteq> None")
      case True
      then obtain data where d: "tcp_rx_data (tcp E) s h = Some data" by blast
      let ?n = "min (length data) (unat count)"
      obtain k2 where k2: "vstore E k1 buf (take ?n data) = Inr k2" "x = (of_nat ?n, set_stack k2 (tcp_rx_take (tcp E) s h ?n))"
        using r p Some s d True by (auto simp: recv_from_fd_def res_bind_def Let_def split: sum.splits)
      show ?thesis
        unfolding k2(2) using same by (intro bounded_store [OF k2(1)]) (auto intro: of_nat_le_word)
    next
      case False
      then show ?thesis
        using r p Some s same by (auto simp: recv_from_fd_def intro!: bounded_same split: if_splits option.splits)
    qed
  qed
qed

lemma pipe_read_le:
  assumes "pipe_inv q" "length out < 2 ^ 64" "pipe_read q out = Inr (n, tmp, q')"
  shows "unat n \<le> length out"
proof -
  have "n = of_nat (min (length out) (length (pipe_contents q)))"
    using pipe_read_loop_eq [OF assms(1,2), of 0] assms(3) by (auto simp: pipe_read_def length_contents)
  then show ?thesis
    using unat_of_nat_le [of "min (length out) (length (pipe_contents q))"] by simp
qed

lemma bounded_pipe:
  assumes "\<And>q. bt_get (k_pipes k) pid = Some q \<Longrightarrow> pipe_inv q"
  shows "post (read_pipe E k pid buf count) (bounded_read E k buf count)"
proof (rule postI)
  fix x assume r: "read_pipe E k pid buf count = Inr x"
  show "bounded_read E k buf count x"
  proof (cases "bt_get (k_pipes k) pid")
    case None
    then show ?thesis using r by (auto simp: read_pipe_def intro!: bounded_same)
  next
    case (Some q)
    obtain v k1 where k1: "vec_zeroed k count = Inr (v, k1)"
      using r Some by (auto simp: read_pipe_def res_bind_def split: sum.splits)
    obtain n tmp q' where q': "pipe_read q (replicate (unat count) 0) = Inr (n, tmp, q')"
      using r Some k1 by (auto simp: read_pipe_def res_bind_def split: sum.splits)
    have n: "n \<le> count"
      using pipe_read_le [OF assms [OF Some] _ q'] unsigned_less [of count] by (simp add: word_le_nat_alt)
    note same = vec_zeroed_same [OF k1]
    show ?thesis
    proof (cases "0 < n")
      case True
      obtain k2 where k2: "vstore E k1 buf (take (unat n) tmp) = Inr k2"
          "x = (n, k2\<lparr>k_pipes := bt_modify (k_pipes k2) pid (\<lambda>_. q')\<rparr>)"
        using r Some k1 q' True by (auto simp: read_pipe_def res_bind_def split: sum.splits)
      have "length (take (unat n) tmp) \<le> unat count" using n by (simp add: word_le_nat_alt)
      then show ?thesis
        unfolding k2(2) using same n by (intro bounded_store [OF k2(1)]) auto
    next
      case False
      then show ?thesis using r Some k1 q' same n by (auto simp: read_pipe_def intro!: bounded_same)
    qed
  qed
qed

lemma bounded_file:
  assumes "fs_wf (k_fs k)"
  shows "post (read_file E k fd f buf count) (bounded_read E k buf count)"
proof (rule postI)
  fix x assume r: "read_file E k fd f buf count = Inr x"
  obtain v k1 where k1: "vec_zeroed k count = Inr (v, k1)"
    using r by (auto simp: read_file_def res_bind_def split: sum.splits)
  obtain tmp where tmp: "read_inode (k_fs k1) (of_inode f) count (of_offset f) = Inr tmp"
    using r k1 by (auto simp: read_file_def res_bind_def split: sum.splits)
  obtain k2 where k2: "vstore E k1 buf tmp = Inr k2"
      "x = (of_nat (length tmp), k2\<lparr>k_fds := fd_set (k_fds k2) fd (f\<lparr>of_offset := of_offset f + of_nat (length tmp)\<rparr>)\<rparr>)"
    using r k1 tmp by (auto simp: read_file_def res_bind_def Let_def split: sum.splits)
  have "length tmp \<le> unat count"
    using tmp vec_zeroed_same [OF k1] read_inode_eq [OF assms, of "of_inode f"]
    by (cases "inode_file (k_fs k) (of_inode f)") (auto simp: read_inode_def split: if_splits)
  then show "bounded_read E k buf count x"
    unfolding k2(2) using vec_zeroed_same [OF k1] by (intro bounded_store [OF k2(1)]) (auto intro: of_nat_le_word)
qed

lemma bounded_stdin:
  "stdin_loop E buf count fuel n k = Inr (r, k') \<Longrightarrow> n \<le> count \<Longrightarrow> r \<le> count \<and> k_satp k' = k_satp k \<and>
    (\<forall>pa. outside E (k_satp k) buf (unat count) pa \<longrightarrow> kram k' pa = kram k pa)"
proof (induction fuel arbitrary: n k)
  case 0
  then show ?case by (auto split: if_splits)
next
  case (Suc fuel)
  obtain c k1 where gc: "getchar E k = (c, k1)" by fastforce
  note g = getchar_same [OF gc]
  show ?case
  proof (cases "n < count \<and> c \<noteq> None")
    case False
    with Suc gc g show ?thesis by (auto split: if_splits)
  next
    case True
    then obtain ch where c: "c = Some ch" and lt: "n < count" by auto
    have up: "n + 1 \<le> count" using lt by (rule inc_le)
    have down: "n - 1 \<le> count" if "0 < n"
      using that lt unat_minus_one [of n] by (cases "n = 0") (simp_all add: word_le_nat_alt word_less_nat_alt)
    show ?thesis
    proof (cases "ch = 8 \<or> ch = 0x7f")
      case bs: True
      show ?thesis
      proof (cases "0 < n")
        case True
        then have "stdin_loop E buf count fuel (n - 1) (console_print k1 [8, 0x20, 8]) = Inr (r, k')"
          using Suc.prems(1) gc c lt bs by simp
        from Suc.IH [OF this down [OF True]] show ?thesis by (simp add: console_print_eq g)
      next
        case False
        then have "stdin_loop E buf count fuel n k1 = Inr (r, k')"
          using Suc.prems(1) gc c lt bs by simp
        from Suc.IH [OF this Suc.prems(2)] show ?thesis by (simp add: g)
      qed
    next
      case no: False
      obtain c' echo where e: "stdin_echo ch = (c', echo)" by fastforce
      obtain k2 where k2: "vstore E (console_print k1 echo) (buf + n) [c'] = Inr k2"
          "(if c' = 10 then Inr (n + 1, k2) else stdin_loop E buf count fuel (n + 1) k2) = Inr (r, k')"
        using Suc.prems(1) gc c lt no e by (auto simp: res_bind_def split: sum.splits)
      have o: "outside E (k_satp k) (buf + n) 1 pa" if "outside E (k_satp k) buf (unat count) pa" for pa
        using that [unfolded outside_def, rule_format, of "unat n"] lt
        by (simp add: outside_def word_less_nat_alt)
      have w: "k_satp k2 = k_satp k \<and> (outside E (k_satp k) buf (unat count) pa \<longrightarrow> kram k2 pa = kram k pa)" for pa
        using vstore_outside [OF k2(1), of pa] o [of pa] g by (simp add: console_print_eq)
      show ?thesis
      proof (cases "c' = 10")
        case True
        then show ?thesis using k2(2) w up by auto
      next
        case False
        then have "stdin_loop E buf count fuel (n + 1) k2 = Inr (r, k')" using k2(2) by simp
        from Suc.IH [OF this up] w show ?thesis by simp
      qed
    qed
  qed
qed

lemma bounded_other:
  assumes "kernel_inv k"
  shows "post (read_other E k fd buf count) (bounded_read E k buf count)"
proof -
  have "fs_wf (k_fs k)" using assms by (simp add: kernel_inv_def)
  then show ?thesis
    unfolding read_other_def
    by (auto simp: bounded_same split: option.split fake_fd_type.split
        intro: bounded_nscd bounded_recv bounded_file bounded_pipe inv_pipeD [OF assms])
qed


section \<open>A kernel for examples\<close>

definition demo_live :: "(unit, unit) kernel" where
  "demo_live = kernel_static (\<lambda>_. 0)\<lparr>k_mm := demo_mm, k_satp := 0\<rparr>
     \<lparr>k_mm := demo_mm, k_current := 1, k_procs := [(1, demo_proc 1 Running\<lparr>p_ppid := 0\<rparr>)], k_next_pid := 2\<rparr>"

definition demo_tty :: "(unit, unit) env" where
  "demo_tty = demo_env\<lparr>uart_lsr := (\<lambda>n. 1), uart_rhr := (\<lambda>n. if n < 4 then [104, 105, 8, 13] ! n else 0)\<rparr>"

lemma demo_live_inv: "kernel_inv demo_live"
proof -
  have "frames_ok demo_mm" by (simp add: frames_ok_def demo_mm_def)
  from inv_first_process [OF boot_inv_static [OF this, of 0 "\<lambda>_. 0", where ?'a = unit and ?'b = unit] this,
      of "demo_proc 1 Running\<lparr>p_ppid := 0\<rparr>"]
  show ?thesis
    by (simp add: demo_live_def demo_proc_def trap_frame_new_def kernel_static_def)
qed

section \<open>The console is a line editor\<close>

text \<open>The bytes that arrive within \<open>n\<close> looks at the UART.\<close>

definition arrivals :: "('s, 'h) env \<Rightarrow> nat \<Rightarrow> nat \<Rightarrow> u8 list" where
  "arrivals E p n = map (uart_rhr E) (filter (\<lambda>i. uart_lsr E i AND 1 \<noteq> 0) [p..<p + n])"

text \<open>
  Editing one line of at most \<open>cap\<close> bytes: the line, what the terminal shows, or \<open>None\<close> if the
  line is not complete yet.
\<close>

fun edit_line :: "nat \<Rightarrow> u8 list \<Rightarrow> u8 list \<Rightarrow> u8 list \<Rightarrow> (u8 list \<times> u8 list) option" where
  "edit_line cap line echo [] = (if length line < cap then None else Some (line, echo))"
| "edit_line cap line echo (c # cs) =
     (if cap \<le> length line then Some (line, echo)
      else if c \<in> {8, 0x7f} then
        (if line = [] then edit_line cap line echo cs else edit_line cap (butlast line) (echo @ [8, 0x20, 8]) cs)
      else if c \<in> {10, 13} then Some (line @ [10], echo @ [13, 10])
      else edit_line cap (line @ [c]) (if c = 9 \<or> 0x20 \<le> c \<and> c < 0x7f then echo @ [c] else echo) cs)"

lemma arrivals_Suc:
  "arrivals E p (Suc n) = (if uart_lsr E p AND 1 \<noteq> 0 then uart_rhr E p # arrivals E (Suc p) n else arrivals E (Suc p) n)"
proof -
  have "[p..<p + Suc n] = p # [Suc p..<Suc p + n]" by (simp add: upt_conv_Cons)
  then show ?thesis by (simp add: arrivals_def)
qed

lemma edit_line_full: "cap \<le> length line \<Longrightarrow> edit_line cap line echo cs = Some (line, echo)"
  by (cases cs) auto

text \<open>The buffer of the caller, at the physical addresses \<open>f 0, f 1, \<dots>\<close>\<close>

definition buffer_at :: "('s, 'h) env \<Rightarrow> usize \<Rightarrow> usize \<Rightarrow> nat \<Rightarrow> (nat \<Rightarrow> usize) \<Rightarrow> bool" where
  "buffer_at E satp buf n f \<longleftrightarrow> inj_on f {..<n} \<and> (\<forall>m i. i < n \<longrightarrow> mmu E m satp True (buf + of_nat i) = Some (f i))"

definition edit_result ::
  "(usize \<times> ('s, 'h) kernel) res \<Rightarrow> (nat \<Rightarrow> usize) \<Rightarrow> u8 list \<Rightarrow> (u8 list \<times> u8 list) option \<Rightarrow> bool"
where
  "edit_result r f old e \<longleftrightarrow>
     (case e of
        None \<Rightarrow> r = Inl Hang
      | Some (line, echo) \<Rightarrow> \<exists>k'. r = Inr (of_nat (length line), k') \<and> k_out k' = old @ echo \<and>
          map (\<lambda>i. kram k' (f i)) [0..<length line] = line)"

lemma buffer_put:
  assumes "buffer_at E (k_satp k) buf (unat count) f" "unat n = length line" "length line < unat count"
    and "map (\<lambda>i. kram k (f i)) [0..<length line] = line"
  shows "vstore E k (buf + n) [b] = Inr (set_ram k ((kram k)(f (length line) := b)))"
    and "map (\<lambda>i. ((kram k)(f (length line) := b)) (f i)) [0..<length (line @ [b])] = line @ [b]"
proof -
  have n: "n = of_nat (length line)" using assms(2) by (rule word_of_len)
  show "vstore E k (buf + n) [b] = Inr (set_ram k ((kram k)(f (length line) := b)))"
    using assms(1,3) by (simp add: buffer_at_def n)
  have "f i \<noteq> f (length line)" if "i < length line" for i
    using assms(1,3) that by (auto simp: buffer_at_def dest: inj_onD)
  then have "map (\<lambda>i. ((kram k)(f (length line) := b)) (f i)) [0..<length line] = map (\<lambda>i. kram k (f i)) [0..<length line]"
    by (intro map_cong) auto
  then show "map (\<lambda>i. ((kram k)(f (length line) := b)) (f i)) [0..<length (line @ [b])] = line @ [b]"
    using assms(4) by simp
qed

text \<open>The loop after some bytes: the line so far is in the buffer, its echo on the terminal.\<close>

definition editing ::
  "('s, 'h) env \<Rightarrow> usize \<Rightarrow> usize \<Rightarrow> (nat \<Rightarrow> usize) \<Rightarrow> u8 list \<Rightarrow> ('s, 'h) kernel \<Rightarrow> usize \<Rightarrow> u8 list \<Rightarrow> u8 list \<Rightarrow> bool"
where
  "editing E buf count f old k n line echo \<longleftrightarrow> buffer_at E (k_satp k) buf (unat count) f \<and> unat n = length line \<and>
     length line \<le> unat count \<and> map (\<lambda>i. kram k (f i)) [0..<length line] = line \<and> k_out k = old @ echo"

lemma editing_start: "buffer_at E (k_satp k) buf (unat count) f \<Longrightarrow> editing E buf count f (k_out k) k 0 [] []"
  by (simp add: editing_def)

lemma editing_erase:
  assumes "editing E buf count f old k n line echo" "line \<noteq> []"
  shows "0 < n" "editing E buf count f old (console_print k [8, 0x20, 8]) (n - 1) (butlast line) (echo @ [8, 0x20, 8])"
proof -
  note ed = assms(1) [unfolded editing_def]
  show pos: "0 < n" using assms(2) ed by (simp add: word_less_nat_alt)
  then have u: "unat (n - 1) = length (butlast line)" using ed unat_minus_one [of n] by auto
  have "map (\<lambda>i. kram k (f i)) [0..<length (butlast line)] =
      take (length line - 1) (map (\<lambda>i. kram k (f i)) [0..<length line])"
    by (simp add: take_map take_upt)
  then have "map (\<lambda>i. kram k (f i)) [0..<length (butlast line)] = butlast line"
    using ed by (simp only: butlast_conv_take)
  then show "editing E buf count f old (console_print k [8, 0x20, 8]) (n - 1) (butlast line) (echo @ [8, 0x20, 8])"
    using ed u by (auto simp: editing_def console_print_eq)
qed

lemma editing_put:
  assumes "editing E buf count f old k n line echo" "length line < unat count"
  obtains k' where "vstore E (console_print k shown) (buf + n) [b] = Inr k'" "k_polls k' = k_polls k"
    "editing E buf count f old k' (n + 1) (line @ [b]) (echo @ shown)"
proof -
  let ?k = "console_print k shown" and ?m = "(kram k)(f (length line) := b)"
  note ed = assms(1) [unfolded editing_def]
  have k: "kram ?k = kram k" "k_satp ?k = k_satp k" "k_polls ?k = k_polls k" "k_out ?k = old @ echo @ shown"
    using ed by (simp_all add: console_print_eq)
  note put = buffer_put [of E ?k buf count f n line b, unfolded k]
  have "unat (n + 1) = length (line @ [b])"
    using assms(2) ed unat_lt_2_64 [of count] by (simp add: unat_word_ariths)
  then show thesis
    using put ed assms(2) k by (intro that [of "set_ram ?k ?m"]) (auto simp: editing_def)
qed

lemma edit_line_erase:
  assumes "ch = 8 \<or> ch = 0x7f" "length line < cap"
  shows "edit_line cap line echo (ch # cs) =
    (if line = [] then edit_line cap line echo cs else edit_line cap (butlast line) (echo @ [8, 0x20, 8]) cs)"
  using assms by auto

lemma edit_line_echo:
  assumes "stdin_echo ch = (ch', shown)" "\<not> (ch = 8 \<or> ch = 0x7f)" "length line < cap"
  shows "edit_line cap line echo (ch # cs) =
    (if ch' = 10 then Some (line @ [ch'], echo @ shown) else edit_line cap (line @ [ch']) (echo @ shown) cs)"
  using assms by (cases "ch = 13 \<or> ch = 10") (auto simp: stdin_echo_def split: if_splits)

text \<open>One byte: if the loop follows the editor afterwards, it follows it from here on.\<close>

lemma stdin_byte:
  assumes IH: "\<And>k n line echo. editing E buf count f old k n line echo \<Longrightarrow>
      edit_result (stdin_loop E buf count fuel n k) f old (edit_line (unat count) line echo (arrivals E (k_polls k) fuel))"
    and ed: "editing E buf count f old k1 n line echo" and room: "length line < unat count"
    and gc: "getchar E k = (Some ch, k1)"
  shows "edit_result (stdin_loop E buf count (Suc fuel) n k) f old
    (edit_line (unat count) line echo (ch # arrivals E (k_polls k1) fuel))"
proof -
  have lt: "n < count" using ed room by (simp add: editing_def word_less_nat_alt)
  consider "ch = 8 \<or> ch = 0x7f" "line = []" | "ch = 8 \<or> ch = 0x7f" "line \<noteq> []" | "\<not> (ch = 8 \<or> ch = 0x7f)" by blast
  then show ?thesis
  proof cases
    case 1
    have "n = 0" using ed 1(2) by (simp add: editing_def unat_eq_0)
    then show ?thesis using IH [OF ed] lt gc 1 room by (auto simp: edit_line_erase)
  next
    case 2
    note e = editing_erase [OF ed 2(2)]
    have "stdin_loop E buf count (Suc fuel) n k = stdin_loop E buf count fuel (n - 1) (console_print k1 [8, 0x20, 8])"
      using lt gc 2(1) e(1) by auto
    then show ?thesis
      using IH [OF e(2)] 2 room by (simp add: edit_line_erase console_print_eq)
  next
    case 3
    obtain ch' shown where e: "stdin_echo ch = (ch', shown)" by fastforce
    obtain k2 where k2: "vstore E (console_print k1 shown) (buf + n) [ch'] = Inr k2" "k_polls k2 = k_polls k1"
        "editing E buf count f old k2 (n + 1) (line @ [ch']) (echo @ shown)"
      by (rule editing_put [OF ed room])
    have run: "stdin_loop E buf count (Suc fuel) n k =
        (if ch' = 10 then Inr (n + 1, k2) else stdin_loop E buf count fuel (n + 1) k2)"
      using lt gc 3 e k2(1) by simp
    have "unat (n + 1) = length (line @ [ch'])" using k2(3) by (simp add: editing_def)
    then have "n + 1 = of_nat (length (line @ [ch']))" by (rule word_of_len)
    then show ?thesis
      using IH [OF k2(3)] k2(2,3)
      unfolding edit_line_echo [OF e 3 room] run by (auto simp: edit_result_def editing_def)
  qed
qed

lemma stdin_edit:
  assumes "editing E buf count f old k n line echo"
  shows "edit_result (stdin_loop E buf count fuel n k) f old
    (edit_line (unat count) line echo (arrivals E (k_polls k) fuel))"
  using assms
proof (induction fuel arbitrary: n k line echo)
  case 0
  have "n = of_nat (length line)" using 0 by (intro word_of_len) (simp add: editing_def)
  then show ?case
    using 0 by (auto simp: editing_def edit_result_def arrivals_def word_less_nat_alt)
next
  case (Suc fuel)
  have n: "n = of_nat (length line)" using Suc.prems by (intro word_of_len) (simp add: editing_def)
  obtain c k1 where gc: "getchar E k = (c, k1)" by fastforce
  have k1: "k1 = k\<lparr>k_polls := Suc (k_polls k)\<rparr>"
    "c = (if uart_lsr E (k_polls k) AND 1 \<noteq> 0 then Some (uart_rhr E (k_polls k)) else None)"
    using gc by (auto simp: getchar_def Let_def split: if_splits)
  have ed: "editing E buf count f old k1 n line echo" using Suc.prems k1(1) by (simp add: editing_def)
  have "edit_result (stdin_loop E buf count (Suc fuel) n k) f old
      (edit_line (unat count) line echo (arrivals E (k_polls k) (Suc fuel)))" if room: "length line < unat count"
  proof (cases c)
    case None
    then have "arrivals E (k_polls k) (Suc fuel) = arrivals E (k_polls k1) fuel"
      using k1 by (simp add: arrivals_Suc split: if_splits)
    moreover have "stdin_loop E buf count (Suc fuel) n k = stdin_loop E buf count fuel n k1"
      using room Suc.prems gc None by (simp add: editing_def word_less_nat_alt)
    ultimately show ?thesis using Suc.IH [OF ed] by simp
  next
    case (Some ch)
    then have "arrivals E (k_polls k) (Suc fuel) = ch # arrivals E (k_polls k1) fuel"
      using k1 by (simp add: arrivals_Suc split: if_splits)
    then show ?thesis using stdin_byte [OF Suc.IH ed room gc [unfolded Some]] by simp
  qed
  moreover have "edit_result (stdin_loop E buf count (Suc fuel) n k) f old
      (edit_line (unat count) line echo cs)" if full: "\<not> length line < unat count" for cs
  proof -
    have "stdin_loop E buf count (Suc fuel) n k = Inr (n, k)"
      using Suc.prems full by (simp add: editing_def word_less_nat_alt)
    then show ?thesis
      using Suc.prems full n by (auto simp: editing_def edit_line_full edit_result_def)
  qed
  ultimately show ?case by blast
qed


lemma demo_console:
  "fd_get (k_fds demo_live) 0 = Some std_stream" "is_stdin std_stream"
  "buffer_at demo_tty (k_satp demo_live) 0x5000 (unat (16 :: usize)) (\<lambda>i. 0x5000 + of_nat i)"
  "edit_line (unat (16 :: usize)) [] [] (arrivals demo_tty (k_polls demo_live) (spin_fuel demo_tty)) =
     Some ([104, 10], [104, 105, 8, 0x20, 8, 13, 10])"
proof -
  show "fd_get (k_fds demo_live) 0 = Some std_stream" "is_stdin std_stream"
    by (simp_all add: demo_live_def kernel_static_def fd_get_def fd_table_new_def is_stdin_def std_stream_def)
  have inj: "inj_on (\<lambda>i. 0x5000 + of_nat i :: usize) {..<unat (16 :: usize)}"
  proof (rule inj_onI)
    fix x y :: nat
    assume "x \<in> {..<unat (16 :: usize)}" "y \<in> {..<unat (16 :: usize)}" "0x5000 + of_nat x = (0x5000 + of_nat y :: usize)"
    then have "unat (of_nat x :: usize) = unat (of_nat y :: usize)" "x < 16" "y < 16" by simp_all
    then show "x = y" by (simp add: unat_of_nat)
  qed
  show "buffer_at demo_tty (k_satp demo_live) 0x5000 (unat (16 :: usize)) (\<lambda>i. 0x5000 + of_nat i)"
    using inj by (simp add: buffer_at_def demo_tty_def demo_env_def)
  have "[0..<10 :: nat] = [0, 1, 2, 3, 4, 5, 6, 7, 8, 9]" by (simp add: upt_conv_Cons)
  then have "arrivals demo_tty (k_polls demo_live) (spin_fuel demo_tty) = [104, 105, 8, 13, 0, 0, 0, 0, 0, 0]"
    by (simp add: arrivals_def demo_tty_def demo_env_def demo_live_def kernel_static_def)
  then show "edit_line (unat (16 :: usize)) [] [] (arrivals demo_tty (k_polls demo_live) (spin_fuel demo_tty)) =
      Some ([104, 10], [104, 105, 8, 0x20, 8, 13, 10])"
    by simp
qed



section \<open>Waiting for children\<close>

text \<open>An exited child that a call of \<^verbatim>\<open>wait4(pid)\<close> may report.\<close>

definition waitable :: "('s, 'h) kernel \<Rightarrow> isize \<Rightarrow> usize \<Rightarrow> process \<Rightarrow> bool" where
  "waitable k pid c p \<longleftrightarrow> proc_of k c = Some p \<and> p_ppid p = k_current k \<and> p_state p = Zombie \<and>
     (0 < sint pid \<longrightarrow> c = pid)"

text \<open>
  C19. \<^verbatim>\<open>wait4\<close> reaps exactly one exited child.  If an exited child of the caller matches the request,
  the answer is the least process id among them, its table entry is gone and every other entry is
  as before.  If none matches, nothing changes and the answer is 0 for a call that must not block
  and \<^verbatim>\<open>-11\<close>, which the trap handler turns into waiting, otherwise.
\<close>

theorem wait4_outcome:
  assumes "kernel_inv k" "sys_wait4 E k pid wstatus options = Inr (r, k')"
  shows "if \<exists>c p. waitable k pid c p
    then (\<exists>p. waitable k pid r p) \<and> (\<forall>c p. waitable k pid c p \<longrightarrow> r \<le> c) \<and>
      proc_of k' = (proc_of k)(r := None)
    else r = (if options AND 1 \<noteq> 0 then 0 else - 11) \<and> k' = k"
proof -
  have wf: "bt_wf (k_procs k)" using assms(1) by (simp add: kernel_inv_defs)
  let ?P = "\<lambda>(c, p). p_ppid p = k_current k \<and> p_state p = Zombie \<and> \<not> (0 < sint pid \<and> c \<noteq> pid)"
  have P: "?P (c, p) \<and> bt_get (k_procs k) c = Some p \<longleftrightarrow> waitable k pid c p" for c p
    by (auto simp: waitable_def proc_of_def)
  show ?thesis
  proof (cases "zombie_child k pid")
    case None
    then have "\<not> (\<exists>x \<in> set (k_procs k). ?P x)"
      unfolding zombie_child_def find_None_iff by blast
    then have "\<not> waitable k pid c p" for c p
      using P [of c p] bt.entries_get [OF wf, of c p] by blast
    then show ?thesis using assms(2) None by (auto simp: sys_wait4_def)
  next
    case (Some zp)
    obtain z p where zp: "zp = (z, p)" by fastforce
    have z: "waitable k pid z p" "\<And>c q. waitable k pid c q \<Longrightarrow> z \<le> c"
      using Some unfolding zp zombie_child_def bt.find_least [OF wf] P [symmetric] by auto
    obtain k1 where k1: "(if wstatus \<noteq> 0 then vstore_u64 E k wstatus (push_bit 8 (p_exit_code p AND 0xff)) else Inr k) = Inr k1"
        "r = z" "k' = k1\<lparr>k_procs := bt_remove (k_procs k1) z\<rparr>"
      using assms(2) Some zp by (auto simp: sys_wait4_def res_bind_def split: sum.splits)
    have "k_procs k1 = k_procs k"
      using k1(1) post_vstores(4) [of E k wstatus] by (auto simp: post_def quiet_def split: if_splits)
    then have "proc_of k' = (proc_of k)(z := None)"
      using k1(3) by (auto simp: proc_of_def bt.get_del [OF wf])
    then show ?thesis using z k1(2) by auto
  qed
qed

definition demo_family :: "(unit, unit) kernel" where
  "demo_family = demo_live\<lparr>k_next_pid := 4,
     k_procs := [(1, demo_proc 1 Running\<lparr>p_ppid := 0\<rparr>), (2, demo_proc 2 Zombie), (3, demo_proc 3 Zombie)]\<rparr>"

lemma demo_family_proc:
  "proc_of demo_family pid = (if pid = 1 then Some (demo_proc 1 Running\<lparr>p_ppid := 0\<rparr>)
     else if pid = 2 then Some (demo_proc 2 Zombie) else if pid = 3 then Some (demo_proc 3 Zombie) else None)"
  by (simp add: proc_of_def demo_family_def bt_get_def)

lemma demo_family_inv: "kernel_inv demo_family"
proof -
  have "k_current demo_family = 1" "k_next_pid demo_family = 4"
    by (simp_all add: demo_family_def demo_live_def)
  moreover have "bt_wf (k_procs demo_family)"
    by (simp add: demo_family_def bt_wf_def)
  ultimately have "procs_inv demo_family"
    by (simp add: procs_inv_def sched_inv_def demo_family_proc demo_proc_def trap_frame_new_def)
  then show ?thesis
    using demo_live_inv
    by (simp add: kernel_inv_def demo_family_def fds_inv_def fd_ok_def pipes_inv_def fake_inv_def)
qed

theorem wait4_outcome_witness:
  "\<exists>k'. sys_wait4 demo_env demo_family (- 1) 0 0 = Inr (2, k') \<and> proc_of k' 2 = None \<and> proc_of k' 3 \<noteq> None"
proof -
  obtain k' where run: "sys_wait4 demo_env demo_family (- 1) 0 0 = Inr (2, k')"
    by (simp add: sys_wait4_def zombie_child_def demo_family_def demo_live_def demo_proc_def)
  have "k_current demo_family = 1"
    by (simp add: demo_family_def demo_live_def)
  then have "waitable demo_family (- 1) 2 (demo_proc 2 Zombie)"
    by (simp add: waitable_def demo_family_proc) (simp add: demo_proc_def)
  then have "proc_of k' = (proc_of demo_family)(2 := None)"
    using wait4_outcome [OF demo_family_inv run] by (auto split: if_splits)
  then show ?thesis using run by (simp add: demo_family_proc)
qed

section \<open>Buffers of the caller\<close>

lemma vstore_append: "vstore E k va (xs @ ys) = res_bind (vstore E k va xs) (\<lambda>k. vstore E k (va + of_nat (length xs)) ys)"
  by (induction xs arbitrary: k va) (simp_all add: add.assoc split: option.split)

lemma vstore_buffer:
  fixes n :: usize
  assumes "buffer_at E (k_satp k) buf (unat n) f" "length bs \<le> unat n"
  shows "\<exists>k'. vstore E k buf bs = Inr k' \<and> k_satp k' = k_satp k \<and> map (\<lambda>i. kram k' (f i)) [0..<length bs] = bs"
  using assms(2)
proof (induction bs rule: rev_induct)
  case (snoc b bs)
  then obtain j where j: "vstore E k buf bs = Inr j" "k_satp j = k_satp k" "map (\<lambda>i. kram j (f i)) [0..<length bs] = bs"
    by auto
  have len: "unat (of_nat (length bs) :: usize) = length bs"
    using snoc.prems unat_lt_2_64 [of n] by (simp add: unat_of_nat)
  have room: "length bs < unat n" using snoc.prems by simp
  note put = buffer_put [OF assms(1) [folded j(2)] len room j(3), of b]
  have "vstore E k buf (bs @ [b]) = Inr (set_ram j ((kram j)(f (length bs) := b)))"
    unfolding vstore_append j(1) res_bind_simps by (rule put(1))
  moreover have "map (\<lambda>i. kram (set_ram j ((kram j)(f (length bs) := b))) (f i)) [0..<length (bs @ [b])] = bs @ [b]"
    using put(2) by simp
  ultimately show ?case
    using j(2) by (intro exI [of _ "set_ram j ((kram j)(f (length bs) := b))"]) (simp del: upt_Suc)
qed simp

lemma vload_same: "kram k' = kram k \<Longrightarrow> k_satp k' = k_satp k \<Longrightarrow> vload E k' va n = vload E k va n"
  by (induction n arbitrary: va) (simp_all split: option.split)

end
