(* ===== verification/Exec_Image.thy ===== *)
theory Exec_Image
  imports Mem_Calls User_Stack Boot_Run Syscall_Props
begin

text \<open>
  The image \<^verbatim>\<open>exec_process\<close> of \<^verbatim>\<open>src/src/proc.rs\<close> makes: a new address space with the kernel in it, the
  segments of the file where its headers say and the arguments on the stack.  The steps, in the
  order of the code, are the stack pages, the copy of the file on the heap, the loader and the
  initial stack; each one leaves what the earlier ones have built.
\<close>

section \<open>The stack pages\<close>

abbreviation stack_flags :: pte_flags where
  "stack_flags \<equiv> PTE_U OR PTE_R OR PTE_W"

lemma stack_page_at: "i < 9 \<Longrightarrow> stack_top - of_nat i * 4096 = page_at (0x3ffffff - i)"
proof -
  assume "i < 9"
  then have "i \<in> {0, 1, 2, 3, 4, 5, 6, 7, 8}" by auto
  then show ?thesis by (auto simp: stack_top_def page_at_def)
qed

lemma map_stack_page_step:
  assumes l: "loaded s0 (root_ppn pt) 0 (blank_pages stack_flags V) t" and i: "i < 9"
    and run: "map_stack_page pt (first, t) (of_nat i) = Inr (Next (first', w))"
  obtains g where "fresh_mapped t (root_ppn pt) (page_at (0x3ffffff - i)) stack_flags g w"
    "loaded s0 (root_ppn pt) 0 (blank_pages stack_flags (insert (0x3ffffff - i) V)) w"
    "first' = (if i = 0 then push_bit 12 g else first)"
proof -
  have tinv: "pt_inv t (root_ppn pt)" using l by (simp add: loaded_def)
  have z: "(of_nat i :: usize) = 0 \<longleftrightarrow> i = 0"
    using i by (auto simp: word_of_nat_eq_0_iff dest: nat_dvd_not_less)
  obtain page u where al: "alloc_page t = (Some page, u)"
      and m: "pt_map u pt (page_at (0x3ffffff - i)) page stack_flags = Inr w"
      and first: "first' = (if i = 0 then page else first)"
    using run by (auto simp: map_stack_page_def stack_page_at [OF i] z res_bind_def
        split: prod.splits option.splits sum.splits if_splits)
  obtain g where g: "page = push_bit 12 g" "fresh_mapped t (root_ppn pt) (page_at (0x3ffffff - i)) stack_flags g w"
    by (rule fresh_page_mapped [OF tinv al m])
  have v: "0x3ffffff - i < 2 ^ 27" by simp
  have "fresh_mapped t (root_ppn pt) (page_at (0x3ffffff - i)) (phdr_flags (blank_seg stack_flags (0x3ffffff - i))) g w"
    using g(2) user_flags_brk by (simp add: user_flags_def)
  then have "loaded s0 (root_ppn pt) 0 (blank_pages stack_flags (insert (0x3ffffff - i) V)) w"
    using load_blank_step [OF l _ blank_seg_page(3) [OF v]] by (simp add: blank_pages_def)
  then show thesis
    by (rule that [OF g(2)]) (simp add: first g(1))
qed

lemma map_stack_rest:
  assumes "loaded s0 (root_ppn pt) 0 (blank_pages stack_flags V) t" "set is \<subseteq> {0<..<9}"
    and "flow_fold (map_stack_page pt) (first, t) (map of_nat is) = Inr (Next (first', w))"
  shows "loaded s0 (root_ppn pt) 0 (blank_pages stack_flags (V \<union> (\<lambda>i. 0x3ffffff - i) ` set is)) w \<and> first' = first \<and>
    (\<forall>ks. pt_view (root_ppn pt) t ks \<noteq> None \<longrightarrow> pt_view (root_ppn pt) w ks = pt_view (root_ppn pt) t ks)"
  using assms
proof (induction "is" arbitrary: t V)
  case (Cons i "is")
  obtain f1 t1 where one: "map_stack_page pt (first, t) (of_nat i) = Inr (Next (f1, t1))"
      and rest: "flow_fold (map_stack_page pt) (f1, t1) (map of_nat is) = Inr (Next (first', w))"
    using Cons.prems(3) by (auto split: sum.splits flow.splits)
  have i: "i < 9" "i \<noteq> 0" using Cons.prems(2) by auto
  obtain g where g: "fresh_mapped t (root_ppn pt) (page_at (0x3ffffff - i)) stack_flags g t1"
      "loaded s0 (root_ppn pt) 0 (blank_pages stack_flags (insert (0x3ffffff - i) V)) t1" "f1 = first"
    by (rule map_stack_page_step [OF Cons.prems(1) i(1) one]) (use i(2) in auto)
  have kept: "pt_view (root_ppn pt) t1 ks = pt_view (root_ppn pt) t ks" if "pt_view (root_ppn pt) t ks \<noteq> None" for ks
    using g(1) that unfolding fresh_mapped_def by metis
  show ?case
    using Cons.IH [OF g(2)] Cons.prems(2) rest g(3) kept by auto
qed simp

lemma map_stack_loaded:
  assumes inv: "pt_inv s (root_ppn pt)" and run: "map_stack s pt = Inr (Some first, s')"
  obtains f where "first = push_bit 12 f" "frame_ok f" "\<not> allocated s f"
    "pt_view (root_ppn pt) s' (vpn_indices (drop_bit 12 stack_top)) = Some (pte_new f (stack_flags OR PTE_V OR PTE_A OR PTE_D))"
    "loaded s (root_ppn pt) 0 (blank_pages stack_flags {0x3fffff7..0x3ffffff}) s'"
proof -
  have idx: "map of_nat [0..<9] = (of_nat 0 # map of_nat [1..<9] :: usize list)" by (simp add: upt_conv_Cons)
  obtain f1 t1 where one: "map_stack_page pt (0, s) (of_nat 0) = Inr (Next (f1, t1))"
      and rest: "flow_fold (map_stack_page pt) (f1, t1) (map of_nat [1..<9]) = Inr (Next (first, s'))"
    using run unfolding map_stack_def idx
    by (auto simp: res_bind_def simp del: of_nat_0 split: sum.splits flow.splits prod.splits)
  have start: "loaded s (root_ppn pt) 0 (blank_pages stack_flags {}) s"
    using loaded_start [OF inv] by (simp add: blank_pages_def)
  obtain g where g: "fresh_mapped s (root_ppn pt) (page_at 0x3ffffff) stack_flags g t1"
      "loaded s (root_ppn pt) 0 (blank_pages stack_flags {0x3ffffff}) t1" "f1 = push_bit 12 g"
    by (rule map_stack_page_step [OF start _ one]) auto
  have top: "page_at 0x3ffffff = stack_top" using stack_page_at [of 0] by simp
  have "x \<in> (\<lambda>i. 0x3ffffff - i) ` set [1..<9]" if "x \<in> {0x3fffff7..<0x3ffffff}" for x :: nat
    using that by (intro image_eqI [of _ _ "0x3ffffff - x"]) auto
  then have "{0x3ffffff} \<union> (\<lambda>i. 0x3ffffff - i) ` set [1..<9] = {0x3fffff7..0x3ffffff :: nat}"
    by (fastforce simp: le_less)
  moreover have "set [1..<9] \<subseteq> {0<..<9 :: nat}" by auto
  ultimately have rest': "loaded s (root_ppn pt) 0 (blank_pages stack_flags {0x3fffff7..0x3ffffff}) s'" "first = f1"
    "\<And>ks. pt_view (root_ppn pt) t1 ks \<noteq> None \<Longrightarrow> pt_view (root_ppn pt) s' ks = pt_view (root_ppn pt) t1 ks"
    using map_stack_rest [OF g(2) _ rest] by metis+
  have key: "pt_view (root_ppn pt) t1 (vpn_indices (drop_bit 12 stack_top)) = Some (pte_new g (stack_flags OR PTE_V OR PTE_A OR PTE_D))"
    and f: "frame_ok g" "\<not> allocated s g"
    using g(1) by (simp_all add: fresh_mapped_def top)
  show thesis
    by (rule that [OF _ f]) (use rest' key g(3) in auto)
qed

section \<open>The file on the heap\<close>

text \<open>
  The frames in use lie below the heap; \<^verbatim>\<open>init_heap\<close> puts the heap at \<^verbatim>\<open>0x86000000\<close>, and it is only behind
  that address that the two allocators overlap.
\<close>

definition below_heap :: "mm_state \<Rightarrow> mm_state \<Rightarrow> bool" where
  "below_heap s t \<longleftrightarrow> frames_used t \<le> 0x86000 \<and> 0x86000000 \<le> unat (hp_current (heap_alloc s)) \<and> heap_ok (heap_alloc s)"

lemma below_heap_frame: "frames_used t \<le> 0x86000 \<Longrightarrow> allocated t (drop_bit 12 a) \<Longrightarrow> unat a < 0x86000000"
  by (simp add: allocated_def frames_used_def unat_drop_bit_12)

lemma align_elf_cases:
  assumes ok: "heap_ok (heap_alloc s)" "0x86000000 \<le> unat (hp_current (heap_alloc s))" and run: "align_elf s d = (Some data, s')"
  shows "0x86000000 \<le> unat data" "unat data + length d < 2 ^ 63" "page_alloc s' = page_alloc s"
    "kernel_page_table s' = kernel_page_table s"
    "j < length d \<Longrightarrow> ram s' (data + of_nat j) = d ! j" "unat a < 0x86000000 \<Longrightarrow> ram s' a = ram s a"
proof -
  let ?l = "\<lparr>lay_size = of_nat (length d), lay_align = 16\<rparr> :: layout"
  have len: "length d \<le> 0x7ffffffffffffff0" and "heap_grant (heap_alloc s) ?l \<noteq> (None, h)" for h
    using run by (auto simp: align_elf_def split: if_splits)
  then obtain h where g: "heap_grant (heap_alloc s) ?l = (Some data, h)"
      and s': "s' = s\<lparr>heap_alloc := h, ram := store_bytes (ram s) data d\<rparr>"
    using run by (auto simp: align_elf_def split: if_splits prod.splits option.splits)
  have size: "unat (of_nat (length d) :: usize) = length d"
    using len by (simp add: unat_of_nat)
  have lay: "layout_ok ?l"
    using len size by (auto simp: layout_ok_def intro!: exI [of _ 4])
  obtain p where p: "bump_alloc (heap_alloc s) ?l = (p, h)" "p = data" "data \<noteq> 0"
    using g by (auto simp: heap_grant_def split: prod.splits if_splits)
  have grant: "unat (hp_current (heap_alloc s)) \<le> unat data" "unat data + length d \<le> unat (hp_end (heap_alloc s))"
    by (cases rule: bump_alloc_cases [OF ok(1) lay p(1)]; use p(2,3) size in \<open>simp add: word_le_nat_alt\<close>)+
  then show lo: "0x86000000 \<le> unat data" and hi: "unat data + length d < 2 ^ 63"
    using ok by (simp_all add: heap_ok_def)
  show "page_alloc s' = page_alloc s" "kernel_page_table s' = kernel_page_table s" by (simp_all add: s')
  show "ram s' (data + of_nat j) = d ! j" if "j < length d"
    using that len by (simp add: s' store_bytes_in unat_of_nat)
  show "ram s' a = ram s a" if "unat a < 0x86000000"
  proof -
    have "unat (data - a) = unat data - unat a"
      using that lo by (intro unat_sub) (simp add: word_le_nat_alt)
    moreover have "unat (a - data) + unat (data - a) = 2 ^ 64"
      using that lo by (intro unat_diff_sum) auto
    ultimately have "length d \<le> unat (a - data)" using hi by simp
    then show ?thesis by (simp add: s' store_bytes_out)
  qed
qed

text \<open>The byte of the file a loaded address holds.\<close>

definition image_byte :: "u8 list \<Rightarrow> elf_phdr \<Rightarrow> usize \<Rightarrow> u8" where
  "image_byte d ph va = (if in_file ph va then d ! unat (ph_offset ph + (va - ph_vaddr ph)) else 0)"

definition seg_in_file :: "u8 list \<Rightarrow> elf_phdr \<Rightarrow> bool" where
  "seg_in_file d ph \<longleftrightarrow> unat (ph_offset ph) + unat (ph_filesz ph) \<le> length d"

lemma seg_byte_image:
  assumes ok: "heap_ok (heap_alloc s)" "0x86000000 \<le> unat (hp_current (heap_alloc s))" and run: "align_elf s d = (Some data, s')"
    and seg: "seg_in_file d ph"
  shows "seg_byte (ram s') data ph va = image_byte d ph va"
    "in_file ph va \<Longrightarrow> 0x86000000 \<le> unat (file_byte data ph va)"
proof -
  note al = align_elf_cases [OF ok run]
  have in_f: "ram s' (file_byte data ph va) = d ! unat (ph_offset ph + (va - ph_vaddr ph)) \<and>
      0x86000000 \<le> unat (file_byte data ph va)" if f: "in_file ph va"
  proof -
    let ?o = "ph_offset ph + (va - ph_vaddr ph)"
    have "unat (va - ph_vaddr ph) < unat (ph_filesz ph)"
      using f unfolding in_file_def word_le_nat_alt by (subst unat_sub) (auto simp: word_le_nat_alt)
    then have o: "unat ?o < length d"
      using seg al(2) unat_add_noov [of "ph_offset ph" "va - ph_vaddr ph"] by (simp add: seg_in_file_def)
    moreover have "unat (data + ?o) = unat data + unat ?o"
      using o al(2) by (intro unat_add_noov) simp
    ultimately show ?thesis
      using al(1) al(5) [OF o] by (simp add: file_byte_def)
  qed
  then show "seg_byte (ram s') data ph va = image_byte d ph va"
    by (simp add: seg_byte_def image_byte_def)
  show "0x86000000 \<le> unat (file_byte data ph va)" if "in_file ph va"
    using in_f [OF that] by blast
qed

section \<open>The whole image\<close>

lemma load_image_steps:
  assumes "load_image E s pt d argv envp = Inr (Some im, s')" "elf_parse E d = Some elf"
  obtains first s2 data s3 e s4 m where "map_stack s pt = Inr (Some first, s2)" "align_elf s2 d = (Some data, s3)"
    "load_elf_into s3 pt data elf = Inr (Some e, s4)"
    "build_stack (ram s4) first stack_top argv envp (base_vaddr elf + elf_ph_offset elf) (elf_ph_entry_size elf)
       (elf_ph_count elf) (elf_entry elf) = (im_sp im, m)"
    "im_entry im = elf_entry elf" "s' = s4\<lparr>ram := m\<rparr>"
  using assms by (auto simp: load_image_def res_bind_def Let_def split: sum.splits prod.splits option.splits)

lemma loaded_keeps:
  "loaded s0 r data D t \<Longrightarrow> pt_view r s0 ks \<noteq> None \<Longrightarrow> pt_view r t ks = pt_view r s0 ks"
  unfolding loaded_def by (metis (no_types, lifting) imageE)

text \<open>After the stack pages and the copy of the file: \<open>f\<close> is the frame of the top stack page.\<close>

definition staged :: "mm_state \<Rightarrow> usize \<Rightarrow> usize \<Rightarrow> mm_state \<Rightarrow> bool" where
  "staged s r f t \<longleftrightarrow> pt_inv t r \<and> frame_ok f \<and> \<not> allocated s f \<and> allocated t f \<and> f \<notin> pt_tables (ram t) r \<and>
     pg_current (page_alloc s) \<le> pg_current (page_alloc t) \<and>
     pt_view r t (vpn_indices (drop_bit 12 stack_top)) = Some (pte_new f (stack_flags OR PTE_V OR PTE_A OR PTE_D)) \<and>
     (\<forall>ks. pt_view r s ks \<noteq> None \<longrightarrow> pt_view r t ks = pt_view r s ks) \<and>
     (\<forall>ks. ks \<notin> (\<lambda>v. vpn_indices (of_nat v)) ` {0x3fffff7..0x3ffffff} \<longrightarrow> pt_view r t ks = pt_view r s ks) \<and>
     (\<forall>p \<in> pt_tables (ram t) r. p \<in> pt_tables (ram s) r \<or> \<not> allocated s p) \<and>
     (\<forall>a. allocated s (drop_bit 12 a) \<longrightarrow> drop_bit 12 a \<notin> pt_tables (ram s) r \<longrightarrow> ram t a = ram s a)"

lemma stack_page_frame:
  assumes l: "loaded s r 0 (blank_pages stack_flags {0x3fffff7..0x3ffffff}) t"
    and v: "pt_view r t (vpn_indices (drop_bit 12 stack_top)) = Some (pte_new f (stack_flags OR PTE_V OR PTE_A OR PTE_D))"
    and f: "frame_ok f"
  shows "allocated t f" "f \<notin> pt_tables (ram t) r"
proof -
  have top: "page_at 0x3ffffff = stack_top" using stack_page_at [of 0] by simp
  have "(stack_top, blank_seg stack_flags 0x3ffffff) \<in> blank_pages stack_flags {0x3fffff7..0x3ffffff}"
    unfolding blank_pages_def top [symmetric] by (rule imageI) simp
  note p = loaded_page [OF l this]
  have fl: "phdr_flags (blank_seg stack_flags 0x3ffffff) = stack_flags"
    using user_flags_brk by (simp add: user_flags_def)
  obtain g where g: "pte_new f (stack_flags OR PTE_V OR PTE_A OR PTE_D) = pte_new g (stack_flags OR PTE_V OR PTE_A OR PTE_D)"
      "frame_ok g" "allocated t g" "g \<notin> pt_tables (ram t) r"
    using p v by (auto simp: page_loaded_def fl)
  have "f = g"
    using phdr_entry(1) [OF f, of "blank_seg stack_flags 0x3ffffff"] phdr_entry(1) [OF g(2), of "blank_seg stack_flags 0x3ffffff"] g(1)
    by (simp add: fl)
  then show "allocated t f" "f \<notin> pt_tables (ram t) r" using g by simp_all
qed

lemma staging:
  assumes inv: "pt_inv s (root_ppn pt)" and st: "map_stack s pt = Inr (Some first, s2)" and al: "align_elf s2 d = (Some data, s3)"
    and heap: "heap_ok (heap_alloc s)" "0x86000000 \<le> unat (hp_current (heap_alloc s))" "frames_used s3 \<le> 0x86000"
  obtains f where "first = push_bit 12 f" "staged s (root_ppn pt) f s3" "heap_alloc s2 = heap_alloc s"
proof -
  let ?r = "root_ppn pt"
  obtain f where f: "first = push_bit 12 f" "frame_ok f" "\<not> allocated s f"
      and v: "pt_view ?r s2 (vpn_indices (drop_bit 12 stack_top)) = Some (pte_new f (stack_flags OR PTE_V OR PTE_A OR PTE_D))"
      and l: "loaded s ?r 0 (blank_pages stack_flags {0x3fffff7..0x3ffffff}) s2"
    by (rule map_stack_loaded [OF inv st])
  note i = l [unfolded loaded_def]
  have inv2: "pt_inv s2 ?r" and hp: "heap_alloc s2 = heap_alloc s" using i by simp_all
  note c = align_elf_cases [OF heap(1,2) [folded hp] al]
  have used: "frames_used s2 \<le> 0x86000" using heap(3) c(3) by (simp add: frames_used_def)
  have "drop_bit 12 a \<in> pt_tables (ram s2) ?r \<Longrightarrow> ram s3 a = ram s2 a" for a
    using inv2 below_heap_frame [OF used] c(6) by (auto simp: pt_inv_def)
  note st3 = pt_stable_tables [OF inv2 c(3) this]
  have al3: "allocated s3 p \<longleftrightarrow> allocated s2 p" for p by (simp add: allocated_def c(3))
  have "ram s3 a = ram s a" if "allocated s (drop_bit 12 a)" "drop_bit 12 a \<notin> pt_tables (ram s) ?r" for a
  proof -
    have "ram s2 a = ram s a" using i that by blast
    moreover have "allocated s2 (drop_bit 12 a)" using i that(1) allocated_mono by blast
    ultimately show ?thesis using c(6) below_heap_frame [OF used] by metis
  qed
  moreover have "pt_view ?r s2 ks = pt_view ?r s ks" if "ks \<notin> (\<lambda>v. vpn_indices (of_nat v)) ` {0x3fffff7..0x3ffffff}" for ks
  proof -
    have "ks \<notin> (\<lambda>x. vpn_indices (drop_bit 12 (fst x))) ` blank_pages stack_flags {0x3fffff7..0x3ffffff}"
      using that by (auto simp: blank_pages_def page_at_unat)
    then show ?thesis using i by simp
  qed
  ultimately have "staged s ?r f s3"
    using f v stack_page_frame [OF l v f(2)] st3 al3 i loaded_keeps [OF l] c(3) by (simp add: staged_def)
  then show thesis by (rule that [OF f(1) _ hp])
qed

text \<open>
  What a program finds in its new address space: the kernel where it always is; every segment byte
  by byte as the file has it, on fresh frames, with the rights of the segment; and its arguments
  on the stack.  No frame that was in use has changed.
\<close>

definition program_image ::
  "mm_state \<Rightarrow> page_table \<Rightarrow> u8 list \<Rightarrow> elf_file \<Rightarrow> u8 list list \<Rightarrow> u8 list list \<Rightarrow> mm_state \<Rightarrow> bool"
where
  "program_image s pt d elf argv envp s' \<longleftrightarrow>
     (\<forall>va. va < 2 ^ 39 \<longrightarrow> identity_mapped va \<longrightarrow> pt_translate (ram s') pt va = Some va) \<and>
     (\<forall>ph \<in> set (elf_phdrs elf). \<forall>va. is_load ph \<longrightarrow> page_in_seg ph (page_align_down va) \<longrightarrow>
        (\<exists>pa. pt_translate (ram s') pt va = Some pa \<and> \<not> allocated s (drop_bit 12 pa) \<and>
           ram s' pa = image_byte d ph va \<and> va_flags s' pt va = phdr_flags ph OR PTE_V OR PTE_A OR PTE_D)) \<and>
     (\<exists>base. pt_translate (ram s') pt stack_top = Some base \<and> \<not> allocated s (drop_bit 12 base) \<and>
        va_flags s' pt stack_top = stack_flags OR PTE_V OR PTE_A OR PTE_D \<and>
        stack_image (ram s') base stack_top argv envp
          (aux_vector stack_top (base_vaddr elf + elf_ph_offset elf) (elf_ph_entry_size elf) (elf_ph_count elf) (elf_entry elf))) \<and>
     (\<forall>a. allocated s (drop_bit 12 a) \<longrightarrow> ram s' a = ram s a)"

lemma segments_loaded:
  assumes st: "staged s (root_ppn pt) f s3" and al: "align_elf s2 d = (Some data, s3)"
    and heap: "heap_ok (heap_alloc s2)" "0x86000000 \<le> unat (hp_current (heap_alloc s2))" "frames_used s4 \<le> 0x86000"
    and run: "load_elf_into s3 pt data elf = Inr (Some e, s4)"
    and segs: "\<forall>ph \<in> set (elf_phdrs elf). is_load ph \<longrightarrow> seg_ok ph \<and> seg_in_file d ph"
  shows "loaded s3 (root_ppn pt) data (seg_pages (elf_phdrs elf)) s4"
proof (rule load_elf_loaded(1) [OF _ run])
  show "pt_inv s3 (root_ppn pt)" using st by (simp add: staged_def)
  show "\<forall>ph \<in> set (elf_phdrs elf). is_load ph \<longrightarrow> seg_ok ph \<and> source_kept s3 (root_ppn pt) s4 data ph"
    using segs seg_byte_image(2) [OF heap(1,2) al] below_heap_frame [OF heap(3)]
    by (fastforce simp: source_kept_def Let_def)
qed

text \<open>The stack page is written last; it is no page table, and no segment is on it.\<close>

lemma stack_written:
  assumes st: "staged s (root_ppn pt) f s3" and l: "loaded s3 (root_ppn pt) data D s4"
    and m: "\<And>a. 4096 \<le> a - push_bit 12 f \<Longrightarrow> m a = ram s4 a"
  shows "drop_bit 12 a \<noteq> f \<Longrightarrow> m a = ram s4 a"
    "pt_view (root_ppn pt) (s4\<lparr>ram := m\<rparr>) ks = pt_view (root_ppn pt) s4 ks"
    "pt_inv (s4\<lparr>ram := m\<rparr>) (root_ppn pt)"
proof -
  let ?r = "root_ppn pt"
  have f: "frame_ok f" "allocated s3 f" "f \<notin> pt_tables (ram s3) ?r" using st by (simp_all add: staged_def)
  note i = l [unfolded loaded_def]
  show other: "m a = ram s4 a" if "drop_bit 12 a \<noteq> f" for a
    using that in_page_iff [OF f(1), of a] by (intro m) (simp add: not_less)
  have inv: "pt_inv s4 ?r" and "f \<notin> pt_tables (ram s4) ?r" using i f(2,3) by blast+
  then have "ram (s4\<lparr>ram := m\<rparr>) a = ram s4 a" if "drop_bit 12 a \<in> pt_tables (ram s4) ?r" for a
    using that other [of a] by auto
  then show "pt_view ?r (s4\<lparr>ram := m\<rparr>) ks = pt_view ?r s4 ks" "pt_inv (s4\<lparr>ram := m\<rparr>) ?r"
    using pt_stable_tables [OF inv, of "s4\<lparr>ram := m\<rparr>"] by simp_all
qed

lemma segment_in_place:
  assumes st: "staged s (root_ppn pt) f s3" and l: "loaded s3 (root_ppn pt) data (seg_pages phs) s4"
    and m: "\<And>a. 4096 \<le> a - push_bit 12 f \<Longrightarrow> m a = ram s4 a"
    and ph: "ph \<in> set phs" "is_load ph" "page_in_seg ph (page_align_down va)"
  shows "\<exists>pa. pt_translate m pt va = Some pa \<and> \<not> allocated s (drop_bit 12 pa) \<and>
    m pa = seg_byte (ram s3) data ph va \<and> va_flags (s4\<lparr>ram := m\<rparr>) pt va = phdr_flags ph OR PTE_V OR PTE_A OR PTE_D"
proof -
  note w = stack_written [OF st l m]
  have "(page_align_down va, ph) \<in> seg_pages phs" using ph by (simp add: seg_pages_def)
  then obtain pa where pa: "pt_translate (ram s4) pt va = Some pa" "\<not> allocated s3 (drop_bit 12 pa)"
      "ram s4 pa = seg_byte (ram s3) data ph va" "va_flags s4 pt va = phdr_flags ph OR PTE_V OR PTE_A OR PTE_D"
    using page_loaded_byte loaded_page [OF l] by blast
  have "pt_translate m pt va = Some pa"
    using pa(1) pt_translate_view [of "s4\<lparr>ram := m\<rparr>" pt va] pt_translate_view [of s4 pt va] w(2) by simp
  moreover have "\<not> allocated s (drop_bit 12 pa)" "drop_bit 12 pa \<noteq> f"
    using pa(2) st allocated_mono by (auto simp: staged_def)
  ultimately show ?thesis
    using pa(3,4) w(1,2) by (auto simp: va_flags_def)
qed

lemma view_in_place:
  assumes st: "staged s (root_ppn pt) f s3" and l: "loaded s3 (root_ppn pt) data D s4"
    and m: "\<And>a. 4096 \<le> a - push_bit 12 f \<Longrightarrow> m a = ram s4 a" and v: "pt_view (root_ppn pt) s3 ks \<noteq> None"
  shows "pt_view (root_ppn pt) (s4\<lparr>ram := m\<rparr>) ks = pt_view (root_ppn pt) s3 ks"
  using stack_written(2) [OF st l m] loaded_keeps [OF l v] by simp

lemma kernel_in_place:
  assumes st: "staged s (root_ppn pt) f s3" and l: "loaded s3 (root_ppn pt) data D s4"
    and m: "\<And>a. 4096 \<le> a - push_bit 12 f \<Longrightarrow> m a = ram s4 a" and view: "\<And>ks. pt_view (root_ppn pt) s ks = kernel_view ks"
    and va: "va < 2 ^ 39" "identity_mapped va"
  shows "pt_translate m pt va = Some va"
proof -
  let ?k = "vpn_indices (drop_bit 12 va)"
  have t: "map_option (\<lambda>e. push_bit 12 (pte_ppn e) OR (va AND 4095)) (kernel_view ?k) = Some va"
    using kernel_view_translate [OF va(1)] va(2) by (simp add: identity_mapped_vpns)
  then have "pt_view (root_ppn pt) s ?k \<noteq> None" by (auto simp: view)
  then have "pt_view (root_ppn pt) s3 ?k = kernel_view ?k"
    using st by (simp add: staged_def view)
  moreover from this have "pt_view (root_ppn pt) (s4\<lparr>ram := m\<rparr>) ?k = kernel_view ?k"
    using t by (subst view_in_place [OF st l m]) auto
  ultimately show ?thesis
    using t pt_translate_view [of "s4\<lparr>ram := m\<rparr>" pt va] by simp
qed

lemma stack_in_place:
  assumes st: "staged s (root_ppn pt) f s3" and l: "loaded s3 (root_ppn pt) data D s4"
    and m: "\<And>a. 4096 \<le> a - push_bit 12 f \<Longrightarrow> m a = ram s4 a"
  shows "pt_translate m pt stack_top = Some (push_bit 12 f)"
    "va_flags (s4\<lparr>ram := m\<rparr>) pt stack_top = stack_flags OR PTE_V OR PTE_A OR PTE_D" "drop_bit 12 (push_bit 12 f) = f"
proof -
  have f: "frame_ok f" and v: "pt_view (root_ppn pt) s3 (vpn_indices (drop_bit 12 stack_top)) =
      Some (pte_new f (stack_flags OR PTE_V OR PTE_A OR PTE_D))"
    using st by (simp_all add: staged_def)
  have "phdr_flags (blank_seg stack_flags 0) = stack_flags"
    using user_flags_brk by (simp add: user_flags_def)
  note e = phdr_entry [OF f, of "blank_seg stack_flags 0", unfolded this]
  have "pt_view (root_ppn pt) (s4\<lparr>ram := m\<rparr>) (vpn_indices (drop_bit 12 stack_top)) =
      Some (pte_new f (stack_flags OR PTE_V OR PTE_A OR PTE_D))"
    using view_in_place [OF st l m] v by simp
  moreover have "stack_top AND 4095 = 0" by (simp add: stack_top_def)
  ultimately show "pt_translate m pt stack_top = Some (push_bit 12 f)"
    "va_flags (s4\<lparr>ram := m\<rparr>) pt stack_top = stack_flags OR PTE_V OR PTE_A OR PTE_D"
    using pt_translate_view [of "s4\<lparr>ram := m\<rparr>" pt stack_top] e by (simp_all add: va_flags_def)
  show "drop_bit 12 (push_bit 12 f) = f" by (rule drop_push_frame [OF f])
qed

lemma memory_in_place:
  assumes st: "staged s (root_ppn pt) f s3" and l: "loaded s3 (root_ppn pt) data D s4"
    and m: "\<And>a. 4096 \<le> a - push_bit 12 f \<Longrightarrow> m a = ram s4 a"
    and a: "allocated s (drop_bit 12 a)" "drop_bit 12 a \<notin> pt_tables (ram s) (root_ppn pt)"
  shows "m a = ram s a"
proof -
  note t = st [unfolded staged_def]
  have "allocated s3 (drop_bit 12 a)" "drop_bit 12 a \<notin> pt_tables (ram s3) (root_ppn pt)" "drop_bit 12 a \<noteq> f" "ram s3 a = ram s a"
    using t a allocated_mono by blast+
  moreover from this have "ram s4 a = ram s3 a" using l unfolding loaded_def by blast
  ultimately show ?thesis using stack_written(1) [OF st l m] by simp
qed

lemma load_elf_used:
  assumes "frames_ok s" "load_elf_into s pt data elf = Inr (x, s')"
  shows "frames_used s \<le> frames_used s'"
proof -
  obtain fuel r where "flow_fold (load_segment fuel pt data) (0, s) (elf_phdrs elf) = Inr r" "s' = snd (flow_state r)"
    using assms(2) by (auto simp: load_elf_into_def res_bind_def split: sum.splits flow.splits prod.splits)
  then show ?thesis using load_segments_grow [OF assms(1)] by (simp add: frames_grow_def)
qed

definition args_fit :: "u8 list list \<Rightarrow> u8 list list \<Rightarrow> bool" where
  "args_fit argv envp \<longleftrightarrow> length argv + length envp \<le> 12 \<and> (\<forall>s \<in> set (argv @ envp). length s < 256 \<and> 0 \<notin> set s)"

definition segments_fit :: "u8 list \<Rightarrow> elf_file \<Rightarrow> bool" where
  "segments_fit d elf \<longleftrightarrow> (\<forall>ph \<in> set (elf_phdrs elf). is_load ph \<longrightarrow> seg_ok ph \<and> seg_in_file d ph)"

lemma load_image_program:
  assumes inv: "pt_inv s (root_ppn pt)" and view: "\<And>ks. pt_view (root_ppn pt) s ks = kernel_view ks"
    and run: "load_image E s pt d argv envp = Inr (Some im, s')" and parse: "elf_parse E d = Some elf"
    and fit: "segments_fit d elf" "args_fit argv envp" and heap: "below_heap s s'"
    and keep: "\<And>a. allocated s0 (drop_bit 12 a) \<Longrightarrow> drop_bit 12 a \<notin> pt_tables (ram s) (root_ppn pt) \<and> ram s a = ram s0 a"
    and grow: "\<And>p. allocated s0 p \<Longrightarrow> allocated s p"
  shows "program_image s0 pt d elf argv envp s' \<and> im_sp im = stack_top \<and> im_entry im = elf_entry elf \<and> pt_inv s' (root_ppn pt)"
proof -
  let ?r = "root_ppn pt"
  obtain first s2 data s3 e s4 m where steps: "map_stack s pt = Inr (Some first, s2)" "align_elf s2 d = (Some data, s3)"
      "load_elf_into s3 pt data elf = Inr (Some e, s4)" "im_entry im = elf_entry elf" "s' = s4\<lparr>ram := m\<rparr>"
    and bs: "build_stack (ram s4) first stack_top argv envp (base_vaddr elf + elf_ph_offset elf) (elf_ph_entry_size elf)
       (elf_ph_count elf) (elf_entry elf) = (im_sp im, m)"
    by (rule load_image_steps [OF run parse])
  have hs: "heap_ok (heap_alloc s)" "0x86000000 \<le> unat (hp_current (heap_alloc s))" "frames_used s4 \<le> 0x86000"
    using heap by (simp_all add: below_heap_def steps(5) frames_used_def)
  have fits: "length argv + length envp \<le> 12" "\<forall>s \<in> set (argv @ envp). length s < 256 \<and> 0 \<notin> set s"
    using fit(2) by (simp_all add: args_fit_def)
  note img = build_stack_image [OF fits bs]
  have "pt_inv s2 ?r" by (rule map_stack_loaded [OF inv steps(1)]) (simp add: loaded_def)
  then have "frames_ok s3" using align_elf_ok [OF _ steps(2)] by (simp add: pt_inv_def)
  then have "frames_used s3 \<le> frames_used s4" by (rule load_elf_used [OF _ steps(3)])
  then obtain f where f: "first = push_bit 12 f" "staged s ?r f s3" "heap_alloc s2 = heap_alloc s"
    using staging [OF inv steps(1,2) hs(1,2)] hs(3) le_trans by blast
  note l = segments_loaded [OF f(2) steps(2) hs(1,2) [folded f(3)] hs(3) steps(3) fit(1) [unfolded segments_fit_def]]
  note l' = f(2) l img(3) [unfolded f(1)]
  have seg: "seg_byte (ram s3) data ph va = image_byte d ph va" if "ph \<in> set (elf_phdrs elf)" "is_load ph" for ph va
    using fit(1) that seg_byte_image(1) [OF hs(1,2) [folded f(3)] steps(2)] by (simp add: segments_fit_def)
  have fresh: "\<not> allocated s0 p" if "\<not> allocated s p" for p using that grow by blast
  have "\<not> allocated s f" using f(2) by (simp add: staged_def)
  then have "\<exists>base. pt_translate (ram s') pt stack_top = Some base \<and> \<not> allocated s0 (drop_bit 12 base) \<and>
      va_flags s' pt stack_top = stack_flags OR PTE_V OR PTE_A OR PTE_D \<and> stack_image (ram s') base stack_top argv envp
        (aux_vector stack_top (base_vaddr elf + elf_ph_offset elf) (elf_ph_entry_size elf) (elf_ph_count elf) (elf_entry elf))"
    using stack_in_place [OF l'] img(2) fresh by (simp add: steps(5) f(1))
  moreover have "ram s' a = ram s0 a" if "allocated s0 (drop_bit 12 a)" for a
    using memory_in_place [OF l', of a] keep [OF that] grow [OF that] by (simp add: steps(5))
  moreover have "\<exists>pa. pt_translate (ram s') pt va = Some pa \<and> \<not> allocated s0 (drop_bit 12 pa) \<and>
      ram s' pa = image_byte d ph va \<and> va_flags s' pt va = phdr_flags ph OR PTE_V OR PTE_A OR PTE_D"
    if "ph \<in> set (elf_phdrs elf)" "is_load ph" "page_in_seg ph (page_align_down va)" for ph va
    using segment_in_place [OF l' that] seg [OF that(1,2)] fresh by (auto simp: steps(5))
  ultimately show ?thesis
    using kernel_in_place [OF l' view] img(1) steps(4,5) stack_written(3) [OF l'] by (simp add: program_image_def)
qed

section \<open>Exec\<close>

lemma new_table_allocated:
  assumes "frames_ok s" "page_table_new s = (Some pt, s0)"
  shows "pt_inv s0 (root_ppn pt)" "\<not> allocated s (root_ppn pt)" "pt_tables (ram s0) (root_ppn pt) = {root_ppn pt}"
    "\<And>k. pt_view (root_ppn pt) s0 k = None" "heap_alloc s0 = heap_alloc s"
    "\<And>a. allocated s (drop_bit 12 a) \<Longrightarrow> ram s0 a = ram s a" "pg_current (page_alloc s) \<le> pg_current (page_alloc s0)"
    "table_paths (root_ppn pt) s0 = {[]}" "frames_used s0 = frames_used s + 1" "frames_limit s0 = frames_limit s"
  by (cases rule: page_table_new_cases [OF assms(1)]; use assms(2) in simp)+

lemma exec_process_program:
  assumes fok: "frames_ok s" and run: "exec_process E s p d argv envp = Inr (Some sp, p', s')"
    and parse: "elf_parse E d = Some elf" and fit: "segments_fit d elf" "args_fit argv envp" and heap: "below_heap s s'"
  shows "program_image s (p_page_table p') d elf argv envp s' \<and> sp = stack_top \<and>
    (\<exists>b. p' = p\<lparr>p_page_table := p_page_table p', p_brk := b,
       p_trap_frame := (p_trap_frame p)\<lparr>tf_sepc := elf_entry elf, tf_sstatus := user_sstatus,
         tf_regs := (tf_regs (p_trap_frame p))[2 := stack_top]\<rparr>\<rparr>)"
proof -
  obtain pt s0 s1 im where steps: "page_table_new s = (Some pt, s0)" "map_kernel_regions s0 pt = Inr s1"
      "load_image E s1 pt d argv envp = Inr (Some im, s')" "sp = im_sp im"
      "p' = p\<lparr>p_page_table := pt, p_brk := im_brk im, p_trap_frame := (p_trap_frame p)\<lparr>tf_sepc := im_entry im,
         tf_sstatus := user_sstatus, tf_regs := (tf_regs (p_trap_frame p))[2 := im_sp im]\<rparr>\<rparr>"
    using run by (auto simp: exec_process_def res_bind_def Let_def split: prod.splits option.splits sum.splits)
  note new = new_table_allocated [OF fok steps(1)]
  have all: "res_fold (pt_map_entry pt) s0 kernel_regions = Inr s1" and ev: "pt_evolves (root_ppn pt) s0 s1"
    using steps(2) pt_map_all_evolves [OF new(1)] by (simp_all add: map_kernel_regions_def pt_map_all_def)
  have view: "pt_view (root_ppn pt) s1 k = kernel_view k" for k
    using ptm.map_all_view(1) [OF new(1) all, of k] by (simp add: kernel_view_def new(4) split: option.splits)
  have grow: "allocated s0 q" if "allocated s q" for q using that new(7) allocated_mono by blast
  have keep: "drop_bit 12 a \<notin> pt_tables (ram s1) (root_ppn pt) \<and> ram s1 a = ram s a" if "allocated s (drop_bit 12 a)" for a
  proof -
    have "drop_bit 12 a \<notin> pt_tables (ram s0) (root_ppn pt)" using that new(2,3) by auto
    then show ?thesis
      using grow [OF that] pt_evolves_frame [OF ev, of a] pt_evolves_tables [OF ev, of "drop_bit 12 a"] new(6) [OF that] by auto
  qed
  have heap': "below_heap s1 s'" using heap ev new(5) by (simp add: below_heap_def pt_evolves_def)
  note img = load_image_program [OF pt_evolves_inv [OF ev] view steps(3) parse fit heap' keep
      pt_evolves_allocated [OF ev grow]]
  show ?thesis
    using img steps(4,5) by auto
qed

text \<open>
  C4. A program is started as its file says.  If \<^verbatim>\<open>execve\<close> answers zero, for a file whose segments do not wrap
  around and lie within it, at most twelve short strings, and while the frames in use end
  below the heap, then the caller keeps its process id, parent and descriptors, and resumes at the
  entry point of the file with its stack pointer at the top of the stack, in a new address space:
  every page of every segment holds the bytes of the file, or zero behind them, on frames nobody
  used, with the rights of the segment; the arguments and the environment are on the stack; the
  kernel is where it was; and no frame that was in use and no other process has changed.
\<close>

theorem sys_execve_correct:
  assumes inv: "kernel_inv k" and cur: "proc_of k (k_current k) = Some p"
    and img_file: "read_user_str k path = Some name" "get_file_data (k_fs k) (bytes_string name) = Some d" "elf_parse E d = Some elf"
    and args: "av = read_str_array k argv 0 []" "ev = exec_env (read_str_array k envp 0 [])"
    and fit: "segments_fit d elf" "args_fit av ev" and heap: "below_heap (k_mm k) (k_mm k')"
    and run: "sys_execve E k path argv envp = Inr (0, k')"
  shows "\<exists>p'. proc_of k' = (proc_of k)(k_current k \<mapsto> p') \<and> p_pid p' = p_pid p \<and> p_ppid p' = p_ppid p \<and>
    k_current k' = k_current k \<and> k_fds k' = k_fds k \<and> k_satp k' = satp_of (p_page_table p') \<and>
    tf_sepc (k_ctf k') = elf_entry elf \<and> tf_regs (k_ctf k') ! 2 = stack_top \<and> tf_regs (k_ctf k') ! 10 = of_nat (length av) \<and>
    program_image (k_mm k) (p_page_table p') d elf av ev (k_mm k')"
proof -
  have wf: "bt_wf (k_procs k)" and fok: "frames_ok (k_mm k)" and len: "length (tf_regs (k_ctf k)) = 32"
    using inv by (simp_all add: kernel_inv_defs)
  obtain sp p' s' where ex: "exec_process E (k_mm k) p d av ev = Inr (Some sp, p', s')"
      and k': "k' = exec_switch (k\<lparr>k_mm := s', k_procs := bt_modify (k_procs k) (k_current k) (\<lambda>_. p')\<rparr>) sp (length av)"
    using run cur img_file(1,2) args
    by (auto simp: sys_execve_def with_current_proc_def proc_of_def res_bind_def Let_def
        split: sum.splits prod.splits option.splits)
  have "k_mm k' = s'" by (simp add: k' exec_switch_def Let_def)
  note img = exec_process_program [OF fok ex img_file(3) fit heap [unfolded this]]
  have get: "bt_get (bt_modify (k_procs k) (k_current k) (\<lambda>_. p')) u = ((proc_of k)(k_current k \<mapsto> p')) u" for u
    using cur by (simp add: bt.get_upd [OF wf] proc_of_def)
  have p': "p_pid p' = p_pid p" "p_ppid p' = p_ppid p" "tf_sepc (p_trap_frame p') = elf_entry elf"
    using img by (auto dest: arg_cong [where f = p_pid] arg_cong [where f = p_ppid] arg_cong [where f = "\<lambda>p. tf_sepc (p_trap_frame p)"])
  show ?thesis
    using img p' len by (intro exI [of _ p'])
      (simp add: k' exec_switch_def with_current_proc_ref_def Let_def get proc_of_def fun_eq_iff)
qed

text \<open>An example: the file \<^verbatim>\<open>/log\<close> holds a program of one segment, and its name is in the memory of the kernel.\<close>

definition exec_mm :: mm_state where
  "exec_mm = init_heap (demo_mm\<lparr>ram := (\<lambda>a. if a = 0x80300000 then 47 else if a = 0x80300001 then 108 else
     if a = 0x80300002 then 111 else if a = 0x80300003 then 103 else 0)\<rparr>)"

definition exec_file :: "u8 list" where
  "exec_file = [1, 2, 3, 4, 5, 6, 7, 8, 9, 10, 11, 12, 13, 14, 15, 16]"

definition exec_fs :: fs_state where
  "exec_fs = create_file_static (fs_mkdir fs_empty ''/'') ''/log'' exec_file"

definition parsing_env :: "(unit, unit) env" where
  "parsing_env = demo_env\<lparr>elf_parse := (\<lambda>d. Some demo_elf)\<rparr>"

definition exec_kernel :: "mm_state \<Rightarrow> page_table \<Rightarrow> (unit, unit) kernel" where
  "exec_kernel t pt = demo_live\<lparr>k_mm := t, k_fs := exec_fs,
     k_procs := [(1, (demo_proc 1 Running)\<lparr>p_ppid := 0, p_page_table := pt\<rparr>)]\<rparr>"

lemma exec_start:
  obtains pt :: page_table and t where "pt_inv t (root_ppn pt)" "\<And>k. pt_view (root_ppn pt) t k = kernel_view k" "frames_used t = 0x80445"
    "frames_limit t = 0x88000" "heap_alloc t = \<lparr>hp_current = 0x86000000, hp_end = 0x87000000\<rparr>"
    "\<And>a. drop_bit 12 a = 0x80300 \<Longrightarrow> ram t a = ram exec_mm a"
proof -
  have fr: "frames_ok exec_mm" "frames_used exec_mm = 0x80400" "frames_limit exec_mm = 0x88000" "allocated exec_mm 0x80300"
    by (simp_all add: frames_ok_def frames_used_def frames_limit_def exec_mm_def init_heap_def demo_mm_def allocated_def)
  obtain pt s where "page_table_new exec_mm = (Some pt, s)"
    by (rule page_table_new_cases [OF fr(1)]) (use fr in auto)
  note new = new_table_allocated [OF fr(1) this]
  obtain t where t: "pt_evolves (root_ppn pt) s t" "\<And>k. pt_view (root_ppn pt) t k = kernel_view k"
      "frames_used t = frames_used s + 68" "frames_limit t = frames_limit s"
    by (rule map_kernel_regions_ok [OF new(1,8,4)]) (use new(9,10) fr in auto)
  have "ram t a = ram exec_mm a" if "drop_bit 12 a = 0x80300" for a
  proof -
    have "allocated s (drop_bit 12 a)" "drop_bit 12 a \<notin> pt_tables (ram s) (root_ppn pt)"
      using that fr(4) new(2,3,7) allocated_mono by auto
    then show ?thesis using pt_evolves_frame [OF t(1)] new(6) that fr(4) by simp
  qed
  moreover have "heap_alloc t = \<lparr>hp_current = 0x86000000, hp_end = 0x87000000\<rparr>"
    using t(1) new(5) by (simp add: pt_evolves_def exec_mm_def init_heap_def)
  ultimately show thesis
    using t(2-4) pt_evolves_inv [OF t(1)] new(9,10) fr(2,3) by (intro that [of t pt]) auto
qed

lemma exec_page_free:
  assumes "staged s r f t" "\<And>k. pt_view r s k = kernel_view k"
  shows "pt_view r t (vpn_indices 0x400) = None"
proof -
  have "vpn_indices 0x400 \<noteq> vpn_indices (of_nat v)" if "v \<in> {0x3fffff7..0x3ffffff}" for v
  proof
    assume "vpn_indices 0x400 = vpn_indices (of_nat v)"
    then have "digits 0x400 = digits v" using that by (simp add: vpn_indices_digits unat_of_nat)
    then have "0x400 = v" using that by (intro inj_onD [OF digits_inj]) auto
    then show False using that by simp
  qed
  then have "vpn_indices 0x400 \<notin> (\<lambda>v. vpn_indices (of_nat v)) ` {0x3fffff7..0x3ffffff}" by blast
  then have "pt_view r t (vpn_indices 0x400) = kernel_view (vpn_indices 0x400)"
    using assms by (simp add: staged_def)
  moreover have "kernel_view (vpn_indices 0x400) = None"
    using kernel_view_translate [of "0x400000"] by (simp add: kernel_vpns_set)
  ultimately show ?thesis by simp
qed

lemma exec_runs:
  assumes t: "pt_inv t (root_ppn pt)" "frames_used t = 0x80445" "frames_limit t = 0x88000"
    "heap_alloc t = \<lparr>hp_current = 0x86000000, hp_end = 0x87000000\<rparr>"
  shows "\<exists>sp p' s'. exec_process parsing_env t p exec_file argv envp = Inr (Some sp, p', s') \<and> frames_used s' \<le> 0x86000"
proof -
  have fok: "frames_ok t" using t(1) by (simp add: pt_inv_def)
  obtain q s where pt: "page_table_new t = (Some q, s)"
    by (rule page_table_new_cases [OF fok]) (use t in auto)
  note new = new_table_allocated [OF fok this]
  obtain s1 where s1: "map_kernel_regions s q = Inr s1" "pt_evolves (root_ppn q) s s1"
      "\<And>k. pt_view (root_ppn q) s1 k = kernel_view k" "frames_used s1 = frames_used s + 68" "frames_limit s1 = frames_limit s"
    by (rule map_kernel_regions_ok [OF new(1,8,4)]) (use new(9,10) t in auto)
  have n1: "frames_used s1 = 0x8048a" "frames_limit s1 = 0x88000" using s1(4,5) new(9,10) t by simp_all
  have inv1: "pt_inv s1 (root_ppn q)" and hp1: "heap_alloc s1 = \<lparr>hp_current = 0x86000000, hp_end = 0x87000000\<rparr>"
    using pt_evolves_inv [OF s1(2)] s1(2) new(5) t(4) by (simp_all add: pt_evolves_def)
  obtain first s2 where s2: "map_stack s1 q = Inr (Some first, s2)" "heap_alloc s2 = heap_alloc s1"
      "frames_used s2 \<le> frames_used s1 + 27" "frames_limit s2 = frames_limit s1"
    by (rule map_stack_ok [OF inv1 _ s1(3)]) (use n1 in auto)
  obtain data s3 where s3: "align_elf s2 exec_file = (Some data, s3)"
    by (rule align_elf_room [of s2 exec_file]) (use s2(2) hp1 in \<open>auto simp: exec_file_def\<close>)
  have pa: "page_alloc s3 = page_alloc s2" using s3 by (auto simp: align_elf_def split: if_splits prod.splits option.splits)
  then have used3: "frames_used s3 \<le> 0x804a5" "frames_limit s3 = 0x88000"
    using s2(3,4) n1 by (simp_all add: frames_used_def frames_limit_def)
  have hok: "heap_ok (heap_alloc s1)" "0x86000000 \<le> unat (hp_current (heap_alloc s1))" by (simp_all add: hp1 heap_ok_def)
  obtain f where f: "staged s1 (root_ppn q) f s3"
    using staging [OF inv1 s2(1) s3 hok] used3(1) by force
  have "pt_view (root_ppn q) s3 (vpn_indices 0x400) = None"
    by (rule exec_page_free [OF f s1(3)])
  then obtain s4 where s4: "load_elf_into s3 q data demo_elf = Inr (Some 0x400030, s4)" "frames_used s4 \<le> frames_used s3 + 3"
    using demo_load [of s3 q data] f used3 by (auto simp: staged_def)
  then show ?thesis
    using pt s1(1) s2(1) s3 used3(1)
    by (simp add: exec_process_def load_image_def parsing_env_def Let_def frames_used_def split: prod.split)
qed

lemma exec_kernel_inv: "frames_ok t \<Longrightarrow> kernel_inv (exec_kernel t pt)"
proof -
  assume "frames_ok t"
  moreover have "procs_inv (exec_kernel t pt)"
    by (auto simp: procs_inv_def sched_inv_def exec_kernel_def demo_live_def demo_proc_def proc_of_def bt_get_def bt_wf_def
        trap_frame_new_def split: if_splits)
  moreover have "fs_wf exec_fs"
    unfolding exec_fs_def fs_mkdir_def create_file_static_def
    by (intro fs_wf_create fs_wf_empty) (simp_all add: file_slice_def create_file_def fs_empty_def exec_file_def)
  moreover have "fds_inv (exec_kernel t pt)"
    using demo_live_inv
    by (auto simp: kernel_inv_def fds_inv_def fd_ok_def exec_kernel_def demo_live_def kernel_static_def fs_empty_def inode_file_def)
  ultimately show ?thesis
    using demo_live_inv by (simp add: kernel_inv_def exec_kernel_def pipes_inv_def fake_inv_def)
qed

lemma exec_reads:
  assumes view: "\<And>k. pt_view (root_ppn pt) t k = kernel_view k" and ram: "\<And>a. drop_bit 12 a = 0x80300 \<Longrightarrow> ram t a = ram exec_mm a"
  shows "read_user_str (exec_kernel t pt) 0x80300000 = Some [47, 108, 111, 103]"
    "read_str_array (exec_kernel t pt) 0 0 [] = []"
proof -
  have tr: "pt_translate (ram t) pt va = (if identity_mapped va then Some va else None)" if "va < 2 ^ 39" for va
    using kernel_view_translate [OF that] by (simp add: pt_translate_view view identity_mapped_vpns)
  have byte: "read_user_byte (exec_kernel t pt) va = Some (ram exec_mm va)" if "va \<in> {0x80300000, 0x80300001, 0x80300002, 0x80300003, 0x80300004}" for va
    using that tr [of va] ram [of va]
    by (auto simp: read_user_byte_def with_current_proc_ref_def exec_kernel_def demo_live_def bt_get_def identity_mapped_def)
  show "read_user_str (exec_kernel t pt) 0x80300000 = Some [47, 108, 111, 103]"
    by (simp add: read_user_str_def read_user_str_loop.simps byte exec_mm_def init_heap_def char_utf8_def)
  show "read_str_array (exec_kernel t pt) 0 0 [] = []"
    using tr [of 0] by (subst read_str_array.simps)
      (simp add: read_user_u64_def with_current_proc_ref_def exec_kernel_def demo_live_def bt_get_def identity_mapped_def)
qed

theorem sys_execve_correct_witness:
  "\<exists>(k :: (unit, unit) kernel) k' p' pa. sys_execve parsing_env k 0x80300000 0 0 = Inr (0, k') \<and> proc_of k' 1 = Some p' \<and>
     tf_sepc (k_ctf k') = 0x400010 \<and> pt_translate (kram k') (p_page_table p') 0x400012 = Some pa \<and> kram k' pa = 3"
proof -
  obtain pt :: page_table and t where t: "pt_inv t (root_ppn pt)" "\<And>k. pt_view (root_ppn pt) t k = kernel_view k" "frames_used t = 0x80445"
      "frames_limit t = 0x88000" "heap_alloc t = \<lparr>hp_current = 0x86000000, hp_end = 0x87000000\<rparr>"
      "\<And>a. drop_bit 12 a = 0x80300 \<Longrightarrow> ram t a = ram exec_mm a"
    by (rule exec_start) (rule that)
  let ?k = "exec_kernel t pt" and ?p = "(demo_proc 1 Running)\<lparr>p_ppid := 0, p_page_table := pt\<rparr>"
  have inv: "kernel_inv ?k" using t(1) by (intro exec_kernel_inv) (simp add: pt_inv_def)
  have cur: "proc_of ?k (k_current ?k) = Some ?p" "k_current ?k = 1" "k_mm ?k = t"
    by (simp_all add: exec_kernel_def demo_live_def proc_of_def bt_get_def)
  note reads = exec_reads [OF t(2,6)]
  have d: "get_file_data (k_fs ?k) (bytes_string [47, 108, 111, 103]) = Some exec_file"
  proof -
    have "bytes_string [47, 108, 111, 103] = ''/log''" by code_simp
    moreover have "get_file_data exec_fs ''/log'' = Some exec_file"
      by (simp add: exec_fs_def get_file_data_def fs_mkdir_def create_file_static_def create_file_def
          fs_empty_def bt_get_def file_slice_def)
    ultimately show ?thesis by (simp add: exec_kernel_def)
  qed
  have parse: "elf_parse parsing_env exec_file = Some demo_elf" by (simp add: parsing_env_def)
  have "seg_in_file exec_file demo_phdr" by (simp add: seg_in_file_def demo_phdr_def exec_file_def)
  then have fit: "segments_fit exec_file demo_elf" "args_fit [] (exec_env [])"
    by (simp_all add: segments_fit_def demo_elf_def demo_phdr_pages args_fit_def exec_env_def string_bytes_def)
  obtain sp p' s' where ex: "exec_process parsing_env t ?p exec_file [] (exec_env []) = Inr (Some sp, p', s')" "frames_used s' \<le> 0x86000"
    using exec_runs [OF t(1,3,4,5)] by blast
  obtain k' where run: "sys_execve parsing_env ?k 0x80300000 0 0 = Inr (0, k')" "k_mm k' = s'"
    using cur ex(1) d by (simp add: sys_execve_def reads with_current_proc_def proc_of_def exec_switch_def Let_def)
  have heap: "below_heap (k_mm ?k) (k_mm k')" using ex(2) t(5) by (simp add: below_heap_def cur run(2) heap_ok_def)
  obtain q where q: "proc_of k' = (proc_of ?k)(k_current ?k \<mapsto> q)" "tf_sepc (k_ctf k') = elf_entry demo_elf"
      "program_image (k_mm ?k) (p_page_table q) exec_file demo_elf [] (exec_env []) (k_mm k')"
    using sys_execve_correct [OF inv cur(1) reads(1) d parse reads(2) [symmetric] _ fit heap run(1)] reads(2) by auto
  have "page_in_seg demo_phdr (page_align_down 0x400012)"
    by (simp add: page_in_seg_def demo_phdr_pages page_align_down_def)
  then obtain pa where "pt_translate (kram k') (p_page_table q) 0x400012 = Some pa" "kram k' pa = image_byte exec_file demo_phdr 0x400012"
    using q(3) demo_phdr_pages(4) unfolding program_image_def by (auto simp: demo_elf_def)
  moreover have "image_byte exec_file demo_phdr 0x400012 = 3" "elf_entry demo_elf = 0x400010"
    by (simp_all add: image_byte_def in_file_def demo_phdr_def exec_file_def demo_elf_def)
  ultimately show ?thesis
    using run(1) q(1,2) cur(2) by (intro exI [of _ ?k] exI [of _ k'] exI [of _ q] exI [of _ pa]) simp
qed

text \<open>
  The kernel is mapped in every address space, and the readers of user memory only ask where an
  address leads, not whether the program may use it: a program that passes an address of the kernel
  has the kernel's own memory read for it.
\<close>

theorem user_pointer_reads_kernel:
  assumes "program_image s (p_page_table p) d elf argv envp (k_mm k)" "bt_get (k_procs k) (k_current k) = Some p"
    and "va < 2 ^ 39" "identity_mapped va"
  shows "read_user_byte k va = Some (kram k va)"
  using assms by (simp add: read_user_byte_def with_current_proc_ref_def program_image_def)

end
