(* ===== verification/File_Calls.thy ===== *)
theory File_Calls
  imports Syscall_Props
begin

text \<open>
  Files and pipes through their descriptors: \<^verbatim>\<open>sys_write\<close>, \<^verbatim>\<open>sys_lseek\<close> and \<^verbatim>\<open>sys_read\<close> of
  \<^verbatim>\<open>src/src/syscall.rs\<close> one after the other, from a buffer of the caller to another one, through the
  descriptor table, the kernel heap, and the file system or the pipe.
\<close>

section \<open>Room on the heap\<close>

definition heap_room :: "('s, 'h) kernel \<Rightarrow> nat \<Rightarrow> bool" where
  "heap_room k n \<longleftrightarrow> (let h = heap_alloc (k_mm k) in
     hp_current h \<noteq> 0 \<and> unat (hp_current h) + n \<le> unat (hp_end h))"

text \<open>A buffer is granted while there is room, and nothing but the allocator changes.\<close>

lemma vec_zeroed_room:
  assumes "heap_room k (unat n + m)" "unat n < 2 ^ 63"
  obtains p h where "vec_zeroed k n = Inr (p, k\<lparr>k_mm := (k_mm k)\<lparr>heap_alloc := h\<rparr>\<rparr>)"
    "heap_room (k\<lparr>k_mm := (k_mm k)\<lparr>heap_alloc := h\<rparr>\<rparr>) m"
proof -
  let ?h = "heap_alloc (k_mm k)"
  have room: "hp_current ?h \<noteq> 0" "unat (hp_current ?h) + (unat n + m) \<le> unat (hp_end ?h)"
    using assms(1) by (simp_all add: heap_room_def Let_def)
  have s: "unat (hp_current ?h + n) = unat (hp_current ?h) + unat n"
    using room(2) unat_lt_2_64 [of "hp_end ?h"] by (intro unat_add_noov) simp
  have "0 < unat (hp_current ?h)" using room(1) by (simp add: unat_gt_0)
  then have fits: "hp_current ?h + n \<le> hp_end ?h" "hp_current ?h + n \<noteq> 0"
    using room(2) s by (auto simp: word_le_nat_alt)
  let ?g = "?h\<lparr>hp_current := hp_current ?h + n\<rparr>"
  have grant: "heap_grant ?h \<lparr>lay_size = n, lay_align = 1\<rparr> = (Some (hp_current ?h), ?g)"
    using fits room(1) by (simp add: heap_grant_def bump_alloc_def Let_def)
  show thesis
  proof (cases "n = 0")
    case True
    then show thesis
      using assms(1) by (intro that [of 1 ?h]) (simp_all add: vec_zeroed_def)
  next
    case False
    then show thesis
      using assms(2) grant room fits s
      by (intro that [of "hp_current ?h" ?g]) (simp_all add: vec_zeroed_def heap_room_def word_less_nat_alt Let_def)
  qed
qed

lemma vstore_only_ram: "vstore E k va bs = Inr k' \<Longrightarrow> \<exists>m. k' = k\<lparr>k_mm := (k_mm k)\<lparr>ram := m\<rparr>\<rparr>"
proof (induction bs arbitrary: k va)
  case Nil
  then show ?case by (intro exI [of _ "kram k"]) simp
qed (fastforce split: option.splits)

text \<open>Two bytes at \<^verbatim>\<open>0x6000\<close> and a buffer for two bytes at \<^verbatim>\<open>0x7000\<close>, for the examples.\<close>

lemma demo_source: "vload demo_env k 0x6000 (unat (2 :: usize)) = Inr [kram k 0x6000, kram k 0x6001]"
proof -
  have two: "unat (2 :: usize) = Suc (Suc 0)" by simp
  show ?thesis unfolding two by (simp add: demo_env_def)
qed

lemma demo_target: "buffer_at demo_env satp 0x7000 (unat (2 :: usize)) (\<lambda>j. 0x7000 + of_nat j)"
  by (auto simp: buffer_at_def demo_env_def inj_on_def less_2_cases_iff)

section \<open>Writing and reading a file\<close>

text \<open>An open descriptor on a file that can grow.\<close>

definition file_open :: "('s, 'h) kernel \<Rightarrow> usize \<Rightarrow> open_file \<Rightarrow> string \<Rightarrow> u8 list \<Rightarrow> bool" where
  "file_open k fd f p v \<longleftrightarrow> fd_get (k_fds k) fd = Some f \<and> of_pipe_id f = None \<and> of_inode f \<noteq> 0 \<and>
     fd \<noteq> 1 \<and> fd \<noteq> 2 \<and> bt_get (k_fake k) fd = None \<and> fs_wf (k_fs k) \<and>
     inode_file (k_fs k) (of_inode f) = Some (p, \<lparr>file_data = Dynamic v\<rparr>)"

lemma write_open_file:
  assumes f: "file_open k fd f p v" and room: "heap_room k (unat n + m)" and len: "unat (of_offset f) + unat n < 2 ^ 63"
    and src: "vload E k src (unat n) = Inr data"
  obtains k' where "sys_write E k fd src n = Inr (n, k')" "heap_room k' m" "k_satp k' = k_satp k" "kram k' = kram k"
    "file_open k' fd (f\<lparr>of_offset := of_offset f + n\<rparr>) p (patched v (unat (of_offset f)) data)"
    "k_fs k' = patched_fs (k_fs k) p (patched v (unat (of_offset f)) data)"
    "read_inode (k_fs k') (of_inode f) n (of_offset f) = Inr data"
proof -
  let ?w = "patched v (unat (of_offset f)) data"
  have d: "length data = unat n" by (rule length_vload [OF src])
  then have n: "of_nat (length data) = n" by simp
  have fs: "fs_wf (k_fs k)" "inode_file (k_fs k) (of_inode f) = Some (p, \<lparr>file_data = Dynamic v\<rparr>)"
    using f by (simp_all add: file_open_def)
  have l: "unat (of_offset f) + length data < 2 ^ 63" using len d by simp
  note w = write_inode_eq [OF fs _ l] patched_file [OF fs _ l]
  obtain b h where vec: "vec_zeroed k n = Inr (b, k\<lparr>k_mm := (k_mm k)\<lparr>heap_alloc := h\<rparr>\<rparr>)"
      and more: "heap_room (k\<lparr>k_mm := (k_mm k)\<lparr>heap_alloc := h\<rparr>\<rparr>) m"
    by (rule vec_zeroed_room [OF room]) (use len in simp)
  let ?k = "k\<lparr>k_mm := (k_mm k)\<lparr>heap_alloc := h\<rparr>, k_fs := patched_fs (k_fs k) p ?w,
      k_fds := fd_set (k_fds k) fd (f\<lparr>of_offset := of_offset f + n\<rparr>)\<rparr>"
  have src': "vload E (k\<lparr>k_mm := (k_mm k)\<lparr>heap_alloc := h\<rparr>\<rparr>) src (unat n) = Inr data"
    using src vload_same [of "k\<lparr>k_mm := (k_mm k)\<lparr>heap_alloc := h\<rparr>\<rparr>" k] by simp
  have "sys_write E k fd src n = write_file E k fd f src n"
    using f src by (simp add: sys_write_def file_open_def is_inet_socket_def)
  also have "\<dots> = Inr (n, ?k)"
    using w(1) vec src' n by (simp add: write_file_def)
  finally have "sys_write E k fd src n = Inr (n, ?k)" .
  then show thesis
    using f w(2-4) more n by (intro that [of ?k]) (simp_all add: file_open_def fd_set_view heap_room_def)
qed

lemma seek_open_file:
  assumes "file_open k fd f p v"
  shows "sys_lseek k fd off 0 = Inr (off, k\<lparr>k_fds := fd_set (k_fds k) fd (f\<lparr>of_offset := off\<rparr>)\<rparr>)"
    "file_open (k\<lparr>k_fds := fd_set (k_fds k) fd (f\<lparr>of_offset := off\<rparr>)\<rparr>) fd (f\<lparr>of_offset := off\<rparr>) p v"
  using assms by (simp_all add: sys_lseek_def file_open_def fd_set_view)

lemma read_open_file:
  assumes f: "file_open k fd f p v" and room: "heap_room k (unat n)" "unat n < 2 ^ 63"
    and data: "read_inode (k_fs k) (of_inode f) n (of_offset f) = Inr data" "length data = unat n"
    and dst: "buffer_at E (k_satp k) dst (unat n) g"
  obtains k' where "sys_read E k fd dst n = Inr (n, k')" "map (\<lambda>j. kram k' (g j)) [0..<unat n] = data"
    "k_fs k' = k_fs k" "fd_get (k_fds k') fd = Some (f\<lparr>of_offset := of_offset f + n\<rparr>)"
proof -
  obtain b h where vec: "vec_zeroed k n = Inr (b, k\<lparr>k_mm := (k_mm k)\<lparr>heap_alloc := h\<rparr>\<rparr>)"
    by (rule vec_zeroed_room [of k n 0]) (use room in auto)
  let ?k = "k\<lparr>k_mm := (k_mm k)\<lparr>heap_alloc := h\<rparr>\<rparr>"
  obtain k2 where k2: "vstore E ?k dst data = Inr k2" "map (\<lambda>i. kram k2 (g i)) [0..<length data] = data"
    using vstore_buffer [of E ?k dst n g data] dst data(2) by auto
  obtain m where m: "k2 = ?k\<lparr>k_mm := (k_mm ?k)\<lparr>ram := m\<rparr>\<rparr>"
    using vstore_only_ram [OF k2(1)] by blast
  have n: "of_nat (length data) = n" using data(2) by simp
  let ?k3 = "k2\<lparr>k_fds := fd_set (k_fds k) fd (f\<lparr>of_offset := of_offset f + n\<rparr>)\<rparr>"
  have "sys_read E k fd dst n = read_file E k fd f dst n"
    using f by (simp add: sys_read_def read_other_def file_open_def is_inet_socket_def is_stdin_def)
  also have "\<dots> = Inr (n, ?k3)"
    using vec data k2(1) m n by (simp add: read_file_def Let_def)
  finally show thesis
    using k2(2) data(2) m f by (intro that [of ?k3]) (simp_all add: file_open_def fd_set_view)
qed


definition demo_file_kernel :: "(unit, unit) kernel" where
  "demo_file_kernel = demo_live\<lparr>k_mm := init_heap demo_mm, k_fs := demo_fs,
     k_fds := \<lparr>fd_files = [Some std_stream, Some std_stream, Some std_stream, Some (std_stream\<lparr>of_inode := 2, of_offset := 1\<rparr>)]\<rparr>\<rparr>"


section \<open>Bytes through a pipe\<close>

text \<open>A descriptor for either end of pipe number \<open>i\<close>.\<close>

definition pipe_open :: "('s, 'h) kernel \<Rightarrow> usize \<Rightarrow> usize \<Rightarrow> bool" where
  "pipe_open k fd i \<longleftrightarrow> (\<exists>f. fd_get (k_fds k) fd = Some f \<and> of_pipe_id f = Some i) \<and> bt_get (k_fake k) fd = None"

lemma pipe_open_calls:
  assumes "pipe_open k fd i"
  shows "sys_read E k fd buf n = read_pipe E k i buf n"
    and "fd \<noteq> 1 \<Longrightarrow> fd \<noteq> 2 \<Longrightarrow> vload E k buf (unat n) = Inr data \<Longrightarrow> sys_write E k fd buf n = write_pipe E k i buf n"
  using assms
  by (auto simp: pipe_open_def sys_read_def sys_write_def is_stdin_def read_other_def is_inet_socket_def)

text \<open>Pipe \<open>i\<close> holds \<open>bs\<close> and has a reader.\<close>

definition pipe_holds :: "('s, 'h) kernel \<Rightarrow> usize \<Rightarrow> u8 list \<Rightarrow> bool" where
  "pipe_holds k i bs \<longleftrightarrow> bt_wf (k_pipes k) \<and>
     (\<exists>q. bt_get (k_pipes k) i = Some q \<and> pipe_inv q \<and> \<not> pi_read_closed q \<and> pipe_contents q = bs)"

lemma write_open_pipe:
  assumes q: "pipe_holds k i bs" and room: "heap_room k (unat n + m)" and fits: "length bs + unat n \<le> 4095"
    and src: "vload E k src (unat n) = Inr data"
  obtains k' where "write_pipe E k i src n = Inr (n, k')" "heap_room k' m" "pipe_holds k' i (bs @ data)"
    "k_fds k' = k_fds k" "k_fake k' = k_fake k" "k_satp k' = k_satp k"
proof -
  obtain p where p: "bt_wf (k_pipes k)" "bt_get (k_pipes k) i = Some p" "pipe_inv p" "\<not> pi_read_closed p" "pipe_contents p = bs"
    using q by (auto simp: pipe_holds_def)
  obtain b h where vec: "vec_zeroed k n = Inr (b, k\<lparr>k_mm := (k_mm k)\<lparr>heap_alloc := h\<rparr>\<rparr>)"
      and more: "heap_room (k\<lparr>k_mm := (k_mm k)\<lparr>heap_alloc := h\<rparr>\<rparr>) m"
    by (rule vec_zeroed_room [OF room]) (use fits in simp)
  let ?k = "k\<lparr>k_mm := (k_mm k)\<lparr>heap_alloc := h\<rparr>\<rparr>"
  have src': "vload E ?k src (unat n) = Inr data" using src vload_same [of ?k k] by simp
  have d: "length data = unat n" by (rule length_vload [OF src])
  obtain p' where p': "pipe_write p data = Inr (n, p')" "pipe_inv p'" "\<not> pi_read_closed p'" "pipe_contents p' = bs @ data"
    using pipe.put_law [of p data] p(3-5) fits d by auto
  have "write_pipe E k i src n = Inr (n, ?k\<lparr>k_pipes := bt_modify (k_pipes k) i (\<lambda>_. p')\<rparr>)"
    using p(2) vec src' p'(1) by (simp add: write_pipe_def)
  then show thesis
    using p(1,2) p' more
    by (intro that [of "?k\<lparr>k_pipes := bt_modify (k_pipes k) i (\<lambda>_. p')\<rparr>"]) (simp_all add: pipe_holds_def bt.get_upd bt.inv_upd heap_room_def)
qed

lemma read_open_pipe:
  assumes q: "pipe_holds k i (data @ bs)" "length data = unat n" and room: "heap_room k (unat n)" "unat n < 2 ^ 63"
    and dst: "buffer_at E (k_satp k) dst (unat n) g"
  obtains k' where "read_pipe E k i dst n = Inr (n, k')" "map (\<lambda>j. kram k' (g j)) [0..<unat n] = data" "pipe_holds k' i bs"
proof -
  obtain p where p: "bt_wf (k_pipes k)" "bt_get (k_pipes k) i = Some p" "pipe_inv p" "\<not> pi_read_closed p" "pipe_contents p = data @ bs"
    using q by (auto simp: pipe_holds_def)
  obtain b h where vec: "vec_zeroed k n = Inr (b, k\<lparr>k_mm := (k_mm k)\<lparr>heap_alloc := h\<rparr>\<rparr>)"
    by (rule vec_zeroed_room [of k n 0]) (use room in auto)
  let ?k = "k\<lparr>k_mm := (k_mm k)\<lparr>heap_alloc := h\<rparr>\<rparr>"
  obtain p' where p': "pipe_read p (replicate (unat n) 0) = Inr (n, data, p')"
      "pipe_inv p'" "\<not> pi_read_closed p'" "pipe_contents p' = bs"
    using pipe.get_law [of p "replicate (unat n) 0"] p(3-5) q(2) unat_lt_2_64 [of n] by auto
  obtain k2 where k2: "vstore E ?k dst data = Inr k2" "map (\<lambda>i. kram k2 (g i)) [0..<length data] = data"
    using vstore_buffer [of E ?k dst n g data] dst q(2) by auto
  then have pipes: "k_pipes k2 = k_pipes k"
    using vstore_only_ram by fastforce
  let ?k3 = "k2\<lparr>k_pipes := bt_modify (k_pipes k) i (\<lambda>_. p')\<rparr>"
  have "0 < n \<or> n = 0 \<and> k2 = ?k"
    using k2(1) q(2) by (auto simp: word_gt_0)
  then have "read_pipe E k i dst n = Inr (n, ?k3)"
    using p(2) vec p'(1) q(2) k2(1) pipes by (auto simp: read_pipe_def)
  then show thesis
    using k2(2) q(2) p(1,2) p' by (intro that [of ?k3]) (simp_all add: pipe_holds_def bt.get_upd bt.inv_upd)
qed


definition demo_pipe :: "(unit, unit) kernel" where
  "demo_pipe = demo_live\<lparr>k_mm := init_heap demo_mm,
     k_fds := \<lparr>fd_files = [Some std_stream, Some std_stream, Some std_stream,
       Some (std_stream\<lparr>of_pipe_id := Some 1\<rparr>), Some (std_stream\<lparr>of_pipe_id := Some 1\<rparr>)]\<rparr>,
     k_pipes := [(1, pipe_new)], k_next_pipe := 2\<rparr>"

lemma demo_pipe_inv: "kernel_inv demo_pipe"
proof -
  have fd: "fd_get (k_fds demo_pipe) fd = (if fd < 3 then Some std_stream
      else if fd < 5 then Some (std_stream\<lparr>of_pipe_id := Some 1\<rparr>) else None)" for fd
  proof -
    have "unat fd = 0 \<or> unat fd = 1 \<or> unat fd = 2 \<or> unat fd = 3 \<or> unat fd = 4 \<or> 5 \<le> unat fd" by arith
    then show ?thesis
      by (elim disjE) (simp_all add: fd_get_def demo_pipe_def word_less_nat_alt nth_Cons')
  qed
  have pipes: "bt_get (k_pipes demo_pipe) i = (if i = 1 then Some pipe_new else None)" for i
    by (simp add: demo_pipe_def bt_get_def)
  have "fds_inv demo_pipe"
    by (auto simp: fds_inv_def fd fd_ok_def pipes std_stream_def split: if_splits)
      (simp add: fd_wf_def demo_pipe_def)
  moreover have "pipes_inv demo_pipe"
    using pipe_inv_new(1) by (auto simp: pipes_inv_def pipes split: if_splits) (simp_all add: demo_pipe_def bt_wf_def)
  ultimately show ?thesis
    using demo_live_inv
    by (simp add: kernel_inv_def procs_inv_def sched_inv_def proc_of_def fake_inv_def)
      (simp add: demo_pipe_def demo_live_def frames_ok_def init_heap_def)
qed


text \<open>
  Output to descriptors 1 and 2 goes to the console whatever the descriptor table says: after
  \<^verbatim>\<open>dup2\<close> onto them, nothing a program writes there reaches the file or the pipe.
\<close>

theorem stdout_ignores_table:
  assumes "fd = 1 \<or> fd = 2" "sys_write E k fd buf n = Inr (r, k')"
  shows "k_fs k' = k_fs k \<and> k_pipes k' = k_pipes k \<and> k_fds k' = k_fds k \<and> (\<exists>out. k_out k' = k_out k @ out)"
  using assms by (auto simp: sys_write_def res_bind_Inr_iff console_print_eq Let_def)

end
