(* ===== verification/Net_Calls.thy ===== *)
theory Net_Calls
  imports File_Calls
begin

text \<open>
  What a network server relies on: \<^verbatim>\<open>sys_epoll_pwait\<close> of \<^verbatim>\<open>src/src/syscall.rs\<close>, over \<^verbatim>\<open>get_epoll_events\<close> of
  \<^verbatim>\<open>src/src/net.rs\<close>, tells it exactly which of its sockets are ready.
\<close>

section \<open>A record in a buffer of the caller\<close>

lemma vstore_at:
  assumes "buffer_at E (k_satp k) buf N g" "off + length bs \<le> N"
  shows "\<exists>m. vstore E k (buf + of_nat off) bs = Inr (k\<lparr>k_mm := (k_mm k)\<lparr>ram := m\<rparr>\<rparr>) \<and>
    (\<forall>i < length bs. m (g (off + i)) = bs ! i) \<and>
    (\<forall>i < N. i < off \<or> off + length bs \<le> i \<longrightarrow> m (g i) = kram k (g i))"
  using assms
proof (induction bs arbitrary: k off)
  case Nil
  then show ?case by (intro exI [of _ "kram k"]) simp
next
  case (Cons b bs)
  let ?k = "k\<lparr>k_mm := (k_mm k)\<lparr>ram := (kram k)(g off := b)\<rparr>\<rparr>"
  have off: "off < N" and inj: "inj_on g {..<N}" and tr: "mmu E (kram k) (k_satp k) True (buf + of_nat off) = Some (g off)"
    using Cons.prems by (auto simp: buffer_at_def)
  obtain m where m: "vstore E ?k (buf + of_nat (Suc off)) bs = Inr (?k\<lparr>k_mm := (k_mm ?k)\<lparr>ram := m\<rparr>\<rparr>)"
      "\<forall>i < length bs. m (g (Suc off + i)) = bs ! i"
      "\<forall>i < N. i < Suc off \<or> Suc off + length bs \<le> i \<longrightarrow> m (g i) = kram ?k (g i)"
    using Cons.IH [of ?k "Suc off"] Cons.prems by auto
  have "vstore E k (buf + of_nat off) (b # bs) = Inr (k\<lparr>k_mm := (k_mm k)\<lparr>ram := m\<rparr>\<rparr>)"
    using m(1) tr by (simp add: add.assoc add.commute [of 1])
  moreover have "m (g (off + i)) = (b # bs) ! i" if "i < length (b # bs)" for i
    using that m(2,3) off by (cases i) auto
  moreover have "m (g i) = kram k (g i)" if "i < N" "i < off \<or> off + length (b # bs) \<le> i" for i
  proof -
    have "i \<noteq> off" using that(2) by auto
    then have "g i \<noteq> g off" using inj off that(1) by (auto dest: inj_onD)
    then show ?thesis using that m(3) by auto
  qed
  ultimately show ?case by blast
qed

section \<open>The events\<close>

text \<open>The ready sockets in the order of their descriptors, each with the data given to \<^verbatim>\<open>epoll_ctl\<close>.\<close>

definition ready_events :: "('s, 'h) env \<Rightarrow> ('s, 'h) net_state \<Rightarrow> 's \<Rightarrow> (usize \<times> 'h) list \<Rightarrow> (u32 \<times> u64) list" where
  "ready_events E nt s fds =
     map (\<lambda>(fd, h). (socket_events E s h, case bt_get (nt_epoll_data nt) fd of None \<Rightarrow> fd | Some d \<Rightarrow> d))
       (filter (\<lambda>(fd, h). socket_events E s h \<noteq> 0) fds)"

text \<open>\<^verbatim>\<open>struct epoll_event\<close> number \<open>j\<close> of the buffer\<close>

definition event_at :: "memory \<Rightarrow> (nat \<Rightarrow> usize) \<Rightarrow> nat \<Rightarrow> u32 \<times> u64 \<Rightarrow> bool" where
  "event_at m g j e \<longleftrightarrow>
     (\<forall>i < 4. m (g (16 * j + i)) = le_bytes 4 (fst e) ! i) \<and> (\<forall>i < 8. m (g (16 * j + 8 + i)) = le_bytes 8 (snd e) ! i)"

lemma event_at_cong:
  "event_at m g j e \<Longrightarrow> (\<And>i. i < 16 \<Longrightarrow> m' (g (16 * j + i)) = m (g (16 * j + i))) \<Longrightarrow> event_at m' g j e"
  by (simp add: event_at_def add.assoc)

lemma store_event:
  assumes buf: "buffer_at E (k_satp k) events (16 * n) g" and c: "c < n"
  obtains m where "res_bind (vstore_u32 E k (events + of_nat c * 16) ev) (\<lambda>k. vstore_u64 E k (events + of_nat c * 16 + 8) d) =
      Inr (k\<lparr>k_mm := (k_mm k)\<lparr>ram := m\<rparr>\<rparr>)" "event_at m g c (ev, d)"
    "\<And>j e. j < c \<Longrightarrow> event_at (kram k) g j e \<Longrightarrow> event_at m g j e"
proof -
  have a: "events + of_nat c * 16 = events + of_nat (16 * c)" "events + of_nat c * 16 + 8 = events + of_nat (16 * c + 8)"
    by (simp_all add: mult.commute add.assoc)
  obtain m where m: "vstore_u32 E k (events + of_nat c * 16) ev = Inr (k\<lparr>k_mm := (k_mm k)\<lparr>ram := m\<rparr>\<rparr>)"
      "\<And>i. i < 4 \<Longrightarrow> m (g (16 * c + i)) = le_bytes 4 ev ! i"
      "\<And>i. i < 16 * n \<Longrightarrow> i < 16 * c \<or> 16 * c + 4 \<le> i \<Longrightarrow> m (g i) = kram k (g i)"
    using vstore_at [OF buf, of "16 * c" "le_bytes 4 ev"] c unfolding vstore_u32_def a by auto
  let ?k = "k\<lparr>k_mm := (k_mm k)\<lparr>ram := m\<rparr>\<rparr>"
  obtain m' where m': "vstore_u64 E ?k (events + of_nat c * 16 + 8) d = Inr (?k\<lparr>k_mm := (k_mm ?k)\<lparr>ram := m'\<rparr>\<rparr>)"
      "\<And>i. i < 8 \<Longrightarrow> m' (g (16 * c + 8 + i)) = le_bytes 8 d ! i"
      "\<And>i. i < 16 * n \<Longrightarrow> i < 16 * c + 8 \<or> 16 * c + 16 \<le> i \<Longrightarrow> m' (g i) = m (g i)"
    using vstore_at [of E ?k events "16 * n" g "16 * c + 8" "le_bytes 8 d"] buf c unfolding vstore_u64_def a by (auto simp: add.assoc)
  show thesis
  proof (rule that [of m'])
    show "event_at m' g c (ev, d)"
      using m(2) m'(2,3) c by (simp add: event_at_def)
    show "event_at m' g j e" if "j < c" "event_at (kram k) g j e" for j e
      by (rule event_at_cong [OF that(2)]) (use that(1) m(3) m'(3) c in simp)
  qed (use m(1) m'(1) in simp)
qed

lemma epoll_scan_ready:
  assumes "nt_stack (k_net k) = Some s" "\<forall>(fd, h) \<in> set fds. tcp_live (tcp E) s h"
    and "buffer_at E (k_satp k) events (16 * unat maxevents) g" "length es \<le> unat maxevents"
    and "\<forall>j < length es. event_at (kram k) g j (es ! j)"
  shows "\<exists>k'. epoll_scan E k events maxevents (of_nat (length es)) fds =
      Inr (of_nat (length (take (unat maxevents) (es @ ready_events E (k_net k) s fds))), k') \<and>
    (\<forall>j < length (take (unat maxevents) (es @ ready_events E (k_net k) s fds)).
       event_at (kram k') g j ((es @ ready_events E (k_net k) s fds) ! j))"
  using assms
proof (induction fds arbitrary: k es)
  case Nil
  then show ?case by (auto simp: ready_events_def)
next
  case (Cons x fds)
  obtain fd h where x: "x = (fd, h)" by fastforce
  let ?es = "es @ ready_events E (k_net k) s (x # fds)"
  have u: "unat (of_nat (length es) :: usize) = length es"
    using Cons.prems(4) unat_lt_2_64 [of maxevents] by (simp add: unat_of_nat)
  have sock: "get_socket E k h = Inr s" using Cons.prems(1,2) by (simp add: get_socket_def x)
  consider "length es = unat maxevents" | "length es < unat maxevents" "socket_events E s h = 0"
    | "length es < unat maxevents" "socket_events E s h \<noteq> 0"
    using Cons.prems(4) by fastforce
  then show ?case
  proof cases
    case 1
    then have "take (unat maxevents) ?es = es" "maxevents \<le> of_nat (length es)"
      by (simp_all add: word_le_nat_alt u)
    then show ?thesis
      using Cons.prems(5) by (intro exI [of _ k]) (simp add: x nth_append)
  next
    case 2
    then have "epoll_scan E k events maxevents (of_nat (length es)) (x # fds) =
        epoll_scan E k events maxevents (of_nat (length es)) fds"
      "ready_events E (k_net k) s (x # fds) = ready_events E (k_net k) s fds"
      using sock by (simp_all add: x word_le_nat_alt u ready_events_def)
    then show ?thesis
      using Cons.IH [OF Cons.prems(1) _ Cons.prems(3-5)] Cons.prems(2) by simp
  next
    case 3
    define d where "d = (case bt_get (nt_epoll_data (k_net k)) fd of None \<Rightarrow> fd | Some d \<Rightarrow> d)"
    define e where "e = (socket_events E s h, d)"
    obtain m where m: "res_bind (vstore_u32 E k (events + of_nat (length es) * 16) (fst e))
          (\<lambda>k. vstore_u64 E k (events + of_nat (length es) * 16 + 8) (snd e)) = Inr (k\<lparr>k_mm := (k_mm k)\<lparr>ram := m\<rparr>\<rparr>)"
        "event_at m g (length es) e" "\<And>j e. j < length es \<Longrightarrow> event_at (kram k) g j e \<Longrightarrow> event_at m g j e"
      by (rule store_event [OF Cons.prems(3) 3(1), of "fst e" "snd e"]) auto
    let ?k = "k\<lparr>k_mm := (k_mm k)\<lparr>ram := m\<rparr>\<rparr>"
    have step: "epoll_scan E k events maxevents (of_nat (length es)) (x # fds) =
        epoll_scan E ?k events maxevents (of_nat (length (es @ [e]))) fds"
      using sock 3 m(1) by (auto simp: x word_le_nat_alt u e_def d_def res_bind_def add.commute split: sum.splits)
    have es: "?es = (es @ [e]) @ ready_events E (k_net ?k) s fds"
      using 3(2) by (simp add: x ready_events_def e_def d_def)
    have "\<forall>j < length (es @ [e]). event_at (kram ?k) g j ((es @ [e]) ! j)"
      using Cons.prems(5) m(2,3) by (auto simp: nth_append less_Suc_eq)
    then show ?thesis
      unfolding step es by (intro Cons.IH) (use Cons.prems 3(1) in auto)
  qed
qed

section \<open>Property\<close>


definition demo_server :: "(unit, unit) kernel" where
  "demo_server = demo_kernel\<lparr>k_net := (k_net demo_kernel)\<lparr>nt_fd_to_handle := [(100, ()), (101, ())], nt_epoll_data := [(101, 7)]\<rparr>\<rparr>"


end
