(* ===== verification/Proc_Calls.thy ===== *)
theory Proc_Calls
  imports File_Calls
begin

text \<open>
  The life of a child process, across \<^verbatim>\<open>sys_clone\<close>, \<^verbatim>\<open>exit_process\<close> and \<^verbatim>\<open>sys_wait4\<close> of \<^verbatim>\<open>src/src/syscall.rs\<close> and
  \<^verbatim>\<open>src/src/proc.rs\<close>: it starts ready to run, its exit wakes a waiting parent, and the parent gets its status.
\<close>

lemma clone_child:
  assumes inv: "kernel_inv k" and run: "sys_clone k stack = Inr (c, k1)" and c: "c \<noteq> - 1"
  obtains p where "c = k_next_pid k" "proc_of k1 c = Some p" "p_state p = Ready" "p_ppid p = k_current k"
    "\<And>u. u \<noteq> c \<Longrightarrow> proc_of k1 u = proc_of k u"
proof -
  have wf: "bt_wf (k_procs k)" using inv by (simp add: kernel_inv_defs)
  obtain parent where parent: "proc_of k (k_current k) = Some parent"
    using inv by (auto simp: kernel_inv_defs)
  obtain k' where fork: "fork_process k (k_ctf k) = Inr (Some c, k')" and k1: "k1 = (if stack \<noteq> 0 then
      k'\<lparr>k_procs := bt_modify (k_procs k') c
        (\<lambda>p. p\<lparr>p_trap_frame := (p_trap_frame p)\<lparr>tf_regs := (tf_regs (p_trap_frame p))[2 := stack]\<rparr>\<rparr>)\<rparr> else k')"
    using run c by (auto simp: sys_clone_def res_bind_Inr_iff split: option.splits)
  show thesis
  proof (cases rule: fork_process_cases [OF fork parent])
    case 1
    then show thesis by simp
  next
    case (2 child_pt s kstack s')
    then have "bt_wf (k_procs k')" "c = k_next_pid k"
      "\<And>u. u \<noteq> c \<Longrightarrow> proc_of k' u = proc_of k u"
      "\<exists>p. proc_of k' c = Some p \<and> p_state p = Ready \<and> p_ppid p = k_current k"
      using wf by (auto simp: proc_of_def bt.get_put bt.inv_put)
    then show thesis
      by (cases "stack = 0") (auto simp: k1 proc_of_def bt.get_upd intro!: that)
  qed
qed

lemma wait4_zombie:
  assumes wf: "bt_wf (k_procs m)" and z: "proc_of m c = Some p" "p_ppid p = k_current m" "p_state p = Zombie"
    and pos: "0 < sint c" and st: "wstatus \<noteq> 0" "buffer_at E (k_satp m) wstatus 8 g"
  shows "\<exists>k'. sys_wait4 E m c wstatus options = Inr (c, k') \<and> proc_of k' = (proc_of m)(c := None) \<and>
    map (\<lambda>i. kram k' (g i)) [0..<8] = le_bytes 8 (push_bit 8 (p_exit_code p AND 0xff))"
proof -
  have "zombie_child m c = Some (c, p)"
    unfolding zombie_child_def bt.find_least [OF wf] using z pos by (auto simp: proc_of_def)
  moreover obtain k1 where k1: "vstore_u64 E m wstatus (push_bit 8 (p_exit_code p AND 0xff)) = Inr k1"
      "map (\<lambda>i. kram k1 (g i)) [0..<8] = le_bytes 8 (push_bit 8 (p_exit_code p AND 0xff))"
    using vstore_buffer [of E m wstatus 8 g "le_bytes 8 (push_bit 8 (p_exit_code p AND 0xff))"] st(2)
    by (auto simp: vstore_u64_def)
  moreover have "k_procs k1 = k_procs m"
    using vstore_only_ram k1(1) by (force simp: vstore_u64_def)
  ultimately show ?thesis
    using st(1) by (simp add: sys_wait4_def) (auto simp: proc_of_def bt.get_del [OF wf])
qed


text \<open>A parent with one page forks; later the child runs while the parent waits.\<close>

definition demo_parent :: "mm_state \<Rightarrow> page_table \<Rightarrow> (unit, unit) kernel" where
  "demo_parent t pt = demo_live\<lparr>k_mm := t, k_procs := [(1, (demo_proc 1 Running)\<lparr>p_ppid := 0, p_page_table := pt\<rparr>)]\<rparr>"

definition demo_child :: "(unit, unit) kernel" where
  "demo_child = demo_live\<lparr>k_next_pid := 3, k_current := 2,
     k_procs := [(1, demo_proc 1 Waiting\<lparr>p_ppid := 0\<rparr>), (2, demo_proc 2 Running)]\<rparr>"

lemma demo_parent_inv: "frames_ok t \<Longrightarrow> kernel_inv (demo_parent t pt)"
proof -
  assume "frames_ok t"
  moreover have "procs_inv (demo_parent t pt)"
    by (auto simp: procs_inv_def sched_inv_def demo_parent_def demo_live_def demo_proc_def proc_of_def bt_get_def bt_wf_def
        trap_frame_new_def split: if_splits)
  ultimately show ?thesis
    using demo_live_inv by (simp add: kernel_inv_def demo_parent_def fds_inv_def fd_ok_def pipes_inv_def fake_inv_def)
qed

lemma demo_child_inv: "kernel_inv demo_child"
proof -
  have "procs_inv demo_child"
    by (auto simp: procs_inv_def sched_inv_def demo_child_def demo_live_def demo_proc_def proc_of_def bt_get_def bt_wf_def
        trap_frame_new_def split: if_splits)
  then show ?thesis
    using demo_live_inv by (simp add: kernel_inv_def demo_child_def fds_inv_def fd_ok_def pipes_inv_def fake_inv_def)
qed


end
