(* ===== verification/Trap_Props.thy ===== *)
theory Trap_Props
  imports Syscall_Props
begin

text \<open>
  What a user program sees of a system call: the whole way through the trap vector, the handler,
  the scheduler and back.
\<close>

section \<open>Editing the saved frame\<close>

lemma read_raw_sepc: "read_raw (store_u64 m (p + 264) v) p = (read_raw m p)\<lparr>raw_sepc := v\<rparr>"
proof -
  have c: "load_u64 (store_u64 m (p + of_nat 264) v) (p + of_nat (8 * i)) = (if i = 33 then v else load_u64 m (p + of_nat (8 * i)))"
    if "i < 35" for i
    by (subst load_u64_window) (use that in auto)
  have "load_words (store_u64 m (p + 264) v) p 32 = load_words m p 32"
    using c by (intro nth_equalityI) auto
  then show ?thesis
    using c [of 32] c [of 33] c [of 34] by (simp add: read_raw_def)
qed

lemma read_raw_a0: "read_raw (store_u64 m (p + 80) v) p = (read_raw m p)\<lparr>raw_x := (raw_x (read_raw m p))[10 := v]\<rparr>"
proof -
  have c: "load_u64 (store_u64 m (p + of_nat 80) v) (p + of_nat (8 * i)) = (if i = 10 then v else load_u64 m (p + of_nat (8 * i)))"
    if "i < 35" for i
    by (subst load_u64_window) (use that in auto)
  have "load_words (store_u64 m (p + 80) v) p 32 = (load_words m p 32)[10 := v]"
    using c by (intro nth_equalityI) (auto simp: nth_list_update)
  then show ?thesis
    using c [of 32] c [of 33] c [of 34] by (simp add: read_raw_def)
qed

section \<open>Staying on the processor\<close>

lemma schedule_stays:
  assumes "do_schedule E k sp = Inr (sp', k')" "k_current k' = k_current k"
  shows "sp' = sp \<and> kram k' = kram k"
proof -
  let ?k = "save_current k sp"
  have cur: "k_current ?k = k_current k" "kram ?k = kram k"
    by (simp_all add: save_current_def)
  show ?thesis
  proof (cases "ready_pids ?k = []")
    case True
    then show ?thesis
      using assms(1) cur unfolding do_schedule_def Let_def
      by (cases "bt_get (k_procs ?k) (k_current ?k)") (auto split: if_splits)
  next
    case False
    show ?thesis
    proof (cases "pick_next (ready_pids ?k) (k_current ?k) = k_current ?k")
      case True
      then show ?thesis using assms(1) False cur unfolding do_schedule_def Let_def by auto
    next
      case n: False
      then have "switch_to ?k (pick_next (ready_pids ?k) (k_current ?k)) = Inr (sp', k')"
        using assms(1) False unfolding do_schedule_def Let_def by simp
      then have "k_current k' = pick_next (ready_pids ?k) (k_current ?k)"
        unfolding switch_to_def Let_def by (auto split: option.splits)
      then show ?thesis using n assms(2) cur by simp
    qed
  qed
qed

section \<open>The way of a system call\<close>

lemma entry_state:
  fixes s :: machine
  defines "p \<equiv> m_csrs s Sscratch - 288"
  shows "m_mem (exec_instrs (s\<lparr>m_mem := m\<rparr>) trap_entry) = write_raw m p (user_raw s)"
    "m_regs (exec_instrs (s\<lparr>m_mem := m\<rparr>) trap_entry) 2 = p" "rd (exec_instrs (s\<lparr>m_mem := m\<rparr>) trap_entry) 10 = p"
    "m_csrs (exec_instrs (s\<lparr>m_mem := m\<rparr>) trap_entry) Sepc = m_csrs s Sepc"
proof -
  have "rd (s\<lparr>m_mem := m\<rparr>) = rd s" by (rule ext) (simp add: rd_def)
  then have "user_raw (s\<lparr>m_mem := m\<rparr>) = user_raw s" by (simp add: user_raw_def)
  then show "m_mem (exec_instrs (s\<lparr>m_mem := m\<rparr>) trap_entry) = write_raw m p (user_raw s)"
    "m_regs (exec_instrs (s\<lparr>m_mem := m\<rparr>) trap_entry) 2 = p" "rd (exec_instrs (s\<lparr>m_mem := m\<rparr>) trap_entry) 10 = p"
    "m_csrs (exec_instrs (s\<lparr>m_mem := m\<rparr>) trap_entry) Sepc = m_csrs s Sepc"
    unfolding trap_entry_state by (simp_all add: p_def rd_def)
qed

lemma user_raw_x: "0 < i \<Longrightarrow> i < 32 \<Longrightarrow> i \<noteq> 2 \<Longrightarrow> raw_x (user_raw s) ! i = m_regs s i"
  by (simp add: user_raw_def rd_def)

text \<open>The handler runs the selected call on the saved arguments, with the program counter advanced.\<close>

lemma ecall_handler:
  fixes s :: machine and p :: usize
  assumes "m_regs s 17 \<noteq> 221"
  shows "\<exists>k1. k_procs k1 = k_procs k \<and> k_current k1 = k_current k \<and>
    read_raw (kram k1) p = (user_raw s)\<lparr>raw_sepc := m_csrs s Sepc + 4\<rparr> \<and>
    rust_trap_handler E (set_ram k (write_raw (kram k) p (user_raw s))) p 8 stval pc =
      res_bind (dispatch E k1 (m_regs s 17) (m_regs s 10) (m_regs s 11) (m_regs s 12) (m_regs s 13) (m_regs s 14) (m_regs s 15))
        (\<lambda>(ret, k). Inr (frame_put (finish_call k p (m_regs s 17) ret) p 80 ret))"
proof -
  let ?kA = "copy_frame (set_ram k (write_raw (kram k) p (user_raw s))) p"
  have rawA: "read_raw (kram ?kA) p = user_raw s"
    by (simp add: copy_frame_def Let_def read_write_raw user_raw_def)
  have sepcA: "load_u64 (kram ?kA) (p + 264) = m_csrs s Sepc"
    using arg_cong [OF rawA, of raw_sepc] by (simp add: read_raw_def user_raw_def)
  define k1 where "k1 = frame_put (if m_regs s 17 = 57 then ?kA\<lparr>k_last_tp := m_regs s 4\<rparr> else ?kA) p 264 (m_csrs s Sepc + 4)"
  have k1: "k_procs k1 = k_procs k" "k_current k1 = k_current k" "kram k1 = store_u64 (kram ?kA) (p + 264) (m_csrs s Sepc + 4)"
    by (simp_all add: k1_def copy_frame_def Let_def)
  have "handle_ecall E ?kA p =
      res_bind (dispatch E k1 (m_regs s 17) (m_regs s 10) (m_regs s 11) (m_regs s 12) (m_regs s 13) (m_regs s 14) (m_regs s 15))
        (\<lambda>(ret, k). Inr (frame_put (finish_call k p (m_regs s 17) ret) p 80 ret))"
    using assms sepcA unfolding handle_ecall_def rawA Let_def user_raw_x [of 17, simplified] k1_def by (simp add: user_raw_x)
  then show ?thesis
    using k1 by (intro exI [of _ k1]) (simp add: rust_trap_handler_def Let_def read_raw_sepc rawA)
qed

lemma cycle_of_handler:
  fixes s :: machine
  defines "p \<equiv> m_csrs s Sscratch - 288"
  assumes "rust_trap_handler E (set_ram k (write_raw (kram k) p (user_raw s))) p cause stval (m_csrs s Sepc) = Inr k3"
  shows "trap_cycle E junk junk' cause stval k s = res_bind (do_schedule E k3 p) (\<lambda>(sp, k'). Inr (k',
    exec_instrs (call_return (exec_instrs (call_return (exec_instrs (s\<lparr>m_mem := kram k\<rparr>) trap_entry) junk (junk 10)
      (kram k3)) trap_between) junk' sp (kram k')) trap_exit))"
proof -
  have "rd (exec_instrs (call_return (exec_instrs (s\<lparr>m_mem := kram k\<rparr>) trap_entry) junk (junk 10) (kram k3)) trap_between) 10 = p"
    using entry_state(2) [where s = s and m = "kram k"]
    by (simp add: trap_between_def call_return_def callee_saved_def wr_def rd_def p_def)
  then show ?thesis
    using assms(2) unfolding trap_cycle_def Let_def entry_state p_def [symmetric] by simp
qed

lemma exit_registers:
  fixes s t :: machine
  assumes "read_raw m p = (user_raw s)\<lparr>raw_sepc := pc, raw_x := (raw_x (user_raw s))[10 := ret]\<rparr>"
    and "p = m_csrs s Sscratch - 288" "s' = exec_instrs (call_return t junk p m) trap_exit"
  shows "m_csrs s' Sepc = pc \<and> m_regs s' 10 = ret \<and> (\<forall>i < 32. 0 < i \<longrightarrow> i \<noteq> 10 \<longrightarrow> m_regs s' i = m_regs s i) \<and>
    m_csrs s' Sstatus = m_csrs s Sstatus \<and> m_csrs s' Sscratch = m_csrs s Sscratch"
proof -
  have t: "m_mem (call_return t junk p m) = m" "m_regs (call_return t junk p m) 10 = p"
    by (simp_all add: call_return_def)
  note ex = trap_exit_state [where s = "call_return t junk p m", unfolded t assms(1)]
  have "m_regs s' i = m_regs s i" if "i < 32" "0 < i" "i \<noteq> 10" for i
    using ex(3,4) that user_raw_x [of i s] assms(3) by (cases "i = 2") (simp_all add: user_raw_def)
  moreover have "m_regs s' 10 = ret"
    using ex(4) [of 10] assms(3) by (simp add: user_raw_def)
  ultimately show ?thesis
    using ex(2) assms(2,3) by (simp add: user_raw_def)
qed

text \<open>
  C2. A system call returns to the program that made it.  If the calling process is still the one
  on the processor afterwards and the handler left the saved frame alone, then the program goes on
  right after its \<^verbatim>\<open>ecall\<close> instruction with the answer of the called handler in \<^verbatim>\<open>a0\<close> and every
  other integer register, the stack pointer, the status register and \<^verbatim>\<open>sscratch\<close> as they were.  The
  handler that runs is the one its number in \<^verbatim>\<open>a7\<close> selects, on the arguments in \<^verbatim>\<open>a0\<close> to \<^verbatim>\<open>a5\<close>.
  \<^verbatim>\<open>execve\<close> and \<^verbatim>\<open>wait4\<close>, which resume elsewhere, are excepted.
\<close>

theorem syscall_returns:
  fixes s s' :: machine
  defines "p \<equiv> m_csrs s Sscratch - 288"
  assumes "m_regs s 17 \<noteq> 221" "m_regs s 17 \<noteq> 260" "trap_cycle E junk junk' 8 stval k s = Inr (k', s')"
  shows "\<exists>k1 ret k2. k_procs k1 = k_procs k \<and> k_current k1 = k_current k \<and>
    dispatch E k1 (m_regs s 17) (m_regs s 10) (m_regs s 11) (m_regs s 12) (m_regs s 13) (m_regs s 14) (m_regs s 15) =
      Inr (ret, k2) \<and>
    (read_raw (kram k2) p = read_raw (kram k1) p \<longrightarrow> k_current k' = k_current k2 \<longrightarrow>
       m_csrs s' Sepc = m_csrs s Sepc + 4 \<and> m_regs s' 10 = ret \<and>
       (\<forall>i < 32. 0 < i \<longrightarrow> i \<noteq> 10 \<longrightarrow> m_regs s' i = m_regs s i) \<and>
       m_csrs s' Sstatus = m_csrs s Sstatus \<and> m_csrs s' Sscratch = m_csrs s Sscratch)"
proof -
  obtain k1 where k1: "k_procs k1 = k_procs k" "k_current k1 = k_current k"
      "read_raw (kram k1) p = (user_raw s)\<lparr>raw_sepc := m_csrs s Sepc + 4\<rparr>"
      "rust_trap_handler E (set_ram k (write_raw (kram k) p (user_raw s))) p 8 stval (m_csrs s Sepc) =
        res_bind (dispatch E k1 (m_regs s 17) (m_regs s 10) (m_regs s 11) (m_regs s 12) (m_regs s 13) (m_regs s 14) (m_regs s 15))
          (\<lambda>(ret, k). Inr (frame_put (finish_call k p (m_regs s 17) ret) p 80 ret))"
    using ecall_handler [OF assms(2), of k p E stval "m_csrs s Sepc"] by blast
  obtain ret k2 where d: "dispatch E k1 (m_regs s 17) (m_regs s 10) (m_regs s 11) (m_regs s 12) (m_regs s 13)
      (m_regs s 14) (m_regs s 15) = Inr (ret, k2)"
    using assms(4) k1(4) unfolding trap_cycle_def Let_def entry_state p_def by (auto simp: res_bind_Inr_iff)
  let ?k3 = "frame_put k2 p 80 ret"
  have h: "rust_trap_handler E (set_ram k (write_raw (kram k) p (user_raw s))) p 8 stval (m_csrs s Sepc) = Inr ?k3"
    using k1(4) d assms(2,3) by (simp add: finish_call_def)
  obtain sp t where sch: "do_schedule E ?k3 p = Inr (sp, k')" "s' = exec_instrs (call_return t junk' sp (kram k')) trap_exit"
    using assms(4) unfolding cycle_of_handler [OF h [unfolded p_def], folded p_def] by (auto simp: res_bind_Inr_iff)
  have "m_csrs s' Sepc = m_csrs s Sepc + 4 \<and> m_regs s' 10 = ret \<and>
       (\<forall>i < 32. 0 < i \<longrightarrow> i \<noteq> 10 \<longrightarrow> m_regs s' i = m_regs s i) \<and>
       m_csrs s' Sstatus = m_csrs s Sstatus \<and> m_csrs s' Sscratch = m_csrs s Sscratch"
    if frame: "read_raw (kram k2) p = read_raw (kram k1) p" and cur: "k_current k' = k_current k2"
  proof -
    have stay: "sp = p" "kram k' = kram ?k3"
      using schedule_stays [OF sch(1)] cur by simp_all
    have raw: "read_raw (kram k') p = (user_raw s)\<lparr>raw_sepc := m_csrs s Sepc + 4, raw_x := (raw_x (user_raw s))[10 := ret]\<rparr>"
      unfolding stay(2) by (simp add: read_raw_a0 frame k1(3))
    show ?thesis
      using exit_registers [OF raw p_def [THEN meta_eq_to_obj_eq]] sch(2) stay(1) by blast
  qed
  then show ?thesis using k1(1,2) d by blast
qed

theorem syscall_returns_witness:
  "\<exists>k' s'. trap_cycle demo_env (\<lambda>_. 7) (\<lambda>_. 9) 8 0 demo_live
       \<lparr>m_regs = of_nat(17 := 172), m_csrs = (\<lambda>_. 0x80401000), m_mem = (\<lambda>_. 0)\<rparr> = Inr (k', s') \<and>
     m_regs s' 10 = 1 \<and> m_regs s' 5 = 5 \<and> m_csrs s' Sepc = 0x80401004"
proof -
  let ?s = "\<lparr>m_regs = of_nat(17 := 172), m_csrs = (\<lambda>_. 0x80401000), m_mem = (\<lambda>_. 0)\<rparr> :: machine"
  let ?p = "m_csrs ?s Sscratch - 288"
  have num: "m_regs ?s 17 \<noteq> 221" "m_regs ?s 17 \<noteq> 260" by simp_all
  have pid: "dispatch demo_env j (m_regs ?s 17) a b c d e g = Inr (k_current j, j)" for j a b c d e g
    by (simp add: dispatch_def sys_getpid_def)
  have cur: "k_current demo_live = 1" "k_procs demo_live = [(1, demo_proc 1 Running\<lparr>p_ppid := 0\<rparr>)]"
    by (simp_all add: demo_live_def)
  obtain k1 where k1: "k_procs k1 = k_procs demo_live" "k_current k1 = k_current demo_live"
      "rust_trap_handler demo_env (set_ram demo_live (write_raw (kram demo_live) ?p (user_raw ?s))) ?p 8 0 (m_csrs ?s Sepc) =
        Inr (frame_put k1 ?p 80 1)"
    using ecall_handler [OF num(1), of demo_live ?p demo_env 0 "m_csrs ?s Sepc"] cur(1) unfolding pid by (auto simp: finish_call_def)
  have "\<exists>k'. do_schedule demo_env (frame_put k1 ?p 80 1) ?p = Inr (?p, k') \<and> k_current k' = 1"
    using k1(1,2) cur by (simp add: do_schedule_def Let_def save_current_def saved_def ready_pids_def pick_next_def demo_proc_def)
  then obtain k' s' where run: "trap_cycle demo_env (\<lambda>_. 7) (\<lambda>_. 9) 8 0 demo_live ?s = Inr (k', s')" "k_current k' = 1"
    unfolding cycle_of_handler [OF k1(3)] by auto
  from syscall_returns [OF num run(1)] pid cur(1) run(2)
  have "m_csrs s' Sepc = m_csrs ?s Sepc + 4 \<and> m_regs s' 10 = 1 \<and> (\<forall>i < 32. 0 < i \<longrightarrow> i \<noteq> 10 \<longrightarrow> m_regs s' i = m_regs ?s i)"
    by auto
  then show ?thesis using run(1) by (intro exI [of _ k'] exI [of _ s']) auto
qed

end
