(* ===== verification/Spec2Isabelle.thy ===== *)
theory Spec2Isabelle
  imports Exec_Image Net_Calls Proc_Calls Trap_Props
begin

text \<open>
  Verification library for RVOS, a small single-hart RISC-V kernel in Rust (\<^verbatim>\<open>src/src/\<close>) that runs
  Linux binaries: a busybox shell and nginx.

  \<^bold>\<open>The program and its model.\<close>  A user program runs until an \<^verbatim>\<open>ecall\<close>; \<^verbatim>\<open>trap_vector\<close> saves its registers
  on the kernel stack, \<^verbatim>\<open>rust_trap_handler\<close> runs the system call, \<^verbatim>\<open>do_schedule\<close> may put the frame of
  another process in place, and the vector restores registers from the frame.  All statics of the
  kernel are the record \<open>kernel\<close>; every operation takes and returns it.  Panics, page faults of the
  kernel, endless loops, undefined behaviour and power-off are the values of \<open>kerror\<close>, and a fallible
  operation is of type \<open>'a res\<close>.  Machine words are \<open>64 word\<close> with wrap-around, as in the release
  profile the repository builds.  One group of definitions models one part:

  \<^item> \<open>Prelude\<close>, \<open>BTree_Map\<close>, \<open>Word_Cells\<close>: results, loops, byte memory, the ordered maps of the
    standard library (locale \<open>ordered_map\<close>), eight-byte cells.
  \<^item> \<open>Frame_Alloc\<close>, \<open>Page_Table\<close>, \<open>Address_Space\<close>, \<open>Clone_Space\<close>: \<^verbatim>\<open>mm.rs\<close>.  Allocators (locale
    \<open>bump_allocator\<close>), SV39 tables in byte memory (locale \<open>page_map\<close>), the kernel's identity map, the
    copy of a user space.
  \<^item> \<open>Ram_Fs\<close>, \<open>Fs_Dir\<close>: \<^verbatim>\<open>fs.rs\<close>.  Files, inodes, the boot-time population, directory records.
  \<^item> \<open>Ring_Pipe\<close>, \<open>Fd_Table\<close>: pipes and the descriptor table of \<^verbatim>\<open>syscall.rs\<close> (locales \<open>byte_queue\<close>
    and \<open>descriptor_table\<close>).
  \<^item> \<open>Kernel_State\<close>, \<open>Console\<close>: the statics and user memory access through the MMU; the console
    (\<^verbatim>\<open>console.rs\<close>), the logger and the panic handler (\<^verbatim>\<open>main.rs\<close>).
  \<^item> \<open>Trap_Vector\<close>, \<open>Scheduler\<close>, \<open>Trap_Handler\<close>: \<^verbatim>\<open>trap.rs\<close>, the assembly instruction by instruction,
    \<^verbatim>\<open>do_schedule\<close> (locale \<open>round_robin\<close>), the handler and a whole trap (\<open>trap_cycle\<close>).
  \<^item> \<open>Proc\<close>, \<open>Elf_Load\<close>, \<open>User_Stack\<close>, \<open>Fork_Exit\<close>: \<^verbatim>\<open>proc.rs\<close>.
  \<^item> \<open>Net\<close>: \<^verbatim>\<open>net.rs\<close> over a parameter record for the TCP stack.
  \<^item> \<open>User_Mem\<close>, \<open>Sys_File\<close>, \<open>Sys_Proc\<close>, \<open>Sys_Net\<close>, \<open>Syscall\<close>: the system calls of \<^verbatim>\<open>syscall.rs\<close>, one
    definition per handler, and their \<^verbatim>\<open>dispatch\<close>.
  \<^item> \<open>Boot\<close>: \<^verbatim>\<open>entry.asm\<close>, \<^verbatim>\<open>sbi.rs\<close>, \<^verbatim>\<open>virtio.rs\<close>, the device adapter of \<^verbatim>\<open>net.rs\<close> and \<^verbatim>\<open>rust_main\<close>.
  \<^item> \<open>Kernel_Inv\<close>, \<open>Handler_Inv\<close>, \<open>Kernel_Steps\<close>, \<open>Kernel_Reach\<close>, \<open>Boot_Run\<close>: the invariant of the
    whole kernel, that every handler, the trap handler, the scheduler and a trap keep it, that start-up
    establishes it, and that start-up gets to user mode.
  \<^item> \<open>Syscall_Props\<close>, \<open>Trap_Props\<close>: what user programs can rely on of single calls.
  \<^item> \<open>Mem_Calls\<close>, \<open>File_Calls\<close>, \<open>Net_Calls\<close>, \<open>Proc_Calls\<close>, \<open>Exec_Image\<close>: what they can rely on where a call
    crosses components: \<^verbatim>\<open>brk\<close> and \<^verbatim>\<open>mmap\<close> over the page tables, \<^verbatim>\<open>write\<close>, \<^verbatim>\<open>lseek\<close> and \<^verbatim>\<open>read\<close> over
    descriptors, files, pipes and user memory, \<^verbatim>\<open>epoll_pwait\<close> over the TCP stack, \<^verbatim>\<open>clone\<close>, \<^verbatim>\<open>exit\<close> and \<^verbatim>\<open>wait4\<close>
    over the process table, and \<^verbatim>\<open>execve\<close> over the file system, the loader and the stack builder.

  \<^bold>\<open>What is shown.\<close>  Allocated blocks are disjoint and zeroed; mapping, unmapping and copying have
  their effect on the translation and no other; loading, the initial stack and fork give a program
  the memory and registers it expects; files, directories, pipes and descriptors behave like their
  abstract counterparts; the scheduler is fair and resumes a process where it was interrupted; a
  system call returns to its caller; reading stays within the buffer; a program started by \<^verbatim>\<open>execve\<close>
  has the memory its file describes; memory asked for is zeroed and apart from all other memory;
  what is written to a file is read back; a parent learns the exit code of its child; the stub
  reaches \<^verbatim>\<open>rust_main\<close> on hart 0 only; and every reachable state satisfies \<open>kernel_inv\<close>.  Some theorems
  state limits of the code: the frame range that contains the heap (\<open>page_frames_overlap_heap\<close>), the
  size of \<open>alloc_pages\<close> that wraps around (\<open>alloc_pages_wraps\<close>), the stack page that a thirteenth string
  leaves (\<open>build_stack_overrun\<close>), the panics of \<^verbatim>\<open>read\<close> and \<^verbatim>\<open>dup2\<close>, \<^verbatim>\<open>brk\<close> without frames
  (\<open>sys_brk_no_frames\<close>), \<^verbatim>\<open>mmap\<close> of read-only memory (\<open>sys_mmap_readonly_faults\<close>), redirected output
  (\<open>stdout_ignores_table\<close>), and user pointers into the kernel (\<open>user_pointer_reads_kernel\<close>).

  \<^bold>\<open>Parameters.\<close>  The record \<open>env\<close> holds what is outside of the sources: the translation of the
  hardware (\<open>mmu\<close>), the clock and the UART as sequences of readings, the ELF parser, the TCP stack, the level filter of the log crate;
  \<open>virtio_ops\<close> and \<open>net_driver\<close> hold the device driver, \<open>images\<close> the embedded binaries, \<open>firmware\<close> the
  SBI.  \<open>driver_ok\<close> and \<open>images_ok\<close> name what is assumed of them.

  \<^bold>\<open>Bounds.\<close>  Loops that wait for input run \<open>spin_fuel\<close> times and then give \<open>Hang\<close>, so a result holds for
  every number of attempts; searches for the end of a string stop after \<^verbatim>\<open>2^64\<close> bytes, which is the
  whole address space; the page loop of the loader has one step for each free frame, and
  \<open>load_elf_terminates\<close> shows that it never runs out.  \<open>counters_ok\<close> says that a 64-bit counter
  (pids, inodes, pipes, descriptors) does not wrap around in the next call.

  \<^bold>\<open>Not modelled.\<close>  Log lines below the level the logger is set to, which are never printed; locks,
  since one hart runs with interrupts off; the memory that the collections of the standard library
  take from the kernel heap, except for explicit \<^verbatim>\<open>vec![0u8; n]\<close> buffers and the copy of an ELF file;
  floating point registers, which the code does not save either.  A pointer that the code turns
  into a slice is read as a whole at that point.  The remaining lines of the sources are imports,
  attributes, declarations of statics and the headers of \<^verbatim>\<open>impl\<close> blocks.
\<close>

section \<open>The whole kernel\<close>

text \<open>
  C1. In every state the kernel can reach, its data structures are intact.  Whatever images it is
  built with, whatever devices it finds, whatever programs do to memory between traps and whatever
  they ask for: the process table is ordered, has the current process, and at most that one is marked as running; the
  file system is well formed; the standard descriptors are open and every descriptor has its pipe
  or file; pipes keep their ring; the frame allocator stays in its range.
\<close>

theorem reachable_invariant:
  assumes "images_ok im" "kernel_end_ok kernel_end" "driver_ok V" "kreach E V im kernel_end k"
  shows "kernel_inv k"
  using assms by (rule kreach_inv)

definition demo_images :: images where
  "demo_images = \<lparr>img_nginx = [1], img_test_malloc = [2], img_busybox = [3], img_nss_so = [4]\<rparr>"

definition demo_machine :: "(unit, unit) env" where
  "demo_machine = demo_env\<lparr>elf_parse := (\<lambda>d. Some (demo_elf\<lparr>elf_phdrs := []\<rparr>))\<rparr>"

definition demo_bus :: virtio_ops where
  "demo_bus = \<lparr>vp_transport = (\<lambda>a. False), vp_is_net = (\<lambda>a. False), vp_net_new = (\<lambda>s a. Inr (None, s)),
     vp_register = (\<lambda>t a. 0)\<rparr>"

theorem reachable_invariant_witness:
  "\<exists>k. kreach demo_machine demo_bus demo_images 0x80400000 k \<and> kernel_inv k"
proof -
  have ok: "images_ok demo_images" "kernel_end_ok 0x80400000" "driver_ok demo_bus"
    by (simp_all add: images_ok_def demo_images_def kernel_end_ok_def driver_ok_def demo_bus_def)
  obtain u k where "rust_main demo_machine demo_bus demo_images 0x80400000 (\<lambda>_. 0) = Inr (u, k)"
    using boot_runs [OF ok(1), of "0x80400000" demo_bus demo_machine "demo_elf\<lparr>elf_phdrs := []\<rparr>" "\<lambda>_. 0"]
    by (auto simp: demo_bus_def demo_machine_def demo_images_def)
  then have "kreach demo_machine demo_bus demo_images 0x80400000 k" by (rule kreach.boot)
  with reachable_invariant [OF ok this] show ?thesis by blast
qed

text \<open>
  C18. Every system call keeps the types of the kernel's data: from a state that satisfies the
  invariant and whose counters are not about to wrap, whatever the number and the arguments are, a
  call that returns leaves a state that satisfies the invariant.
\<close>

theorem dispatch_invariant:
  assumes "kernel_inv k" "counters_ok k" "dispatch E k num a0 a1 a2 a3 a4 a5 = Inr (r, k')"
  shows "kernel_inv k'"
  using keeps_dispatch [OF assms(2), of E num a0 a1 a2 a3 a4 a5] assms(1,3) by (simp add: keeps_def post_def)

lemma demo_vstore: "\<exists>k'. vstore demo_env k va bs = Inr k'"
  by (induction bs arbitrary: k va) (simp_all add: demo_env_def)

theorem dispatch_invariant_witness:
  "\<exists>k'. dispatch demo_env demo_live 59 0x5000 0 0 0 0 0 = Inr (0, k') \<and> kernel_inv k'"
proof -
  have c: "counters_ok demo_live"
    by (simp add: counters_ok_def demo_live_def kernel_static_def fs_empty_def fd_table_new_def)
  have "\<exists>k'. sys_pipe2 demo_env demo_live 0x5000 = Inr (0, k')"
    unfolding sys_pipe2_def Let_def case_prod_unfold vstore_u32_def
    using demo_vstore by (metis (no_types, lifting) res_bind_simps(2))
  then obtain k' where run: "dispatch demo_env demo_live 59 0x5000 0 0 0 0 0 = Inr (0, k')"
    by (auto simp: dispatch_def)
  from dispatch_invariant [OF demo_live_inv c run] run show ?thesis by blast
qed

end
